(* ===== verification/Prelude.thy ===== *)
theory Prelude
  imports Main "HOL-Library.Word" "HOL-Library.Monad_Syntax"
begin

unbundle bit_operations_syntax

section \<open>Shared vocabulary of the kernel model\<close>

text \<open>
  The types, casts, containers and generic lemmas the component theories share.

  \<^item> Unsigned machine integers whose width matters are words (\<open>u8\<close> to \<open>u64\<close>): their
    arithmetic wraps, as it does in the release profile, which leaves overflow checks off.
    Sizes, indices and addresses that are bounded by a table or a buffer are natural
    numbers, with \<open>wadd\<close> and \<open>wsub\<close> (modulo \<open>2 ^ 64\<close>) where the source can wrap.
  \<^item> Signed integers are \<open>int\<close>, with the narrowing casts \<open>as_i16\<close>, \<open>as_i32\<close> written out.
  \<^item> A panic (a failed \<open>assert!\<close>, an index out of range) is \<open>None\<close> of \<open>'a panicky\<close>.
  \<^item> A \<open>Result<T, isize>\<close> is \<open>int + 'a\<close>, with \<open>Inl\<close> for \<open>Err\<close>.
  \<^item> \<open>BTreeMap\<close> is an association list kept sorted by key, because the code iterates it
    in key order; its operations satisfy the interface \<open>ord_map\<close>.
  \<^item> Linked lists in memory are related to lists by \<open>chain\<close>.
\<close>

named_theorems btree_simps \<open>rewrite rules of the ordered map\<close>
named_theorems bits \<open>masks, shifts and alignment\<close>

subsection \<open>Types\<close>

type_synonym u8 = "8 word"
type_synonym u16 = "16 word"
type_synonym u32 = "32 word"
type_synonym u64 = "64 word"
type_synonym pid = nat
type_synonym 'a panicky = "'a option"
type_synonym 'a result = "int + 'a"

subsection \<open>Casts and wrapping arithmetic\<close>

definition as_i16 :: "int \<Rightarrow> int" where
  "as_i16 x = signed_take_bit 15 x"

definition as_i32 :: "int \<Rightarrow> int" where
  "as_i32 x = signed_take_bit 31 x"

definition wadd :: "nat \<Rightarrow> nat \<Rightarrow> nat" where
  "wadd a b = (a + b) mod 2 ^ 64"

definition wsub :: "nat \<Rightarrow> nat \<Rightarrow> nat" where
  "wsub a b = (a + (2 ^ 64 - b mod 2 ^ 64)) mod 2 ^ 64"

definition usize_max :: nat where
  "usize_max = 2 ^ 64 - 1"

definition usize_not :: "nat \<Rightarrow> nat" where
  "usize_not a = usize_max - a"

definition saturating_add :: "nat \<Rightarrow> nat \<Rightarrow> nat" where
  "saturating_add a b = min (a + b) usize_max"

definition saturating_sub_u32 :: "u32 \<Rightarrow> u32 \<Rightarrow> u32" where
  "saturating_sub_u32 a b = (if a < b then 0 else a - b)"

definition saturating_add_u32 :: "u32 \<Rightarrow> u32 \<Rightarrow> u32" where
  "saturating_add_u32 a b = (if unat a + unat b < 2 ^ 32 then a + b else - 1)"

definition saturating_add_u64 :: "u64 \<Rightarrow> u64 \<Rightarrow> u64" where
  "saturating_add_u64 a b = (if unat a + unat b < 2 ^ 64 then a + b else - 1)"

definition saturating_sub_u64 :: "u64 \<Rightarrow> u64 \<Rightarrow> u64" where
  "saturating_sub_u64 a b = (if a < b then 0 else a - b)"

lemma as_i16_id: "- (2 ^ 15) \<le> x \<Longrightarrow> x < 2 ^ 15 \<Longrightarrow> as_i16 x = x"
  unfolding as_i16_def by (rule signed_take_bit_int_eq_self) simp_all

lemma as_i16_range: "- (2 ^ 15) \<le> as_i16 x \<and> as_i16 x < 2 ^ 15"
  unfolding as_i16_def
  using signed_take_bit_int_greater_eq_minus_exp [of 15 x] signed_take_bit_int_less_exp [of 15 x]
  by simp

lemma wadd_eq: "a + b < 2 ^ 64 \<Longrightarrow> wadd a b = a + b"
  by (simp add: wadd_def)

lemma wsub_eq: "b \<le> a \<Longrightarrow> a < 2 ^ 64 \<Longrightarrow> wsub a b = a - b"
proof -
  assume ba: "b \<le> a" and a: "a < 2 ^ 64"
  then have b: "b mod 2 ^ 64 = b" by simp
  have "a + (2 ^ 64 - b) = 2 ^ 64 + (a - b)" using ba a by simp
  then have "(a + (2 ^ 64 - b)) mod 2 ^ 64 = (a - b) mod 2 ^ 64" by simp
  then show "wsub a b = a - b" using a b by (simp add: wsub_def)
qed

lemma saturating_sub_u32_le: "saturating_sub_u32 a b \<le> a"
  unfolding saturating_sub_u32_def
  by (simp add: word_le_def uint_sub_if' word_less_def)

lemma saturating_sub_add_u32: "a \<noteq> - 1 \<Longrightarrow> saturating_sub_u32 (saturating_add_u32 a 1) 1 = a"
proof -
  assume a: "a \<noteq> - 1"
  have "unat a \<noteq> 2 ^ 32 - 1"
  proof
    assume "unat a = 2 ^ 32 - 1"
    then have "a = - 1" by (simp add: word_unat_eq_iff unsigned_minus_1_eq_mask mask_eq_exp_minus_1)
    with a show False by simp
  qed
  moreover have "unat a < 2 ^ 32" using unsigned_less [of a] by simp
  ultimately have lt: "unat a + unat (1::u32) < 2 ^ 32" by simp
  then have "unat (a + 1) = unat a + 1" by (simp add: unat_word_ariths)
  then have "\<not> a + 1 < 1" by (simp add: word_less_nat_alt)
  with lt show ?thesis by (simp add: saturating_sub_u32_def saturating_add_u32_def)
qed

subsection \<open>Masks and alignment\<close>

lemma and_pow2_minus_1 [bits]: "(x::nat) AND (2 ^ k - 1) = x mod 2 ^ k"
proof -
  have "x AND (2 ^ k - 1) = take_bit k x"
    by (simp only: take_bit_eq_mask mask_eq_exp_minus_1)
  then show ?thesis by (simp only: take_bit_eq_mod)
qed

lemma and_pow2_minus_1_eq_0 [bits]: "(x::nat) AND (2 ^ k - 1) = 0 \<longleftrightarrow> 2 ^ k dvd x"
  by (simp only: and_pow2_minus_1 dvd_eq_mod_eq_0)

lemma bit_pow2_mult: "bit (2 ^ k * m :: nat) n \<longleftrightarrow> k \<le> n \<and> bit m (n - k)"
  using bit_push_bit_iff_nat [of k m n] by (simp add: push_bit_eq_mult mult.commute)

lemma xor_pow2_aligned:
  assumes "2 ^ k dvd (x::nat)"
  shows "x XOR 2 ^ k = (if even (x div 2 ^ k) then x + 2 ^ k else x - 2 ^ k)"
proof -
  obtain m where x: "x = 2 ^ k * m" using assms by blast
  have div: "x div 2 ^ k = m" by (simp add: x)
  have "x XOR 2 ^ k = push_bit k (m XOR 1)"
  proof -
    have "x = push_bit k m" and "2 ^ k = push_bit k (1::nat)"
      by (simp_all add: x push_bit_eq_mult)
    then show ?thesis by (simp only: push_bit_xor)
  qed
  also have "\<dots> = (if even m then x + 2 ^ k else x - 2 ^ k)"
  proof (cases "even m")
    case True
    then have "m XOR 1 = m + 1" by (simp add: xor_Suc_0_eq)
    then show ?thesis using True by (simp add: x push_bit_eq_mult algebra_simps)
  next
    case False
    then have "m XOR 1 = m - 1" by (simp add: xor_Suc_0_eq)
    moreover have "0 < m" using False by (cases m) auto
    ultimately show ?thesis using False
      by (simp add: x push_bit_eq_mult algebra_simps diff_mult_distrib2)
  qed
  finally show ?thesis by (simp add: div)
qed

subsection \<open>Ordered maps\<close>

text \<open>
  The contract of \<open>BTreeMap\<close>: \<open>insert\<close> and \<open>remove\<close> act on the lookup function
  as updates of it and keep the representation well formed. \<open>modify\<close> is a write through
  \<open>get_mut\<close>. The clients' lemmas are proved once, in the locale.
\<close>

locale ord_map =
  fixes get :: "'m \<Rightarrow> 'k::linorder \<Rightarrow> 'v option"
    and ins :: "'k \<Rightarrow> 'v \<Rightarrow> 'm \<Rightarrow> 'm"
    and rem :: "'k \<Rightarrow> 'm \<Rightarrow> 'm"
    and modi :: "'k \<Rightarrow> ('v \<Rightarrow> 'v) \<Rightarrow> 'm \<Rightarrow> 'm"
    and wf :: "'m \<Rightarrow> bool"
  assumes get_ins: "get (ins k v m) = (get m)(k \<mapsto> v)"
    and get_rem: "get (rem k m) = (get m)(k := None)"
    and get_modi: "get (modi k f m) = (get m)(k := map_option f (get m k))"
    and wf_ins: "wf m \<Longrightarrow> wf (ins k v m)"
    and wf_rem: "wf m \<Longrightarrow> wf (rem k m)"
    and wf_modi: "wf m \<Longrightarrow> wf (modi k f m)"
begin

lemma dom_ins: "dom (get (ins k v m)) = insert k (dom (get m))"
  by (simp add: get_ins)

lemma dom_rem: "dom (get (rem k m)) = dom (get m) - {k}"
  by (auto simp: get_rem)

lemma dom_modi: "dom (get (modi k f m)) = dom (get m)"
  by (auto simp: get_modi dom_def)

lemma all_ins:
  "(\<forall>k' v'. get m k' = Some v' \<longrightarrow> P k' v') \<Longrightarrow> P k v \<Longrightarrow>
   get (ins k v m) k' = Some v' \<Longrightarrow> P k' v'"
  by (simp add: get_ins split: if_splits)

lemma all_modi:
  "(\<forall>k' v'. get m k' = Some v' \<longrightarrow> P k' v') \<Longrightarrow>
   (\<And>v. get m k = Some v \<Longrightarrow> P k (f v)) \<Longrightarrow>
   get (modi k f m) k' = Some v' \<Longrightarrow> P k' v'"
  by (auto simp: get_modi split: if_splits)

end

type_synonym ('k, 'v) btree = "('k \<times> 'v) list"

abbreviation bt_get :: "('k, 'v) btree \<Rightarrow> 'k \<Rightarrow> 'v option" where
  "bt_get \<equiv> map_of"

fun bt_insert :: "'k::linorder \<Rightarrow> 'v \<Rightarrow> ('k, 'v) btree \<Rightarrow> ('k, 'v) btree" where
  "bt_insert k v [] = [(k, v)]"
| "bt_insert k v ((k', v') # xs) =
     (if k < k' then (k, v) # (k', v') # xs
      else if k = k' then (k, v) # xs
      else (k', v') # bt_insert k v xs)"

definition bt_remove :: "'k::linorder \<Rightarrow> ('k, 'v) btree \<Rightarrow> ('k, 'v) btree" where
  "bt_remove k xs = filter (\<lambda>e. fst e \<noteq> k) xs"

definition bt_modify :: "'k::linorder \<Rightarrow> ('v \<Rightarrow> 'v) \<Rightarrow> ('k, 'v) btree \<Rightarrow> ('k, 'v) btree" where
  "bt_modify k f xs = map (\<lambda>e. if fst e = k then (k, f (snd e)) else e) xs"

definition bt_wf :: "('k::linorder, 'v) btree \<Rightarrow> bool" where
  "bt_wf xs \<longleftrightarrow> sorted_wrt (<) (map fst xs)"

lemma bt_get_insert [btree_simps]: "bt_get (bt_insert k v xs) = (bt_get xs)(k \<mapsto> v)"
  by (induction k v xs rule: bt_insert.induct) (auto simp: fun_eq_iff)

lemma bt_get_remove [btree_simps]: "bt_get (bt_remove k xs) = (bt_get xs)(k := None)"
  by (induction xs) (auto simp: fun_eq_iff bt_remove_def)

lemma bt_get_modify [btree_simps]:
  "bt_get (bt_modify k f xs) = (bt_get xs)(k := map_option f (bt_get xs k))"
  by (induction xs) (auto simp: fun_eq_iff bt_modify_def)

lemma set_bt_insert: "fst ` set (bt_insert k v xs) = insert k (fst ` set xs)"
  by (induction k v xs rule: bt_insert.induct) auto

lemma bt_wf_insert: "bt_wf xs \<Longrightarrow> bt_wf (bt_insert k v xs)"
proof (induction k v xs rule: bt_insert.induct)
  case (2 k v k' v' xs)
  have "\<forall>x \<in> fst ` set (bt_insert k v xs). k' < x" if "k' < k"
    using 2 that by (auto simp: set_bt_insert bt_wf_def)
  with 2 show ?case by (force simp: bt_wf_def)
qed (simp add: bt_wf_def)

lemma bt_wf_remove: "bt_wf xs \<Longrightarrow> bt_wf (bt_remove k xs)"
  by (induction xs) (auto simp: bt_wf_def bt_remove_def)

lemma map_fst_bt_modify: "map fst (bt_modify k f xs) = map fst xs"
  by (induction xs) (auto simp: bt_modify_def)

lemma bt_wf_modify: "bt_wf xs \<Longrightarrow> bt_wf (bt_modify k f xs)"
  by (simp add: bt_wf_def map_fst_bt_modify)

interpretation bt: ord_map bt_get bt_insert bt_remove bt_modify bt_wf
  by unfold_locales
    (simp_all add: btree_simps bt_wf_insert bt_wf_remove bt_wf_modify)

lemma bt_wf_distinct: "bt_wf xs \<Longrightarrow> distinct (map fst xs)"
  by (simp add: bt_wf_def strict_sorted_iff)

subsection \<open>Linked lists in memory\<close>

text \<open>
  \<open>chain f p xs\<close>: following the link function \<open>f\<close> from the pointer \<open>p\<close> visits
  exactly \<open>xs\<close> and ends in a null pointer.
\<close>

primrec chain :: "('a \<Rightarrow> 'a option) \<Rightarrow> 'a option \<Rightarrow> 'a list \<Rightarrow> bool" where
  "chain f p [] \<longleftrightarrow> p = None"
| "chain f p (x # xs) \<longleftrightarrow> p = Some x \<and> chain f (f x) xs"

lemma chain_None [simp]: "chain f None xs \<longleftrightarrow> xs = []"
  by (cases xs) auto

lemma chain_SomeE:
  assumes "chain f (Some x) xs"
  obtains ys where "xs = x # ys" "chain f (f x) ys"
  using assms by (cases xs) auto

lemma chain_cong: "(\<And>x. x \<in> set xs \<Longrightarrow> f x = g x) \<Longrightarrow> chain f p xs \<longleftrightarrow> chain g p xs"
  by (induction xs arbitrary: p) auto

lemma chain_upd: "a \<notin> set xs \<Longrightarrow> chain (f(a := q)) p xs \<longleftrightarrow> chain f p xs"
  by (rule chain_cong) auto

lemma chain_unique: "chain f p xs \<Longrightarrow> chain f p ys \<Longrightarrow> xs = ys"
proof (induction xs arbitrary: p ys)
  case (Cons x xs)
  then show ?case by (cases ys) auto
qed simp

lemma chain_append: "chain f p (xs @ ys) \<Longrightarrow> \<exists>q. chain f q ys"
  by (induction xs arbitrary: p) auto

lemma chain_hd_notin: "chain f (f x) xs \<Longrightarrow> x \<notin> set xs"
proof
  assume c: "chain f (f x) xs" and "x \<in> set xs"
  then obtain ys zs where xs: "xs = ys @ x # zs" by (auto dest: split_list)
  with c have "\<exists>q. chain f q (x # zs)" using chain_append by metis
  then have "chain f (f x) zs" by auto
  with c have "xs = zs" by (rule chain_unique)
  with xs show False by simp
qed

lemma chain_distinct: "chain f p xs \<Longrightarrow> distinct xs"
  by (induction xs arbitrary: p) (auto simp: chain_hd_notin)

end
