(* ===== verification/Pmm.thy ===== *)
theory Pmm
  imports Prelude
begin

unbundle bit_operations_syntax

section \<open>Physical memory manager\<close>

text \<open>
  The model of \<^verbatim>\<open>src/mm/pmm.rs\<close> (and of \<^verbatim>\<open>src/mm/boot_memory.rs\<close>): a
  bootstrap pool with a bump pointer, a bitmap and a free list threaded through the pages,
  and a NUMA buddy allocator whose free lists are threaded through the table of
  \<open>PageInfo\<close> records.

  The statics of the file are the fields of \<open>pmm\<close>. A pointer into the
  \<open>PageInfo\<close> table is the index of the entry, a null pointer is \<open>None\<close>; the pool's
  free list links are words in \<open>mem\<close>, with 0 for null, as in the source. Counters that the
  source updates with \<open>fetch_add\<close> and \<open>fetch_sub\<close> are words and wrap. Each operation is
  executed without interference from another processor, so a compare-exchange loop succeeds
  in its first round. Linker symbols, the address of the pool and the answer of
  \<open>local_node\<close> are fields of \<open>platform\<close>.
\<close>

subsection \<open>Constants\<close>

definition PAGE_SIZE :: nat where
  "PAGE_SIZE = 4096"

definition MAX_ORDER :: nat where
  "MAX_ORDER = 11"

definition MAX_NODES :: nat where
  "MAX_NODES = 8"

definition MAX_PA :: nat where
  "MAX_PA = 16 * 1024 * 1024 * 1024"

definition MAX_FRAMES :: nat where
  "MAX_FRAMES = MAX_PA div PAGE_SIZE"

definition POOL_PAGES :: nat where
  "POOL_PAGES = 16384"

definition EMERGENCY_FRAMES :: nat where
  "EMERGENCY_FRAMES = (1 * 1024 * 1024 * 1024) div PAGE_SIZE"

definition FLAG_FREE :: u8 where
  "FLAG_FREE = push_bit 0 1"

definition FLAG_BUDDY :: u8 where
  "FLAG_BUDDY = push_bit 2 1"

subsection \<open>State\<close>

record PageInfo =
  pi_refcount :: u32
  pi_flags :: u8
  pi_order :: nat
  pi_numa_node :: nat
  pi_free_next :: "nat option"

definition page_info_zero :: PageInfo where
  "page_info_zero = \<lparr>pi_refcount = 0, pi_flags = 0, pi_order = 0, pi_numa_node = 0,
     pi_free_next = None\<rparr>"

text \<open>\<open>size_of::<PageInfo>()\<close> for the \<open>repr(C, align(8))\<close> layout.\<close>

definition page_info_bytes :: nat where
  "page_info_bytes = 16"

record platform =
  pool_base :: nat
  kernel_start_pa :: nat
  kernel_end_pa :: nat
  local_node :: nat

record pmm =
  bump :: nat
  pool_free_bits :: "nat \<Rightarrow> u64"
  boot_free_head :: nat
  boot_free_cnt :: u64
  mem :: "nat \<Rightarrow> nat"
  pi_once :: bool
  pi_ready :: bool
  pi_len :: nat
  pinfo :: "nat \<Rightarrow> PageInfo"
  node_ranges :: "nat \<Rightarrow> nat \<times> nat"
  node_count :: nat
  free_lists :: "nat \<Rightarrow> nat \<Rightarrow> nat option"
  bn_free_pages :: "nat \<Rightarrow> u64"
  bn_total_pages :: "nat \<Rightarrow> u64"
  buddy_live :: bool

definition pmm_boot :: pmm where
  "pmm_boot = \<lparr>bump = 0, pool_free_bits = (\<lambda>_. 0), boot_free_head = 0, boot_free_cnt = 0,
     mem = (\<lambda>_. 0), pi_once = False, pi_ready = False, pi_len = 0,
     pinfo = (\<lambda>_. page_info_zero), node_ranges = (\<lambda>_. (usize_max, 0)), node_count = 0,
     free_lists = (\<lambda>_ _. None), bn_free_pages = (\<lambda>_. 0), bn_total_pages = (\<lambda>_. 0),
     buddy_live = False\<rparr>"

definition upd_pi :: "nat \<Rightarrow> (PageInfo \<Rightarrow> PageInfo) \<Rightarrow> pmm \<Rightarrow> pmm" where
  "upd_pi i f s = s\<lparr>pinfo := (pinfo s)(i := f (pinfo s i))\<rparr>"

definition set_list :: "nat \<Rightarrow> nat \<Rightarrow> nat option \<Rightarrow> pmm \<Rightarrow> pmm" where
  "set_list n k p s = s\<lparr>free_lists := (free_lists s)(n := (free_lists s n)(k := p))\<rparr>"

definition add_free :: "nat \<Rightarrow> u64 \<Rightarrow> pmm \<Rightarrow> pmm" where
  "add_free n d s = s\<lparr>bn_free_pages := (bn_free_pages s)(n := bn_free_pages s n + d)\<rparr>"

definition zero_range :: "nat \<Rightarrow> nat \<Rightarrow> pmm \<Rightarrow> pmm" where
  "zero_range pa n s = s\<lparr>mem := (\<lambda>a. if pa \<le> a \<and> a < pa + n then 0 else mem s a)\<rparr>"

definition zero_page :: "nat \<Rightarrow> pmm \<Rightarrow> pmm" where
  "zero_page pa s = zero_range pa PAGE_SIZE s"

subsection \<open>The bootstrap pool\<close>

definition pool_index :: "platform \<Rightarrow> nat \<Rightarrow> nat option" where
  "pool_index E pa =
     (let b = pool_base E in
      if pa \<ge> b \<and> pa < b + POOL_PAGES * PAGE_SIZE then Some ((pa - b) div PAGE_SIZE) else None)"

definition pool_bit_set_free :: "nat \<Rightarrow> pmm \<Rightarrow> bool \<times> pmm" where
  "pool_bit_set_free idx s =
     (let w = idx div 64; b = push_bit (idx mod 64) 1; old = pool_free_bits s w in
      (old AND b = 0, s\<lparr>pool_free_bits := (pool_free_bits s)(w := old OR b)\<rparr>))"

definition pool_bit_clear :: "nat \<Rightarrow> pmm \<Rightarrow> pmm" where
  "pool_bit_clear idx s =
     (let w = idx div 64; b = push_bit (idx mod 64) 1 in
      s\<lparr>pool_free_bits := (pool_free_bits s)(w := pool_free_bits s w AND NOT b)\<rparr>)"

definition boot_push :: "nat \<Rightarrow> pmm \<Rightarrow> pmm" where
  "boot_push pa s =
     s\<lparr>mem := (mem s)(pa := boot_free_head s), boot_free_head := pa,
       boot_free_cnt := boot_free_cnt s + 1\<rparr>"

definition boot_pop :: "pmm \<Rightarrow> nat \<times> pmm" where
  "boot_pop s =
     (let head = boot_free_head s in
      if head = 0 then (0, s)
      else (head, s\<lparr>boot_free_head := mem s head, boot_free_cnt := boot_free_cnt s - 1\<rparr>))"

subsection \<open>The page table of the manager\<close>

definition pfn :: "nat \<Rightarrow> nat" where
  "pfn pa = pa div PAGE_SIZE"

definition page_info :: "pmm \<Rightarrow> nat \<Rightarrow> nat option" where
  "page_info s pa =
     (if pa = 0 \<or> pa AND (PAGE_SIZE - 1) \<noteq> 0 then None
      else if \<not> pi_ready s then None
      else let idx = pfn pa in if idx \<ge> pi_len s then None else Some idx)"

fun mark_table_pages :: "platform \<Rightarrow> nat \<Rightarrow> nat list \<Rightarrow> pmm \<Rightarrow> pmm" where
  "mark_table_pages E base [] s = s"
| "mark_table_pages E base (i # is) s =
     (case pool_index E (base + i * PAGE_SIZE) of
        Some idx \<Rightarrow> mark_table_pages E base is (snd (pool_bit_set_free idx s))
      | None \<Rightarrow> mark_table_pages E base is s)"

definition ensure_page_info_table :: "platform \<Rightarrow> nat \<Rightarrow> pmm \<Rightarrow> pmm panicky" where
  "ensure_page_info_table E max_pfn s =
     (if pi_once s then Some s
      else let needed = max_pfn + 1;
               bytes = needed * page_info_bytes;
               pages = (bytes + PAGE_SIZE - 1) div PAGE_SIZE;
               bump_before = bump s;
               new_bump = bump_before + pages
           in if new_bump \<le> POOL_PAGES
              then let base = pool_base E + bump_before * PAGE_SIZE;
                       s1 = zero_range base (pages * PAGE_SIZE) (s\<lparr>bump := new_bump\<rparr>);
                       s2 = mark_table_pages E base [0..<pages] s1
                   in Some (s2\<lparr>pi_once := True, pi_ready := True, pi_len := needed,
                               pinfo := (\<lambda>_. page_info_zero)\<rparr>)
              else if needed \<le> EMERGENCY_FRAMES
              then Some (s\<lparr>pi_once := True, pi_ready := True, pi_len := EMERGENCY_FRAMES,
                           pinfo := (\<lambda>_. page_info_zero)\<rparr>)
              else None)"

subsection \<open>NUMA ranges\<close>

definition register_node_range :: "nat \<Rightarrow> nat \<Rightarrow> nat \<Rightarrow> pmm \<Rightarrow> pmm" where
  "register_node_range n b e s =
     (if n \<ge> MAX_NODES then s
      else let r = node_ranges s n;
               s1 = s\<lparr>node_ranges := (node_ranges s)(n := (min (fst r) b, max (snd r) e))\<rparr>
           in if n + 1 > node_count s then s1\<lparr>node_count := n + 1\<rparr> else s1)"

definition node_of :: "pmm \<Rightarrow> nat \<Rightarrow> nat" where
  "node_of s pa =
     (case List.find (\<lambda>i. pa \<ge> fst (node_ranges s i) \<and> pa < snd (node_ranges s i))
             [0..<node_count s] of
        Some i \<Rightarrow> i | None \<Rightarrow> 0)"

subsection \<open>Buddy primitives\<close>

definition pi_to_pa :: "nat \<Rightarrow> nat" where
  "pi_to_pa i = i * PAGE_SIZE"

definition order_size :: "nat \<Rightarrow> nat" where
  "order_size k = push_bit k PAGE_SIZE"

definition buddy_pa :: "nat \<Rightarrow> nat \<Rightarrow> nat" where
  "buddy_pa pa k = pa XOR order_size k"

definition is_aligned :: "nat \<Rightarrow> nat \<Rightarrow> bool" where
  "is_aligned pa k \<longleftrightarrow> pa AND (order_size k - 1) = 0"

definition buddy_push :: "nat \<Rightarrow> nat \<Rightarrow> nat \<Rightarrow> pmm \<Rightarrow> pmm" where
  "buddy_push n pa k s =
     (case page_info s pa of
        None \<Rightarrow> s
      | Some i \<Rightarrow>
          let s1 = upd_pi i (\<lambda>p. p\<lparr>pi_flags := pi_flags p OR FLAG_FREE, pi_order := k\<rparr>) s;
              head = free_lists s1 n k;
              s2 = upd_pi i (\<lambda>p. p\<lparr>pi_free_next := head\<rparr>) s1
          in add_free n (push_bit k 1) (set_list n k (Some i) s2))"

definition buddy_unlink :: "nat \<Rightarrow> nat \<Rightarrow> nat \<Rightarrow> pmm \<Rightarrow> pmm" where
  "buddy_unlink n k h s =
     (let nxt = pi_free_next (pinfo s h);
          s1 = set_list n k nxt s;
          s2 = upd_pi h (\<lambda>p. p\<lparr>pi_flags := pi_flags p AND NOT FLAG_FREE\<rparr>) s1
      in add_free n (- push_bit k 1) s2)"

definition buddy_pop :: "nat \<Rightarrow> nat \<Rightarrow> pmm \<Rightarrow> nat \<times> pmm" where
  "buddy_pop n k s =
     (case free_lists s n k of
        None \<Rightarrow> (0, s)
      | Some h \<Rightarrow> (pi_to_pa h, buddy_unlink n k h s))"

definition POPPED_LEN :: nat where
  "POPPED_LEN = 256"

fun buddy_relink :: "nat \<Rightarrow> nat \<Rightarrow> nat list \<Rightarrow> pmm \<Rightarrow> pmm" where
  "buddy_relink n k [] s = s"
| "buddy_relink n k (p # ps) s =
     (let s1 = upd_pi p (\<lambda>q. q\<lparr>pi_flags := pi_flags q OR FLAG_FREE\<rparr>) s;
          s2 = add_free n (push_bit k 1) s1;
          h = free_lists s2 n k;
          s3 = upd_pi p (\<lambda>q. q\<lparr>pi_free_next := h\<rparr>) s2
      in buddy_relink n k ps (set_list n k (Some p) s3))"

text \<open>
  The search of \<open>buddy_remove\<close>: pop blocks into the array \<open>popped\<close> until the target is
  found, the list is empty or the array is full; then put the popped blocks back. When the
  array is full, the block just popped gets its flag and its count back but is not linked
  again, as in the source.
\<close>

function buddy_remove_loop :: "nat \<Rightarrow> nat \<Rightarrow> nat \<Rightarrow> nat list \<Rightarrow> pmm \<Rightarrow> bool \<times> pmm" where
  "buddy_remove_loop n k target popped s =
     (case free_lists s n k of
        None \<Rightarrow> (False, buddy_relink n k popped s)
      | Some h \<Rightarrow>
          let s1 = buddy_unlink n k h s in
          if h = target then (True, buddy_relink n k popped s1)
          else if length popped < POPPED_LEN
          then buddy_remove_loop n k target (popped @ [h]) s1
          else let s2 = upd_pi h (\<lambda>q. q\<lparr>pi_flags := pi_flags q OR FLAG_FREE\<rparr>) s1;
                   s3 = add_free n (push_bit k 1) s2
               in (False, buddy_relink n k popped s3))"
  by pat_completeness auto
termination
  by (relation "measure (\<lambda>(n, k, target, popped, s). POPPED_LEN - length popped)") auto

declare buddy_remove_loop.simps [simp del]

definition buddy_remove :: "nat \<Rightarrow> nat \<Rightarrow> nat \<Rightarrow> pmm \<Rightarrow> bool \<times> pmm" where
  "buddy_remove n pa k s =
     (case page_info s pa of
        None \<Rightarrow> (False, s)
      | Some target \<Rightarrow> buddy_remove_loop n k target [] s)"

definition is_kernel_page :: "platform \<Rightarrow> nat \<Rightarrow> bool" where
  "is_kernel_page E pa \<longleftrightarrow> pa \<ge> kernel_start_pa E \<and> pa < kernel_end_pa E"

subsection \<open>Buddy allocation\<close>

text \<open>The splitting loop of both allocation functions, from order \<open>c\<close> down to \<open>k\<close>.\<close>

fun buddy_split :: "nat \<Rightarrow> nat \<Rightarrow> nat \<Rightarrow> nat \<Rightarrow> pmm \<Rightarrow> pmm" where
  "buddy_split n pa 0 k s = s"
| "buddy_split n pa (Suc c) k s =
     (if Suc c > k
      then let half = pa + order_size c;
               s1 = (case page_info s half of
                       Some i \<Rightarrow> upd_pi i (\<lambda>p. p\<lparr>pi_numa_node := n\<rparr>) s
                     | None \<Rightarrow> s)
           in buddy_split n pa c k (buddy_push n half c s1)
      else s)"

definition pi_claim :: "nat \<Rightarrow> nat \<Rightarrow> PageInfo \<Rightarrow> PageInfo" where
  "pi_claim n k p = p\<lparr>pi_refcount := 1, pi_order := k, pi_flags := FLAG_BUDDY, pi_numa_node := n\<rparr>"

fun claim_pages :: "nat \<Rightarrow> nat \<Rightarrow> nat \<Rightarrow> nat list \<Rightarrow> pmm \<Rightarrow> pmm" where
  "claim_pages n k pa [] s = s"
| "claim_pages n k pa (i # is) s =
     claim_pages n k pa is
       (case page_info s (pa + i * PAGE_SIZE) of
          Some j \<Rightarrow> upd_pi j (pi_claim n k) s
        | None \<Rightarrow> s)"

fun buddy_alloc_from :: "nat \<Rightarrow> nat list \<Rightarrow> pmm \<Rightarrow> nat \<times> pmm" where
  "buddy_alloc_from n [] s = (0, s)"
| "buddy_alloc_from n (k # ks) s =
     (let (pa, s1) = buddy_pop n k s in
      if pa = 0 then buddy_alloc_from n ks s1
      else let s2 = buddy_split n pa k 0 s1;
               s3 = (case page_info s2 pa of
                       Some i \<Rightarrow> upd_pi i (pi_claim n 0) s2
                     | None \<Rightarrow> s2)
           in (pa, zero_range pa PAGE_SIZE s3))"

definition buddy_alloc_node :: "nat \<Rightarrow> pmm \<Rightarrow> nat \<times> pmm" where
  "buddy_alloc_node n s = buddy_alloc_from n [0..<MAX_ORDER] s"

fun buddy_alloc_order_from :: "nat \<Rightarrow> nat \<Rightarrow> nat list \<Rightarrow> pmm \<Rightarrow> nat \<times> pmm" where
  "buddy_alloc_order_from n k [] s = (0, s)"
| "buddy_alloc_order_from n k (t # ts) s =
     (let (pa, s1) = buddy_pop n t s in
      if pa = 0 then buddy_alloc_order_from n k ts s1
      else let s2 = buddy_split n pa t k s1;
               block_pages = 2 ^ k;
               s3 = claim_pages n k pa [0..<block_pages] s2
           in (pa, zero_range pa (block_pages * PAGE_SIZE) s3))"

definition buddy_alloc_order_node :: "nat \<Rightarrow> nat \<Rightarrow> pmm \<Rightarrow> nat \<times> pmm" where
  "buddy_alloc_order_node n k s =
     (if k \<ge> MAX_ORDER then (0, s) else buddy_alloc_order_from n k [k..<MAX_ORDER] s)"

subsection \<open>Buddy release\<close>

text \<open>
  The coalescing loop of \<open>buddy_free_page\<close>: the block at \<open>pa\<close> of order \<open>k\<close> absorbs its
  buddy while the buddy is a free block of the same order and node.
\<close>

function buddy_merge :: "nat \<Rightarrow> nat \<Rightarrow> nat \<Rightarrow> pmm \<Rightarrow> (nat \<times> nat) \<times> pmm" where
  "buddy_merge n pa k s =
     (if k + 1 < MAX_ORDER
      then let bpa = buddy_pa pa k in
        if bpa \<ge> MAX_PA then ((pa, k), s)
        else case page_info s bpa of
          None \<Rightarrow> ((pa, k), s)
        | Some b \<Rightarrow>
            let bpi = pinfo s b in
            if pi_flags bpi AND (FLAG_FREE OR FLAG_BUDDY) \<noteq> (FLAG_FREE OR FLAG_BUDDY)
            then ((pa, k), s)
            else if pi_order bpi \<noteq> k then ((pa, k), s)
            else if pi_numa_node bpi \<noteq> n then ((pa, k), s)
            else let merged = min pa bpa in
              if \<not> is_aligned merged (k + 1) then ((pa, k), s)
              else let (found, s1) = buddy_remove n bpa k s in
                if \<not> found then ((pa, k), s1)
                else buddy_merge n merged (k + 1) s1
      else ((pa, k), s))"
  by pat_completeness auto
termination
  by (relation "measure (\<lambda>(n, pa, k, s). MAX_ORDER - k)") auto

declare buddy_merge.simps [simp del]

definition buddy_free_page :: "nat \<Rightarrow> pmm \<Rightarrow> pmm" where
  "buddy_free_page pa s =
     (if pa = 0 \<or> pa AND (PAGE_SIZE - 1) \<noteq> 0 then s
      else case page_info s pa of
        None \<Rightarrow> s
      | Some i \<Rightarrow>
          let n = pi_numa_node (pinfo s i);
              s1 = zero_range pa PAGE_SIZE s;
              s2 = upd_pi i (\<lambda>p. p\<lparr>pi_refcount := 0, pi_flags := 0\<rparr>) s1;
              ((cpa, k), s3) = buddy_merge n pa 0 s2;
              s4 = (case page_info s3 cpa of
                      Some c \<Rightarrow> upd_pi c (\<lambda>p. p\<lparr>pi_flags := FLAG_FREE OR FLAG_BUDDY\<rparr>) s3
                    | None \<Rightarrow> s3)
          in buddy_push n cpa k s4)"

subsection \<open>The allocator's interface\<close>

fun alloc_try_nodes :: "nat \<Rightarrow> nat \<Rightarrow> nat list \<Rightarrow> pmm \<Rightarrow> nat \<times> pmm" where
  "alloc_try_nodes preferred n_nodes [] s = (0, s)"
| "alloc_try_nodes preferred n_nodes (i # is) s =
     (let (pa, s1) = buddy_alloc_node ((preferred + i) mod n_nodes) s in
      if pa \<noteq> 0 then (pa, s1) else alloc_try_nodes preferred n_nodes is s1)"

definition boot_alloc :: "platform \<Rightarrow> pmm \<Rightarrow> nat option \<times> pmm" where
  "boot_alloc E s =
     (let (pa, s1) = boot_pop s in
      if pa \<noteq> 0
      then let s2 = (case pool_index E pa of
                       Some idx \<Rightarrow> pool_bit_clear idx s1
                     | None \<Rightarrow> s1)
           in (Some pa, zero_range pa PAGE_SIZE s2)
      else let idx = bump s1 in
           if idx \<ge> POOL_PAGES then (None, s1)
           else (Some (pool_base E + idx * PAGE_SIZE), s1\<lparr>bump := idx + 1\<rparr>))"

definition alloc_page :: "platform \<Rightarrow> pmm \<Rightarrow> nat option \<times> pmm" where
  "alloc_page E s =
     (let n_nodes = max (node_count s) 1;
          (pa, s1) = (if buddy_live s
                      then alloc_try_nodes (local_node E) n_nodes [0..<n_nodes] s
                      else (0, s))
      in if pa \<noteq> 0 then (Some pa, s1) else boot_alloc E s1)"

definition alloc_page_on_node :: "platform \<Rightarrow> nat \<Rightarrow> pmm \<Rightarrow> (nat option \<times> pmm) panicky" where
  "alloc_page_on_node E n s =
     (if buddy_live s
      then if n \<ge> MAX_NODES then None
           else let (pa, s1) = buddy_alloc_node n s in
                if pa \<noteq> 0 then Some (Some pa, s1) else Some (alloc_page E s1)
      else Some (alloc_page E s))"

definition free_page :: "platform \<Rightarrow> nat \<Rightarrow> pmm \<Rightarrow> pmm panicky" where
  "free_page E pa s =
     (if pa = 0 then Some s
      else if pa AND (PAGE_SIZE - 1) \<noteq> 0 then None
      else if is_kernel_page E pa then None
      else case pool_index E pa of
        Some idx \<Rightarrow>
          let (ok, s1) = pool_bit_set_free idx s in
          if \<not> ok then None else Some (boot_push pa (zero_page pa s1))
      | None \<Rightarrow>
          (case page_info s pa of
             None \<Rightarrow> Some s
           | Some i \<Rightarrow>
               let old = pi_refcount (pinfo s i);
                   s1 = upd_pi i (\<lambda>p. p\<lparr>pi_refcount := old - 1\<rparr>) s
               in if \<not> old > 0 then None
                  else if old = 1 then Some (buddy_free_page pa s1)
                  else Some s1))"

definition get_page :: "nat \<Rightarrow> pmm \<Rightarrow> pmm" where
  "get_page pa s =
     (case page_info s pa of
        Some i \<Rightarrow> upd_pi i (\<lambda>p. p\<lparr>pi_refcount := pi_refcount p + 1\<rparr>) s
      | None \<Rightarrow> s)"

definition put_page :: "platform \<Rightarrow> nat \<Rightarrow> pmm \<Rightarrow> pmm panicky" where
  "put_page E pa s = free_page E pa s"

definition page_refcount :: "nat \<Rightarrow> pmm \<Rightarrow> u32" where
  "page_refcount pa s =
     (case page_info s pa of Some i \<Rightarrow> pi_refcount (pinfo s i) | None \<Rightarrow> 0)"

subsection \<open>Contiguous allocation\<close>

fun free_pages_from :: "platform \<Rightarrow> nat \<Rightarrow> nat list \<Rightarrow> pmm \<Rightarrow> pmm panicky" where
  "free_pages_from E base [] s = Some s"
| "free_pages_from E base (i # is) s =
     (case free_page E (base + i * PAGE_SIZE) s of
        None \<Rightarrow> None
      | Some s1 \<Rightarrow> free_pages_from E base is s1)"

definition free_pages_contig :: "platform \<Rightarrow> nat \<Rightarrow> nat \<Rightarrow> pmm \<Rightarrow> pmm panicky" where
  "free_pages_contig E base n s = free_pages_from E base [0..<n] s"

fun alloc_pages_boot :: "platform \<Rightarrow> nat \<Rightarrow> pmm \<Rightarrow> nat list option \<times> pmm" where
  "alloc_pages_boot E 0 s = (Some [], s)"
| "alloc_pages_boot E (Suc n) s =
     (case alloc_page E s of
        (None, s1) \<Rightarrow> (None, s1)
      | (Some pa, s1) \<Rightarrow>
          (case alloc_pages_boot E n s1 of
             (None, s2) \<Rightarrow> (None, s2)
           | (Some pas, s2) \<Rightarrow> (Some (pa # pas), s2)))"

function contig_order :: "nat \<Rightarrow> nat \<Rightarrow> nat" where
  "contig_order n k = (if 2 ^ k < n then contig_order n (k + 1) else k)"
  by pat_completeness auto
termination
  by (relation "measure (\<lambda>(n, k). n - 2 ^ k)") (auto intro!: diff_less_mono2)

declare contig_order.simps [simp del]

fun free_tail :: "nat \<Rightarrow> nat list \<Rightarrow> pmm \<Rightarrow> pmm" where
  "free_tail pa [] s = s"
| "free_tail pa (j # js) s = free_tail pa js (buddy_free_page (pa + j * PAGE_SIZE) s)"

fun contig_try_nodes ::
  "nat \<Rightarrow> nat \<Rightarrow> nat \<Rightarrow> nat \<Rightarrow> nat list \<Rightarrow> pmm \<Rightarrow> nat option \<times> pmm" where
  "contig_try_nodes n k preferred n_nodes [] s = (None, s)"
| "contig_try_nodes n k preferred n_nodes (i # is) s =
     (let (pa, s1) = buddy_alloc_order_node ((preferred + i) mod n_nodes) k s in
      if pa = 0 then contig_try_nodes n k preferred n_nodes is s1
      else (Some pa, free_tail pa [n..<2 ^ k] s1))"

definition alloc_pages_contig :: "platform \<Rightarrow> nat \<Rightarrow> pmm \<Rightarrow> nat option \<times> pmm" where
  "alloc_pages_contig E n s =
     (if n = 0 then (None, s)
      else if n = 1 then alloc_page E s
      else if \<not> buddy_live s
      then (case alloc_pages_boot E (min (2 ^ (MAX_ORDER - 1)) n) s of
              (None, s1) \<Rightarrow> (None, s1)
            | (Some pas, s1) \<Rightarrow> (Some (hd pas), s1))
      else let k = contig_order n 0 in
           if k \<ge> MAX_ORDER then (None, s)
           else let n_nodes = max (node_count s) 1 in
                contig_try_nodes n k (local_node E) n_nodes [0..<n_nodes] s)"

definition alloc_pages_aligned ::
  "platform \<Rightarrow> nat \<Rightarrow> nat \<Rightarrow> pmm \<Rightarrow> (nat option \<times> pmm) panicky" where
  "alloc_pages_aligned E n align s =
     (case alloc_pages_contig E n s of
        (None, s1) \<Rightarrow> Some (None, s1)
      | (Some pa, s1) \<Rightarrow>
          if align = 0 \<or> pa AND (align - 1) = 0 then Some (Some pa, s1)
          else (case free_pages_contig E pa n s1 of
                  None \<Rightarrow> None
                | Some s2 \<Rightarrow>
                    let extra = max (align div PAGE_SIZE) 1 in
                    (case alloc_pages_contig E (n + extra) s2 of
                       (None, s3) \<Rightarrow> Some (None, s3)
                     | (Some pa2, s3) \<Rightarrow>
                         Some (Some ((pa2 + align - 1) AND usize_not (align - 1)), s3))))"

subsection \<open>Adding memory\<close>

function add_region_loop ::
  "platform \<Rightarrow> nat \<Rightarrow> nat \<Rightarrow> nat \<Rightarrow> pmm \<Rightarrow> pmm panicky" where
  "add_region_loop E n pa e s =
     (if pa + PAGE_SIZE \<le> e
      then if pa = 0 \<or> is_kernel_page E pa \<or> pfn pa \<ge> pi_len s
           then add_region_loop E n (pa + PAGE_SIZE) e s
           else case page_info s pa of
             None \<Rightarrow> add_region_loop E n (pa + PAGE_SIZE) e s
           | Some i \<Rightarrow>
               if n \<ge> MAX_NODES then None
               else let s1 = upd_pi i (\<lambda>p. p\<lparr>pi_refcount := 0, pi_flags := FLAG_FREE OR FLAG_BUDDY,
                                             pi_order := 0, pi_numa_node := n\<rparr>) s;
                        s2 = zero_page pa s1;
                        s3 = buddy_push n pa 0 s2;
                        s4 = s3\<lparr>bn_total_pages := (bn_total_pages s3)(n := bn_total_pages s3 n + 1)\<rparr>
                    in add_region_loop E n (pa + PAGE_SIZE) e s4
      else Some s)"
  by pat_completeness auto
termination
  by (relation "measure (\<lambda>(E, n, pa, e, s). e - pa)") (auto simp: PAGE_SIZE_def)

declare add_region_loop.simps [simp del]

definition pmm_add_region_node :: "platform \<Rightarrow> nat \<Rightarrow> nat \<Rightarrow> nat \<Rightarrow> pmm \<Rightarrow> pmm panicky" where
  "pmm_add_region_node E base len n s =
     (let start = wadd base (PAGE_SIZE - 1) AND usize_not (PAGE_SIZE - 1);
          e = wadd base len
      in if start \<ge> e then Some s
         else let max_pfn = pfn (e - 1) in
           case (if max_pfn < MAX_FRAMES then ensure_page_info_table E max_pfn s else Some s) of
             None \<Rightarrow> None
           | Some s1 \<Rightarrow>
               add_region_loop E n start e ((register_node_range n start e s1)\<lparr>buddy_live := True\<rparr>))"

definition pmm_add_region :: "platform \<Rightarrow> nat \<Rightarrow> nat \<Rightarrow> pmm \<Rightarrow> pmm panicky" where
  "pmm_add_region E base len s = pmm_add_region_node E base len 0 s"

datatype region_kind = Usable | Reserved | Mmio | KernelImage | Bootloader | InitRamFs

record region =
  r_start :: nat
  r_length :: nat
  r_kind :: region_kind

definition region_is_usable :: "region \<Rightarrow> bool" where
  "region_is_usable r \<longleftrightarrow> r_kind r = Usable"

definition regions_total_usable :: "region list \<Rightarrow> nat" where
  "regions_total_usable rs = sum_list (map r_length (filter region_is_usable rs)) mod 2 ^ 64"

fun init_from_regions :: "platform \<Rightarrow> region list \<Rightarrow> pmm \<Rightarrow> pmm panicky" where
  "init_from_regions E [] s = Some s"
| "init_from_regions E (r # rs) s =
     (if \<not> region_is_usable r then init_from_regions E rs s
      else case pmm_add_region E (r_start r) (r_length r) s of
        None \<Rightarrow> None
      | Some s1 \<Rightarrow> init_from_regions E rs s1)"

subsection \<open>Statistics\<close>

definition free_pages :: "pmm \<Rightarrow> u64" where
  "free_pages s =
     sum_list (map (bn_free_pages s) [0..<max (node_count s) 1]) + boot_free_cnt s
       + of_nat (POOL_PAGES - bump s)"

definition total_pages :: "pmm \<Rightarrow> u64" where
  "total_pages s =
     sum_list (map (bn_total_pages s) [0..<max (node_count s) 1]) + of_nat POOL_PAGES"

definition free_pages_node :: "nat \<Rightarrow> pmm \<Rightarrow> u64 panicky" where
  "free_pages_node n s = (if n < MAX_NODES then Some (bn_free_pages s n) else None)"

definition total_pages_node :: "nat \<Rightarrow> pmm \<Rightarrow> u64 panicky" where
  "total_pages_node n s = (if n < MAX_NODES then Some (bn_total_pages s n) else None)"

subsection \<open>Aliases\<close>

definition alloc_pages :: "platform \<Rightarrow> nat \<Rightarrow> pmm \<Rightarrow> nat option \<times> pmm" where
  "alloc_pages E n s = alloc_pages_contig E n s"

definition add_region :: "platform \<Rightarrow> nat \<Rightarrow> nat \<Rightarrow> pmm \<Rightarrow> pmm panicky" where
  "add_region E base len s = pmm_add_region E base len s"

definition free_page_table :: "platform \<Rightarrow> nat \<Rightarrow> pmm \<Rightarrow> pmm panicky" where
  "free_page_table E pa s = free_page E pa s"

end
