(* ===== verification/Pmm_Inv.thy ===== *)
theory Pmm_Inv
  imports Pmm
begin

unbundle bit_operations_syntax

section \<open>The buddy allocator: invariant and correctness\<close>

text \<open>
  The invariant of the buddy allocator of \<^verbatim>\<open>src/mm/pmm.rs\<close> and the proof that its
  operations keep it. A free block is a triple of node, order and page frame number.
  \<open>pmm_inv s L\<close> says that the pointer structure of \<open>s\<close> holds exactly the lists
  \<open>L\<close>, that the blocks on them are aligned, inside the table and pairwise disjoint, and
  that every page of a free block has reference count 0. \<open>acct s L\<close> says that the page
  counters agree with the lists. The specification of each operation is stated on the set
  of free pages \<open>covered (blocks L)\<close>.
\<close>

subsection \<open>Frames\<close>

text \<open>The fields of the bootstrap pool and of the configuration, which no buddy operation touches.\<close>

definition pool_part :: "pmm \<Rightarrow> nat \<times> (nat \<Rightarrow> u64) \<times> nat \<times> u64 \<times> bool \<times> nat \<times> bool" where
  "pool_part s =
     (bump s, pool_free_bits s, boot_free_head s, boot_free_cnt s, buddy_live s, node_count s, pi_once s)"

lemma upd_pi_frame [simp]:
  "free_lists (upd_pi i f s) = free_lists s" "pi_ready (upd_pi i f s) = pi_ready s"
  "pi_len (upd_pi i f s) = pi_len s" "mem (upd_pi i f s) = mem s"
  "bn_free_pages (upd_pi i f s) = bn_free_pages s"
  "pinfo (upd_pi i f s) j = (if j = i then f (pinfo s i) else pinfo s j)"
  "pool_part (upd_pi i f s) = pool_part s"
  by (simp_all add: upd_pi_def pool_part_def)

lemma set_list_frame [simp]:
  "free_lists (set_list n k p s) m = (if m = n then (free_lists s n)(k := p) else free_lists s m)"
  "pi_ready (set_list n k p s) = pi_ready s" "pi_len (set_list n k p s) = pi_len s"
  "mem (set_list n k p s) = mem s" "pinfo (set_list n k p s) = pinfo s"
  "bn_free_pages (set_list n k p s) = bn_free_pages s"
  "pool_part (set_list n k p s) = pool_part s"
  by (simp_all add: set_list_def pool_part_def)

lemma add_free_frame [simp]:
  "free_lists (add_free n d s) = free_lists s" "pi_ready (add_free n d s) = pi_ready s"
  "pi_len (add_free n d s) = pi_len s" "mem (add_free n d s) = mem s"
  "pinfo (add_free n d s) = pinfo s"
  "bn_free_pages (add_free n d s) m = (if m = n then bn_free_pages s n + d else bn_free_pages s m)"
  "pool_part (add_free n d s) = pool_part s"
  by (simp_all add: add_free_def pool_part_def)

lemma zero_range_frame [simp]:
  "free_lists (zero_range pa m s) = free_lists s" "pi_ready (zero_range pa m s) = pi_ready s"
  "pi_len (zero_range pa m s) = pi_len s" "pinfo (zero_range pa m s) = pinfo s"
  "bn_free_pages (zero_range pa m s) = bn_free_pages s"
  "mem (zero_range pa m s) a = (if pa \<le> a \<and> a < pa + m then 0 else mem s a)"
  "pool_part (zero_range pa m s) = pool_part s"
  by (simp_all add: zero_range_def pool_part_def)

subsection \<open>Addresses and frame numbers\<close>

lemma PAGE_SIZE_pow: "PAGE_SIZE = 2 ^ 12"
  by (simp add: PAGE_SIZE_def)

lemma PAGE_SIZE_pos [simp]: "0 < PAGE_SIZE" "PAGE_SIZE \<noteq> 0"
  by (simp_all add: PAGE_SIZE_def)

lemma page_aligned_iff: "pa AND (PAGE_SIZE - 1) = 0 \<longleftrightarrow> PAGE_SIZE dvd pa"
  unfolding PAGE_SIZE_pow by (rule and_pow2_minus_1_eq_0)

lemmas page_aligned_Suc = page_aligned_iff [unfolded One_nat_def]

lemma pfn_pi_to_pa [simp]: "pfn (i * PAGE_SIZE) = i"
  by (simp add: pfn_def)

lemma page_info_pa: "page_info s (i * PAGE_SIZE) = (if pi_ready s \<and> 0 < i \<and> i < pi_len s then Some i else None)"
  by (auto simp: page_info_def page_aligned_Suc Let_def)

lemma page_info_SomeD:
  assumes "page_info s pa = Some i"
  shows "pa = i * PAGE_SIZE" "0 < i" "i < pi_len s" "pi_ready s"
  using assms
  by (auto simp: page_info_def page_aligned_Suc Let_def pfn_def split: if_splits)

lemma order_size_eq: "order_size k = 2 ^ k * PAGE_SIZE"
  by (simp add: order_size_def push_bit_eq_mult)

lemma order_size_pow: "order_size k = 2 ^ (12 + k)"
  by (simp add: order_size_eq PAGE_SIZE_pow power_add)

lemma is_aligned_iff: "is_aligned (i * PAGE_SIZE) k \<longleftrightarrow> 2 ^ k dvd i"
  unfolding is_aligned_def order_size_pow and_pow2_minus_1_eq_0
  by (simp add: PAGE_SIZE_def power_add mult.commute)

lemma buddy_pa_aligned:
  assumes "2 ^ k dvd i"
  shows "buddy_pa (i * PAGE_SIZE) k =
    (if even (i div 2 ^ k) then (i + 2 ^ k) * PAGE_SIZE else (i - 2 ^ k) * PAGE_SIZE)"
proof -
  have d: "2 ^ (12 + k) dvd i * PAGE_SIZE"
    using assms by (auto simp: PAGE_SIZE_pow power_add mult.commute intro: mult_dvd_mono)
  have q: "i * PAGE_SIZE div 2 ^ (12 + k) = i div 2 ^ k"
    by (simp add: PAGE_SIZE_pow power_add mult.commute)
  show ?thesis
    unfolding buddy_pa_def order_size_pow xor_pow2_aligned [OF d] q
    by (simp add: PAGE_SIZE_pow power_add algebra_simps diff_mult_distrib)
qed

subsection \<open>Blocks\<close>

type_synonym block = "nat \<times> nat \<times> nat"

definition blk :: "nat \<Rightarrow> nat \<Rightarrow> nat set" where
  "blk i k = {i ..< i + 2 ^ k}"

definition covered :: "block set \<Rightarrow> nat set" where
  "covered B = (\<Union>(n, k, i) \<in> B. blk i k)"

definition block_ok :: "nat \<Rightarrow> nat \<Rightarrow> nat \<Rightarrow> bool" where
  "block_ok len k i \<longleftrightarrow> k < MAX_ORDER \<and> 0 < i \<and> 2 ^ k dvd i \<and> i + 2 ^ k \<le> len"

definition blocks_wf :: "nat \<Rightarrow> block set \<Rightarrow> bool" where
  "blocks_wf len B \<longleftrightarrow>
     (\<forall>n k i. (n, k, i) \<in> B \<longrightarrow> block_ok len k i) \<and>
     (\<forall>n k i n' k' i'. (n, k, i) \<in> B \<longrightarrow> (n', k', i') \<in> B \<longrightarrow> (n, k, i) \<noteq> (n', k', i') \<longrightarrow>
        blk i k \<inter> blk i' k' = {})"

definition blocks :: "(nat \<Rightarrow> nat \<Rightarrow> nat list) \<Rightarrow> block set" where
  "blocks L = {(n, k, i). i \<in> set (L n k)}"

definition lset :: "(nat \<Rightarrow> nat \<Rightarrow> nat list) \<Rightarrow> nat \<Rightarrow> nat \<Rightarrow> nat list \<Rightarrow> nat \<Rightarrow> nat \<Rightarrow> nat list" where
  "lset L n k xs = L(n := (L n)(k := xs))"

lemma lset_apply [simp]: "lset L n k xs m j = (if m = n \<and> j = k then xs else L m j)"
  by (simp add: lset_def)

lemma in_blocks [simp]: "(n, k, i) \<in> blocks L \<longleftrightarrow> i \<in> set (L n k)"
  by (simp add: blocks_def)

lemma covered_iff: "j \<in> covered B \<longleftrightarrow> (\<exists>n k i. (n, k, i) \<in> B \<and> j \<in> blk i k)"
  by (fastforce simp: covered_def)

lemma covered_blockI: "(n, k, i) \<in> B \<Longrightarrow> j \<in> blk i k \<Longrightarrow> j \<in> covered B"
  unfolding covered_iff by blast

lemma covered_insert [simp]: "covered (insert (n, k, i) B) = blk i k \<union> covered B"
  by (auto simp: covered_def)

lemma covered_Un [simp]: "covered (A \<union> B) = covered A \<union> covered B"
  by (auto simp: covered_def)

lemma covered_mono: "A \<subseteq> B \<Longrightarrow> covered A \<subseteq> covered B"
  by (auto simp: covered_def)

lemma blk_nonempty [simp]: "i \<in> blk i k"
  by (simp add: blk_def)

lemma blk_0 [simp]: "blk i 0 = {i}"
  by (auto simp: blk_def)

lemma blk_Suc: "blk i (Suc k) = blk i k \<union> blk (i + 2 ^ k) k"
  by (auto simp: blk_def)

lemma blocks_wf_mono: "blocks_wf len B \<Longrightarrow> A \<subseteq> B \<Longrightarrow> blocks_wf len A"
  unfolding blocks_wf_def by (meson subsetD)

lemma blocks_wfI:
  assumes "\<And>n k i. (n, k, i) \<in> B \<Longrightarrow> block_ok len k i"
    and "\<And>n k i n' k' i'. (n, k, i) \<in> B \<Longrightarrow> (n', k', i') \<in> B \<Longrightarrow> (n, k, i) \<noteq> (n', k', i') \<Longrightarrow>
      blk i k \<inter> blk i' k' = {}"
  shows "blocks_wf len B"
  unfolding blocks_wf_def by (intro conjI allI impI) (fact assms)+

lemma blocks_wf_okD: "blocks_wf len B \<Longrightarrow> (n, k, i) \<in> B \<Longrightarrow> block_ok len k i"
  unfolding blocks_wf_def by blast

lemma blocks_wf_disjD:
  "blocks_wf len B \<Longrightarrow> (n, k, i) \<in> B \<Longrightarrow> (n', k', i') \<in> B \<Longrightarrow> (n, k, i) \<noteq> (n', k', i') \<Longrightarrow>
   blk i k \<inter> blk i' k' = {}"
  unfolding blocks_wf_def by blast

lemma blocks_wf_insert_disj:
  assumes "blocks_wf len (insert (n, k, i) B)"
  shows "blk i k \<inter> covered (B - {(n, k, i)}) = {}"
proof -
  have "blk i k \<inter> blk i' k' = {}" if "(n', k', i') \<in> B - {(n, k, i)}" for n' k' i'
    using blocks_wf_disjD [OF assms, of n k i n' k' i'] that by auto
  then show ?thesis unfolding covered_def by blast
qed

lemma blocks_wf_fresh:
  assumes wf: "blocks_wf len B" and ok: "block_ok len k i" and dj: "blk i k \<inter> covered B = {}"
  shows "blocks_wf len (insert (n, k, i) B)"
proof (rule blocks_wfI)
  fix n' k' i'
  assume "(n', k', i') \<in> insert (n, k, i) B"
  then show "block_ok len k' i'" using ok blocks_wf_okD [OF wf] by auto
next
  have new: "blk i k \<inter> blk i' k' = {}" if "(n', k', i') \<in> B" for n' k' i'
    using dj that unfolding covered_def by blast
  fix n1 k1 i1 n2 k2 i2
  assume 1: "(n1, k1, i1) \<in> insert (n, k, i) B" and 2: "(n2, k2, i2) \<in> insert (n, k, i) B"
    and ne: "(n1, k1, i1) \<noteq> (n2, k2, i2)"
  show "blk i1 k1 \<inter> blk i2 k2 = {}"
  proof (cases "(n1, k1, i1) = (n, k, i)")
    case True
    with 2 ne have "(n2, k2, i2) \<in> B" by auto
    with True new show ?thesis by auto
  next
    case False
    with 1 have in1: "(n1, k1, i1) \<in> B" by auto
    show ?thesis
    proof (cases "(n2, k2, i2) = (n, k, i)")
      case True
      with in1 new show ?thesis by auto
    next
      case False
      with 2 have "(n2, k2, i2) \<in> B" by auto
      with in1 ne show ?thesis using blocks_wf_disjD [OF wf] by blast
    qed
  qed
qed

lemma covered_remove:
  assumes "blocks_wf len B" "(n, k, i) \<in> B"
  shows "covered (B - {(n, k, i)}) = covered B - blk i k"
proof -
  have "blocks_wf len (insert (n, k, i) (B - {(n, k, i)}))" using assms by (simp add: insert_absorb)
  then have "blk i k \<inter> covered (B - {(n, k, i)} - {(n, k, i)}) = {}" by (rule blocks_wf_insert_disj)
  then have "blk i k \<inter> covered (B - {(n, k, i)}) = {}" by simp
  moreover have "covered B = blk i k \<union> covered (B - {(n, k, i)})"
    using covered_insert [of n k i "B - {(n, k, i)}"] assms(2) by (simp add: insert_absorb)
  ultimately show ?thesis by blast
qed

subsection \<open>The invariant\<close>

definition pi_link :: "pmm \<Rightarrow> nat \<Rightarrow> nat option" where
  "pi_link s i = pi_free_next (pinfo s i)"

definition refs :: "pmm \<Rightarrow> nat \<Rightarrow> u32" where
  "refs s i = pi_refcount (pinfo s i)"

definition pmm_inv :: "pmm \<Rightarrow> (nat \<Rightarrow> nat \<Rightarrow> nat list) \<Rightarrow> bool" where
  "pmm_inv s L \<longleftrightarrow>
     pi_ready s \<and>
     (\<forall>n k. chain (pi_link s) (free_lists s n k) (L n k)) \<and>
     blocks_wf (pi_len s) (blocks L) \<and>
     (\<forall>j \<in> covered (blocks L). refs s j = 0)"

definition acct :: "pmm \<Rightarrow> (nat \<Rightarrow> nat \<Rightarrow> nat list) \<Rightarrow> bool" where
  "acct s L \<longleftrightarrow>
     (\<forall>n. bn_free_pages s n = (\<Sum>k<MAX_ORDER. of_nat (length (L n k)) * 2 ^ k))"

text \<open>What an operation that only rearranges free lists leaves alone.\<close>

definition same_pages :: "pmm \<Rightarrow> pmm \<Rightarrow> bool" where
  "same_pages s s' \<longleftrightarrow>
     pi_ready s' = pi_ready s \<and> pi_len s' = pi_len s \<and> mem s' = mem s \<and> refs s' = refs s \<and>
     pool_part s' = pool_part s"

lemma same_pages_refl [simp]: "same_pages s s"
  by (simp add: same_pages_def)

lemma same_pages_trans [trans]: "same_pages s t \<Longrightarrow> same_pages t u \<Longrightarrow> same_pages s u"
  by (simp add: same_pages_def)

lemma same_pagesD:
  "same_pages s s' \<Longrightarrow> pi_ready s' = pi_ready s" "same_pages s s' \<Longrightarrow> pi_len s' = pi_len s"
  "same_pages s s' \<Longrightarrow> mem s' = mem s" "same_pages s s' \<Longrightarrow> refs s' = refs s"
  "same_pages s s' \<Longrightarrow> pool_part s' = pool_part s"
  by (simp_all add: same_pages_def)

lemma pmm_inv_chain: "pmm_inv s L \<Longrightarrow> chain (pi_link s) (free_lists s n k) (L n k)"
  by (simp add: pmm_inv_def)

lemma pmm_inv_distinct: "pmm_inv s L \<Longrightarrow> distinct (L n k)"
  by (rule chain_distinct) (rule pmm_inv_chain)

lemma pmm_inv_wf: "pmm_inv s L \<Longrightarrow> blocks_wf (pi_len s) (blocks L)"
  by (simp add: pmm_inv_def)

lemma pmm_inv_ready: "pmm_inv s L \<Longrightarrow> pi_ready s"
  by (simp add: pmm_inv_def)

lemma pmm_inv_ref0: "pmm_inv s L \<Longrightarrow> j \<in> covered (blocks L) \<Longrightarrow> refs s j = 0"
  by (simp add: pmm_inv_def)

lemma pmm_inv_same:
  assumes "pmm_inv s L" "same_pages s s'"
    and "\<And>n k. free_lists s' n k = free_lists s n k"
    and "\<And>n k j. j \<in> set (L n k) \<Longrightarrow> pi_link s' j = pi_link s j"
  shows "pmm_inv s' L"
proof -
  have "chain (pi_link s') (free_lists s' n k) (L n k)" for n k
    using pmm_inv_chain [OF assms(1), of n k] assms(3,4)
      chain_cong [of "L n k" "pi_link s'" "pi_link s"] by simp
  with assms(1,2) show ?thesis by (simp add: pmm_inv_def same_pages_def)
qed

lemma lset_blocks: "blocks (lset L n k xs) =
    {(m, j, i) \<in> blocks L. (m, j) \<noteq> (n, k)} \<union> {(n, k, i) | i. i \<in> set xs}"
  by (auto simp: blocks_def split: if_splits)

lemma blocks_push: "blocks (lset L n k (p # L n k)) = insert (n, k, p) (blocks L)"
  by (auto simp: lset_blocks)

lemma blocks_pop:
  assumes "L n k = h # xs" "distinct (L n k)"
  shows "blocks (lset L n k xs) = blocks L - {(n, k, h)}"
  using assms by (auto simp: lset_blocks)

lemma acct_lset:
  assumes "acct s L" "k < MAX_ORDER"
    and "bn_free_pages s' n = bn_free_pages s n + (of_nat (length xs) - of_nat (length (L n k))) * 2 ^ k"
    and "\<And>m. m \<noteq> n \<Longrightarrow> bn_free_pages s' m = bn_free_pages s m"
  shows "acct s' (lset L n k xs)"
proof -
  let ?w = "\<lambda>L m. (\<Sum>j<MAX_ORDER. of_nat (length (L m j)) * 2 ^ j :: u64)"
  have split: "?w M n = of_nat (length (M n k)) * 2 ^ k
      + (\<Sum>j\<in>{..<MAX_ORDER} - {k}. of_nat (length (M n j)) * 2 ^ j)" for M :: "nat \<Rightarrow> nat \<Rightarrow> nat list"
    using assms(2) by (subst sum.remove [of _ k]) auto
  have rest: "(\<Sum>j\<in>{..<MAX_ORDER} - {k}. of_nat (length (lset L n k xs n j)) * 2 ^ j :: u64)
      = (\<Sum>j\<in>{..<MAX_ORDER} - {k}. of_nat (length (L n j)) * 2 ^ j)"
    by (rule sum.cong) auto
  have "bn_free_pages s n = ?w L n" using assms(1) by (simp add: acct_def)
  then have n: "bn_free_pages s' n = ?w (lset L n k xs) n"
    unfolding assms(3) split rest by (simp add: algebra_simps)
  have "bn_free_pages s' m = ?w (lset L n k xs) m" for m
  proof (cases "m = n")
    case True
    then show ?thesis using n by simp
  next
    case False
    then show ?thesis using assms(1,4) by (simp add: acct_def)
  qed
  then show ?thesis by (simp add: acct_def)
qed

subsection \<open>Pushing and unlinking a block\<close>

lemma buddy_push_pa:
  assumes "pi_ready s" "0 < p" "p < pi_len s"
  shows "buddy_push n (p * PAGE_SIZE) k s =
     add_free n (push_bit k 1) (set_list n k (Some p)
       (upd_pi p (\<lambda>q. q\<lparr>pi_flags := pi_flags q OR FLAG_FREE, pi_order := k,
                         pi_free_next := free_lists s n k\<rparr>) s))"
proof -
  have "upd_pi p (\<lambda>q. q\<lparr>pi_free_next := h\<rparr>)
          (upd_pi p (\<lambda>q. q\<lparr>pi_flags := pi_flags q OR FLAG_FREE, pi_order := k\<rparr>) s)
      = upd_pi p (\<lambda>q. q\<lparr>pi_flags := pi_flags q OR FLAG_FREE, pi_order := k, pi_free_next := h\<rparr>) s" for h
    by (simp add: upd_pi_def)
  then show ?thesis using assms by (simp add: buddy_push_def page_info_pa)
qed

lemma block_okD:
  assumes "block_ok len k i"
  shows "k < MAX_ORDER" "0 < i" "2 ^ k dvd i" "i + 2 ^ k \<le> len" "i < len"
proof -
  have "0 < (2::nat) ^ k" by simp
  with assms show "k < MAX_ORDER" "0 < i" "2 ^ k dvd i" "i + 2 ^ k \<le> len" "i < len"
    unfolding block_ok_def by linarith+
qed

lemma push_bit_u64: "push_bit k 1 = (2 ^ k :: u64)"
  by (simp add: push_bit_eq_mult)

lemma buddy_push_spec:
  assumes inv: "pmm_inv s L" and ok: "block_ok (pi_len s) k p"
    and fresh: "blk p k \<inter> covered (blocks L) = {}"
    and ref0: "\<forall>j \<in> blk p k. refs s j = 0"
  shows "pmm_inv (buddy_push n (p * PAGE_SIZE) k s) (lset L n k (p # L n k))"
    and "same_pages s (buddy_push n (p * PAGE_SIZE) k s)"
    and "acct s L \<Longrightarrow> acct (buddy_push n (p * PAGE_SIZE) k s) (lset L n k (p # L n k))"
proof -
  let ?s = "buddy_push n (p * PAGE_SIZE) k s"
  note okD = block_okD [OF ok]
  note eq = buddy_push_pa [OF pmm_inv_ready [OF inv] okD(2,5), of n k]
  show same: "same_pages s ?s"
    by (simp add: eq same_pages_def refs_def fun_eq_iff)
  have out: "p \<notin> set (L m j)" for m j
  proof
    assume "p \<in> set (L m j)"
    then have "p \<in> covered (blocks L)" by (intro covered_blockI [of m j p]) auto
    with fresh show False using blk_nonempty [of p k] by blast
  qed
  have link: "pi_link ?s j = (if j = p then free_lists s n k else pi_link s j)" for j
    by (simp add: eq pi_link_def)
  have ch: "chain (pi_link ?s) q (L m j) = chain (pi_link s) q (L m j)" for q m j
    by (rule chain_cong) (use link out in auto)
  have "chain (pi_link ?s) (free_lists ?s m j) (lset L n k (p # L n k) m j)" for m j
    using pmm_inv_chain [OF inv, of m j] ch link by (auto simp: eq)
  moreover have "blocks_wf (pi_len ?s) (blocks (lset L n k (p # L n k)))"
    unfolding blocks_push same_pagesD(2) [OF same]
    by (rule blocks_wf_fresh [OF pmm_inv_wf [OF inv] ok fresh])
  moreover have "refs ?s j = 0" if "j \<in> covered (blocks (lset L n k (p # L n k)))" for j
    using that ref0 pmm_inv_ref0 [OF inv] same_pagesD(4) [OF same] by (auto simp: blocks_push)
  ultimately show "pmm_inv ?s (lset L n k (p # L n k))"
    using pmm_inv_ready [OF inv] same_pagesD(1) [OF same] by (simp add: pmm_inv_def)
  show "acct ?s (lset L n k (p # L n k))" if "acct s L"
    by (rule acct_lset [OF that okD(1)]) (simp_all add: eq push_bit_u64)
qed

lemma buddy_unlink_spec:
  assumes inv: "pmm_inv s L" and h: "free_lists s n k = Some h"
  obtains xs where "L n k = h # xs"
    "pmm_inv (buddy_unlink n k h s) (lset L n k xs)"
    "blocks (lset L n k xs) = blocks L - {(n, k, h)}"
    "same_pages s (buddy_unlink n k h s)"
    "acct s L \<Longrightarrow> acct (buddy_unlink n k h s) (lset L n k xs)"
proof -
  let ?s = "buddy_unlink n k h s"
  from pmm_inv_chain [OF inv, of n k] h obtain xs
    where xs: "L n k = h # xs" and cx: "chain (pi_link s) (pi_link s h) xs"
    by (auto elim: chain_SomeE)
  have same: "same_pages s ?s"
    by (simp add: buddy_unlink_def same_pages_def refs_def fun_eq_iff Let_def)
  have link: "pi_link ?s = pi_link s"
    by (simp add: buddy_unlink_def pi_link_def fun_eq_iff Let_def)
  have bl: "blocks (lset L n k xs) = blocks L - {(n, k, h)}"
    by (rule blocks_pop) (fact xs, rule pmm_inv_distinct [OF inv])
  have fl: "free_lists ?s m j = (if m = n \<and> j = k then pi_link s h else free_lists s m j)" for m j
    by (simp add: buddy_unlink_def Let_def pi_link_def)
  have "chain (pi_link ?s) (free_lists ?s m j) (lset L n k xs m j)" for m j
    using pmm_inv_chain [OF inv, of m j] cx by (simp add: link fl)
  moreover have "blocks_wf (pi_len ?s) (blocks (lset L n k xs))"
    unfolding bl same_pagesD(2) [OF same]
    by (rule blocks_wf_mono [OF pmm_inv_wf [OF inv]]) auto
  moreover have "refs ?s j = 0" if "j \<in> covered (blocks (lset L n k xs))" for j
    using that pmm_inv_ref0 [OF inv] same_pagesD(4) [OF same] covered_mono [of "blocks L - {(n, k, h)}" "blocks L"]
    by (auto simp: bl)
  ultimately have inv': "pmm_inv ?s (lset L n k xs)"
    using pmm_inv_ready [OF inv] same_pagesD(1) [OF same] by (simp add: pmm_inv_def)
  have "k < MAX_ORDER"
    using blocks_wf_okD [OF pmm_inv_wf [OF inv], of n k h] xs by (simp add: block_ok_def)
  then have "acct ?s (lset L n k xs)" if "acct s L"
    by (rule acct_lset [OF that]) (simp_all add: buddy_unlink_def Let_def push_bit_u64 xs)
  with xs inv' bl same show ?thesis by (rule that)
qed

subsection \<open>Removing a given block\<close>

definition popped_blocks :: "nat \<Rightarrow> nat \<Rightarrow> nat list \<Rightarrow> block set" where
  "popped_blocks n k ps = {(n, k, p) | p. p \<in> set ps}"

lemma popped_blocks_simps [simp]:
  "popped_blocks n k [] = {}"
  "popped_blocks n k (p # ps) = insert (n, k, p) (popped_blocks n k ps)"
  "popped_blocks n k (ps @ qs) = popped_blocks n k ps \<union> popped_blocks n k qs"
  by (auto simp: popped_blocks_def)

lemma buddy_relink_step:
  assumes inv: "pmm_inv s L" and ok: "block_ok (pi_len s) k p"
    and fresh: "blk p k \<inter> covered (blocks L) = {}"
    and ref0: "\<forall>j \<in> blk p k. refs s j = 0"
    and s': "s' = set_list n k (Some p) (upd_pi p (\<lambda>q. q\<lparr>pi_free_next := free_lists s n k\<rparr>)
              (add_free n (push_bit k 1) (upd_pi p (\<lambda>q. q\<lparr>pi_flags := pi_flags q OR FLAG_FREE\<rparr>) s)))"
  shows "pmm_inv s' (lset L n k (p # L n k))" and "same_pages s s'"
    and "acct s L \<Longrightarrow> acct s' (lset L n k (p # L n k))"
proof -
  let ?t = "buddy_push n (p * PAGE_SIZE) k s"
  note okD = block_okD [OF ok]
  note eq = buddy_push_pa [OF pmm_inv_ready [OF inv] okD(2,5), of n k]
  note push = buddy_push_spec [OF inv ok fresh ref0, of n]
  have fl: "free_lists s' = free_lists ?t" by (simp add: fun_eq_iff eq s')
  have bn: "bn_free_pages s' = bn_free_pages ?t" by (simp add: fun_eq_iff eq s')
  have lk: "pi_link s' = pi_link ?t" by (simp add: fun_eq_iff eq s' pi_link_def)
  have same: "same_pages ?t s'" by (simp add: eq s' same_pages_def refs_def fun_eq_iff)
  show "pmm_inv s' (lset L n k (p # L n k))"
    by (rule pmm_inv_same [OF push(1) same]) (simp_all add: fl lk)
  show "same_pages s s'" using push(2) same by (rule same_pages_trans)
  show "acct s' (lset L n k (p # L n k))" if "acct s L"
    using push(3) [OF that] by (simp add: acct_def bn)
qed

lemma buddy_relink_spec:
  assumes "pmm_inv s L" "distinct ps"
    and "blocks_wf (pi_len s) (blocks L \<union> popped_blocks n k ps)"
    and "blocks L \<inter> popped_blocks n k ps = {}"
    and "\<And>j. j \<in> covered (popped_blocks n k ps) \<Longrightarrow> refs s j = 0"
  shows "pmm_inv (buddy_relink n k ps s) (lset L n k (rev ps @ L n k))
    \<and> same_pages s (buddy_relink n k ps s)
    \<and> (acct s L \<longrightarrow> acct (buddy_relink n k ps s) (lset L n k (rev ps @ L n k)))"
  using assms
proof (induction ps arbitrary: s L)
  case Nil
  have "lset L n k (L n k) = L" by (simp add: lset_def fun_eq_iff)
  with Nil show ?case by simp
next
  case (Cons p ps)
  define s1 where "s1 = set_list n k (Some p) (upd_pi p (\<lambda>q. q\<lparr>pi_free_next := free_lists s n k\<rparr>)
              (add_free n (push_bit k 1) (upd_pi p (\<lambda>q. q\<lparr>pi_flags := pi_flags q OR FLAG_FREE\<rparr>) s)))"
  define L1 where "L1 = lset L n k (p # L n k)"
  have rl: "buddy_relink n k (p # ps) s = buddy_relink n k ps s1"
    by (simp add: s1_def Let_def)
  have wf: "blocks_wf (pi_len s) (insert (n, k, p) (blocks L \<union> popped_blocks n k ps))"
    using Cons.prems(3) by simp
  have ok: "block_ok (pi_len s) k p" using blocks_wf_okD [OF wf] by blast
  have notin: "(n, k, p) \<notin> blocks L" "(n, k, p) \<notin> popped_blocks n k ps"
    using Cons.prems(4) unfolding popped_blocks_simps
    by blast (use Cons.prems(2) in \<open>auto simp: popped_blocks_def\<close>)
  then have fresh: "blk p k \<inter> covered (blocks L) = {}"
    using blocks_wf_insert_disj [OF wf] by auto
  have ref0: "\<forall>j \<in> blk p k. refs s j = 0"
    using Cons.prems(5) by simp
  note step = buddy_relink_step [OF Cons.prems(1) ok fresh ref0 s1_def, folded L1_def]
  have bl1: "blocks L1 = insert (n, k, p) (blocks L)" by (simp add: L1_def blocks_push)
  have "pmm_inv (buddy_relink n k ps s1) (lset L1 n k (rev ps @ L1 n k))
    \<and> same_pages s1 (buddy_relink n k ps s1)
    \<and> (acct s1 L1 \<longrightarrow> acct (buddy_relink n k ps s1) (lset L1 n k (rev ps @ L1 n k)))"
  proof (rule Cons.IH [OF step(1)])
    show "distinct ps" using Cons.prems(2) by simp
    show "blocks_wf (pi_len s1) (blocks L1 \<union> popped_blocks n k ps)"
      using wf same_pagesD(2) [OF step(2)] by (simp add: bl1)
    show "blocks L1 \<inter> popped_blocks n k ps = {}"
      using Cons.prems(4) notin by (auto simp: bl1)
    show "refs s1 j = 0" if "j \<in> covered (popped_blocks n k ps)" for j
      using Cons.prems(5) that same_pagesD(4) [OF step(2)] by simp
  qed
  moreover have eq: "lset L1 n k (rev ps @ L1 n k) = lset L n k (rev (p # ps) @ L n k)"
    by (simp add: L1_def lset_def)
  ultimately show ?case
    unfolding rl eq using step(2,3) same_pages_trans by blast
qed

text \<open>
  \<open>buddy_remove\<close> either finds the block and takes exactly it off the list, or leaves the
  lists with at most one block missing, and none when the list has at most \<open>POPPED_LEN\<close>
  entries.
\<close>

definition removed :: "bool \<Rightarrow> nat \<Rightarrow> nat \<Rightarrow> nat \<Rightarrow> block set \<Rightarrow> block set \<Rightarrow> bool" where
  "removed found n k t B B' \<longleftrightarrow>
     (if found then (n, k, t) \<in> B \<and> B' = B - {(n, k, t)}
      else B' = B \<or> (\<exists>x. (n, k, x) \<in> B \<and> B' = B - {(n, k, x)}))"

definition remove_post ::
  "bool \<Rightarrow> nat \<Rightarrow> nat \<Rightarrow> nat \<Rightarrow> nat \<Rightarrow> block set \<Rightarrow> pmm \<Rightarrow> (nat \<Rightarrow> nat \<Rightarrow> nat list) \<Rightarrow> pmm
    \<Rightarrow> (nat \<Rightarrow> nat \<Rightarrow> nat list) \<Rightarrow> bool" where
  "remove_post found n k t len B s L s' L' \<longleftrightarrow>
     pmm_inv s' L' \<and> same_pages s s' \<and> removed found n k t B (blocks L') \<and>
     (\<forall>m j. (m, j) \<noteq> (n, k) \<longrightarrow> L' m j = L m j) \<and>
     length (L' n k) \<le> len \<and>
     (len \<le> POPPED_LEN \<longrightarrow>
        (\<not> found \<longrightarrow> blocks L' = B) \<and> (acct s L \<longrightarrow> acct s' L'))"

lemma buddy_remove_loop_spec:
  assumes "pmm_inv s L" "distinct popped" "length popped \<le> POPPED_LEN"
    and "B = blocks L \<union> popped_blocks n k popped" "blocks_wf (pi_len s) B"
    and "blocks L \<inter> popped_blocks n k popped = {}"
    and "\<And>j. j \<in> covered B \<Longrightarrow> refs s j = 0"
    and "t \<notin> set popped"
    and "buddy_remove_loop n k t popped s = (found, s')"
  shows "\<exists>L'. remove_post found n k t (length popped + length (L n k)) B s L s' L'"
  using assms
proof (induction n k t popped s arbitrary: L found s' rule: buddy_remove_loop.induct)
  case (1 n k t popped s)
  note prems = "1.prems"
  have relink: "pmm_inv (buddy_relink n k popped u) (lset M n k (rev popped @ M n k))"
    "same_pages u (buddy_relink n k popped u)"
    "acct u M \<Longrightarrow> acct (buddy_relink n k popped u) (lset M n k (rev popped @ M n k))"
    if "pmm_inv u M" "same_pages s u" "blocks M \<subseteq> blocks L" for u M
  proof -
    have "pmm_inv (buddy_relink n k popped u) (lset M n k (rev popped @ M n k))
      \<and> same_pages u (buddy_relink n k popped u)
      \<and> (acct u M \<longrightarrow> acct (buddy_relink n k popped u) (lset M n k (rev popped @ M n k)))"
    proof (rule buddy_relink_spec [OF that(1) prems(2)])
      show "blocks_wf (pi_len u) (blocks M \<union> popped_blocks n k popped)"
        using blocks_wf_mono [OF prems(5), of "blocks M \<union> popped_blocks n k popped"]
          that(3) prems(4) same_pagesD(2) [OF that(2)] by auto
      show "blocks M \<inter> popped_blocks n k popped = {}" using prems(6) that(3) by blast
      show "refs u j = 0" if "j \<in> covered (popped_blocks n k popped)" for j
        using prems(4,7) that same_pagesD(4) [OF \<open>same_pages s u\<close>] by simp
    qed
    then show "pmm_inv (buddy_relink n k popped u) (lset M n k (rev popped @ M n k))"
      "same_pages u (buddy_relink n k popped u)"
      "acct u M \<Longrightarrow> acct (buddy_relink n k popped u) (lset M n k (rev popped @ M n k))"
      by auto
  qed
  have bl: "blocks (lset M n k (rev popped @ M n k)) = blocks M \<union> popped_blocks n k popped" for M
    by (auto simp: lset_blocks popped_blocks_def)
  show ?case
  proof (cases "free_lists s n k")
    case None
    then have res: "found = False" "s' = buddy_relink n k popped s"
      using prems(9) by (simp_all add: buddy_remove_loop.simps [of n k t popped s])
    note r = relink [OF prems(1) same_pages_refl order_refl]
    have "remove_post found n k t (length popped + length (L n k)) B s L s'
        (lset L n k (rev popped @ L n k))"
      using r unfolding remove_post_def res by (auto simp: bl prems(4) removed_def)
    then show ?thesis by blast
  next
    case (Some h)
    define s1 where "s1 = buddy_unlink n k h s"
    from buddy_unlink_spec [OF prems(1) Some] obtain xs where xs: "L n k = h # xs"
      and inv1: "pmm_inv s1 (lset L n k xs)" and bl1: "blocks (lset L n k xs) = blocks L - {(n, k, h)}"
      and same1: "same_pages s s1" and acct1: "acct s L \<Longrightarrow> acct s1 (lset L n k xs)"
      unfolding s1_def by metis
    note r = relink [OF inv1 same1, unfolded bl1, OF Diff_subset]
    have hL: "(n, k, h) \<in> blocks L" using xs by simp
    have hP: "(n, k, h) \<notin> popped_blocks n k popped" using hL prems(6) by blast
    have l2: "lset (lset L n k xs) n k (rev popped @ lset L n k xs n k) = lset L n k (rev popped @ xs)"
      by (simp add: lset_def)
    note unfold = buddy_remove_loop.simps [of n k t popped s]
    show ?thesis
    proof (cases "h = t")
      case True
      then have res: "found = True" "s' = buddy_relink n k popped s1"
        using prems(9) Some by (simp_all add: unfold s1_def)
      have "remove_post found n k t (length popped + length (L n k)) B s L s' (lset L n k (rev popped @ xs))"
        using r bl [of "lset L n k xs"] hL hP True same_pages_trans [OF same1] acct1
        unfolding remove_post_def res l2 bl1 by (auto simp: prems(4) removed_def xs)
      then show ?thesis by blast
    next
      case neq: False
      show ?thesis
      proof (cases "length popped < POPPED_LEN")
        case True
        have rec: "buddy_remove_loop n k t (popped @ [h]) s1 = (found, s')"
          using prems(9) Some neq True by (simp add: unfold s1_def)
        have hn: "h \<notin> set popped" using hP by (auto simp: popped_blocks_def)
        have "\<exists>L'. remove_post found n k t (length (popped @ [h]) + length (lset L n k xs n k)) B s1
            (lset L n k xs) s' L'"
        proof (rule "1.IH" [OF Some s1_def neq True inv1])
          show "distinct (popped @ [h])" using prems(2) hn by simp
          show "length (popped @ [h]) \<le> POPPED_LEN" using True by simp
          show "B = blocks (lset L n k xs) \<union> popped_blocks n k (popped @ [h])"
            using hL prems(4) unfolding bl1 by auto
          show "blocks_wf (pi_len s1) B" using prems(5) same_pagesD(2) [OF same1] by simp
          show "blocks (lset L n k xs) \<inter> popped_blocks n k (popped @ [h]) = {}"
            using prems(6) unfolding bl1 by auto
          show "refs s1 j = 0" if "j \<in> covered B" for j
            using prems(7) [OF that] same_pagesD(4) [OF same1] by simp
          show "t \<notin> set (popped @ [h])" using prems(8) neq by simp
          show "buddy_remove_loop n k t (popped @ [h]) s1 = (found, s')" by (rule rec)
        qed
        then obtain L' where L': "remove_post found n k t (length popped + length (L n k)) B s1
            (lset L n k xs) s' L'"
          using xs by auto
        then have "remove_post found n k t (length popped + length (L n k)) B s L s' L'"
          using same_pages_trans [OF same1] acct1 unfolding remove_post_def
          by (auto split: if_splits)
        then show ?thesis by blast
      next
        case False
        define s2 where "s2 = upd_pi h (\<lambda>q. q\<lparr>pi_flags := pi_flags q OR FLAG_FREE\<rparr>) s1"
        define s3 where "s3 = add_free n (push_bit k 1) s2"
        have res: "found = False" "s' = buddy_relink n k popped s3"
          using prems(9) Some neq False by (simp_all add: unfold s1_def s2_def s3_def)
        have same13: "same_pages s1 s3"
          by (simp add: s2_def s3_def same_pages_def refs_def fun_eq_iff)
        have inv3: "pmm_inv s3 (lset L n k xs)"
          by (rule pmm_inv_same [OF inv1 same13]) (simp_all add: s2_def s3_def pi_link_def)
        note r3 = relink [OF inv3 same_pages_trans [OF same1 same13], unfolded bl1, OF Diff_subset]
        have big: "\<not> length popped + length (L n k) \<le> POPPED_LEN" using False xs by simp
        have hB: "(n, k, h) \<in> B" using hL prems(4) by simp
        have "blocks (lset L n k (rev popped @ xs)) = B - {(n, k, h)}"
          using bl [of "lset L n k xs"] hL hP unfolding l2 bl1 prems(4) by auto
        then have "remove_post found n k t (length popped + length (L n k)) B s L s'
            (lset L n k (rev popped @ xs))"
          using r3 big hB same_pages_trans [OF same_pages_trans [OF same1 same13]]
          unfolding remove_post_def res l2 removed_def by (auto simp: xs)
        then show ?thesis by blast
      qed
    qed
  qed
qed

end
