(* ===== verification/Pmm_Correct.thy ===== *)
theory Pmm_Correct
  imports Pmm_Inv
begin

unbundle bit_operations_syntax

section \<open>The buddy allocator: its operations against the invariant\<close>

text \<open>
  Specifications of allocation, release and the growth of the buddy allocator in terms of
  the set of free pages, and from them the properties of the manager's interface.
\<close>

subsection \<open>Removal and splitting\<close>

lemma buddy_remove_spec:
  assumes "pmm_inv s L" "0 < b" "b < pi_len s" "buddy_remove n (b * PAGE_SIZE) k s = (found, s')"
  shows "\<exists>L'. remove_post found n k b (length (L n k)) (blocks L) s L s' L'"
proof -
  have "buddy_remove_loop n k b [] s = (found, s')"
    using assms pmm_inv_ready [OF assms(1)] by (simp add: buddy_remove_def page_info_pa)
  from buddy_remove_loop_spec [OF assms(1) _ _ _ _ _ _ _ this, of "blocks L"]
  show ?thesis using pmm_inv_wf [OF assms(1)] pmm_inv_ref0 [OF assms(1)] by auto
qed

lemma pmm_inv_upd_pi:
  assumes "pmm_inv s L" "\<And>p. pi_refcount (f p) = pi_refcount p" "\<And>p. pi_free_next (f p) = pi_free_next p"
  shows "pmm_inv (upd_pi i f s) L" "same_pages s (upd_pi i f s)" "acct (upd_pi i f s) L = acct s L"
proof -
  show same: "same_pages s (upd_pi i f s)"
    by (simp add: same_pages_def refs_def fun_eq_iff assms(2))
  show "pmm_inv (upd_pi i f s) L"
    by (rule pmm_inv_same [OF assms(1) same]) (simp_all add: pi_link_def assms(3))
  show "acct (upd_pi i f s) L = acct s L" by (simp add: acct_def)
qed

lemma half_block:
  assumes "block_ok len (Suc c) i"
  shows "block_ok len c i" "block_ok len c (i + 2 ^ c)"
proof -
  have "2 ^ c dvd i" "Suc c < MAX_ORDER" "0 < i" "i + 2 ^ Suc c \<le> len"
    using assms by (auto simp: block_ok_def)
  then show "block_ok len c i" "block_ok len c (i + 2 ^ c)" by (auto simp: block_ok_def)
qed

lemma blk_halves_disj: "blk i c \<inter> blk (i + 2 ^ c) c = {}"
  by (auto simp: blk_def)

lemma blk_subset: "k \<le> c \<Longrightarrow> blk i k \<subseteq> blk i c"
  by (auto simp: blk_def intro: less_le_trans)

lemma buddy_split_spec:
  assumes "pmm_inv s L" "block_ok (pi_len s) c i" "blk i c \<inter> covered (blocks L) = {}"
    "\<forall>j \<in> blk i c. refs s j = 0" "k \<le> c"
  shows "\<exists>L'. pmm_inv (buddy_split n (i * PAGE_SIZE) c k s) L'
    \<and> same_pages s (buddy_split n (i * PAGE_SIZE) c k s)
    \<and> covered (blocks L') = covered (blocks L) \<union> (blk i c - blk i k)
    \<and> (acct s L \<longrightarrow> acct (buddy_split n (i * PAGE_SIZE) c k s) L')"
  using assms
proof (induction c arbitrary: s L)
  case 0
  then show ?case by auto
next
  case (Suc c)
  show ?case
  proof (cases "k \<le> c")
    case False
    with Suc.prems(5) have "k = Suc c" by simp
    with Suc.prems show ?thesis by auto
  next
    case True
    define p where "p = i + 2 ^ c"
    define s1 where "s1 = upd_pi p (\<lambda>q. q\<lparr>pi_numa_node := n\<rparr>) s"
    define s2 where "s2 = buddy_push n (p * PAGE_SIZE) c s1"
    define L2 where "L2 = lset L n c (p # L n c)"
    note half = half_block [OF Suc.prems(2), folded p_def]
    note split = blk_Suc [of i c, folded p_def]
    note u = pmm_inv_upd_pi [OF Suc.prems(1), of "\<lambda>q. q\<lparr>pi_numa_node := n\<rparr>" p, folded s1_def, simplified]
    have half_pa: "i * PAGE_SIZE + order_size c = p * PAGE_SIZE"
      by (simp add: p_def order_size_eq algebra_simps)
    have run: "buddy_split n (i * PAGE_SIZE) (Suc c) k s = buddy_split n (i * PAGE_SIZE) c k s2"
      using True block_okD [OF half(2)] pmm_inv_ready [OF Suc.prems(1)]
      by (simp add: half_pa page_info_pa s1_def s2_def)
    have ok: "block_ok (pi_len s1) c p" using half(2) same_pagesD(2) [OF u(2)] by simp
    have fresh: "blk p c \<inter> covered (blocks L) = {}" using Suc.prems(3) split by auto
    have ref: "\<forall>j \<in> blk p c. refs s1 j = 0"
      using Suc.prems(4) split same_pagesD(4) [OF u(2)] by simp
    note push = buddy_push_spec [OF u(1) ok fresh ref, of n, folded s2_def L2_def]
    have same: "same_pages s s2" using u(2) push(2) by (rule same_pages_trans)
    have cov2: "covered (blocks L2) = blk p c \<union> covered (blocks L)"
      by (simp add: L2_def blocks_push)
    have "\<exists>L'. pmm_inv (buddy_split n (i * PAGE_SIZE) c k s2) L'
      \<and> same_pages s2 (buddy_split n (i * PAGE_SIZE) c k s2)
      \<and> covered (blocks L') = covered (blocks L2) \<union> (blk i c - blk i k)
      \<and> (acct s2 L2 \<longrightarrow> acct (buddy_split n (i * PAGE_SIZE) c k s2) L')"
    proof (rule Suc.IH [OF push(1)])
      show "block_ok (pi_len s2) c i" using half(1) same_pagesD(2) [OF same] by simp
      show "blk i c \<inter> covered (blocks L2) = {}"
        using Suc.prems(3) split blk_halves_disj [of i c, folded p_def] unfolding cov2 by auto
      show "\<forall>j \<in> blk i c. refs s2 j = 0"
        using Suc.prems(4) split same_pagesD(4) [OF same] by simp
    qed (fact True)
    then obtain L' where L': "pmm_inv (buddy_split n (i * PAGE_SIZE) c k s2) L'"
      "same_pages s2 (buddy_split n (i * PAGE_SIZE) c k s2)"
      "covered (blocks L') = covered (blocks L2) \<union> (blk i c - blk i k)"
      "acct s2 L2 \<longrightarrow> acct (buddy_split n (i * PAGE_SIZE) c k s2) L'"
      by blast
    have "covered (blocks L') = covered (blocks L) \<union> (blk i (Suc c) - blk i k)"
      unfolding L'(3) cov2 split
      using blk_subset [OF True, of i] blk_halves_disj [of i c, folded p_def] by auto
    with L' show ?thesis
      unfolding run using same_pages_trans [OF same] push(3) u(3) by blast
  qed
qed

subsection \<open>Allocation of a block\<close>

lemma claim_pages_frame:
  "free_lists (claim_pages n k pa is s) = free_lists s" "pi_ready (claim_pages n k pa is s) = pi_ready s"
  "pi_len (claim_pages n k pa is s) = pi_len s" "mem (claim_pages n k pa is s) = mem s"
  "bn_free_pages (claim_pages n k pa is s) = bn_free_pages s"
  "pool_part (claim_pages n k pa is s) = pool_part s"
  by (induction "is" arbitrary: s) (simp_all split: option.split)

lemma claim_pages_pinfo:
  assumes "pi_ready s" "0 < i" "\<forall>x \<in> set is. i + x < pi_len s"
  shows "pinfo (claim_pages n k (i * PAGE_SIZE) is s) j =
    (if j \<in> (+) i ` set is then pi_claim n k (pinfo s j) else pinfo s j)"
  using assms
proof (induction "is" arbitrary: s)
  case (Cons x xs)
  have pa: "i * PAGE_SIZE + x * PAGE_SIZE = (i + x) * PAGE_SIZE" by (simp add: algebra_simps)
  have step: "claim_pages n k (i * PAGE_SIZE) (x # xs) s =
      claim_pages n k (i * PAGE_SIZE) xs (upd_pi (i + x) (pi_claim n k) s)"
    using Cons.prems by (simp add: pa page_info_pa)
  have "pinfo (claim_pages n k (i * PAGE_SIZE) xs (upd_pi (i + x) (pi_claim n k) s)) j =
    (if j \<in> (+) i ` set xs then pi_claim n k (pinfo (upd_pi (i + x) (pi_claim n k) s) j)
     else pinfo (upd_pi (i + x) (pi_claim n k) s) j)"
    by (rule Cons.IH) (use Cons.prems in auto)
  then show ?case unfolding step by (auto simp: pi_claim_def)
qed simp

lemma blk_image: "(+) i ` set [0..<2 ^ k] = blk i k"
  by (auto simp: blk_def image_iff intro: bexI [of _ "_ - i"])

text \<open>
  What a successful allocation of a block of order \<open>k\<close> at frame \<open>i\<close> means: the
  block was free, exactly its pages leave the free set and get reference count 1, and its
  memory is zeroed.
\<close>

definition alloc_post ::
  "nat \<Rightarrow> nat \<Rightarrow> pmm \<Rightarrow> (nat \<Rightarrow> nat \<Rightarrow> nat list) \<Rightarrow> pmm \<Rightarrow> (nat \<Rightarrow> nat \<Rightarrow> nat list) \<Rightarrow> bool" where
  "alloc_post i k s L s' L' \<longleftrightarrow>
     pmm_inv s' L' \<and> block_ok (pi_len s) k i \<and> blk i k \<subseteq> covered (blocks L) \<and>
     covered (blocks L') = covered (blocks L) - blk i k \<and>
     refs s' = (\<lambda>j. if j \<in> blk i k then 1 else refs s j) \<and>
     pi_len s' = pi_len s \<and> pool_part s' = pool_part s \<and>
     mem s' = (\<lambda>a. if i * PAGE_SIZE \<le> a \<and> a < (i + 2 ^ k) * PAGE_SIZE then 0 else mem s a) \<and>
     (acct s L \<longrightarrow> acct s' L')"

lemma buddy_alloc_order_from_spec:
  assumes "pmm_inv s L" "\<forall>t \<in> set ts. k \<le> t" "buddy_alloc_order_from n k ts s = (pa, s')"
  shows "(pa = 0 \<longrightarrow> s' = s \<and> (\<forall>t \<in> set ts. L n t = []))
    \<and> (pa \<noteq> 0 \<longrightarrow> (\<exists>i L'. pa = i * PAGE_SIZE \<and> alloc_post i k s L s' L'))"
  using assms(2,3)
proof (induction ts)
  case Nil
  then show ?case by simp
next
  case (Cons t ts)
  show ?case
  proof (cases "free_lists s n t")
    case None
    then have "buddy_pop n t s = (0, s)" by (simp add: buddy_pop_def)
    with Cons.prems have "buddy_alloc_order_from n k ts s = (pa, s')" by simp
    moreover have "L n t = []" using pmm_inv_chain [OF assms(1), of n t] None by simp
    ultimately show ?thesis using Cons.IH Cons.prems(1) by auto
  next
    case (Some h)
    define s1 where "s1 = buddy_unlink n t h s"
    define s2 where "s2 = buddy_split n (h * PAGE_SIZE) t k s1"
    define s3 where "s3 = claim_pages n k (h * PAGE_SIZE) [0..<2 ^ k] s2"
    from buddy_unlink_spec [OF assms(1) Some] obtain xs where xs: "L n t = h # xs"
      and inv1: "pmm_inv s1 (lset L n t xs)" and bl1: "blocks (lset L n t xs) = blocks L - {(n, t, h)}"
      and same1: "same_pages s s1" and acct1: "acct s L \<Longrightarrow> acct s1 (lset L n t xs)"
      unfolding s1_def by metis
    have inB: "(n, t, h) \<in> blocks L" using xs by simp
    note wf = pmm_inv_wf [OF assms(1)]
    have ok: "block_ok (pi_len s) t h" by (rule blocks_wf_okD [OF wf inB])
    have cov1: "covered (blocks (lset L n t xs)) = covered (blocks L) - blk h t"
      unfolding bl1 by (rule covered_remove [OF wf inB])
    have sub: "blk h t \<subseteq> covered (blocks L)" using covered_blockI [OF inB] by blast
    have kt: "k \<le> t" using Cons.prems(1) by simp
    have "\<exists>L'. pmm_inv s2 L' \<and> same_pages s1 s2
      \<and> covered (blocks L') = covered (blocks (lset L n t xs)) \<union> (blk h t - blk h k)
      \<and> (acct s1 (lset L n t xs) \<longrightarrow> acct s2 L')"
      unfolding s2_def
    proof (rule buddy_split_spec [OF inv1])
      show "block_ok (pi_len s1) t h" using ok same_pagesD(2) [OF same1] by simp
      show "blk h t \<inter> covered (blocks (lset L n t xs)) = {}" unfolding cov1 by blast
      show "\<forall>j \<in> blk h t. refs s1 j = 0"
        using sub pmm_inv_ref0 [OF assms(1)] same_pagesD(4) [OF same1] by auto
    qed (fact kt)
    then obtain L' where inv2: "pmm_inv s2 L'" and same2: "same_pages s1 s2"
      and cov2: "covered (blocks L') = covered (blocks (lset L n t xs)) \<union> (blk h t - blk h k)"
      and acct2: "acct s1 (lset L n t xs) \<longrightarrow> acct s2 L'" by blast
    have same: "same_pages s s2" using same1 same2 by (rule same_pages_trans)
    note subk = blk_subset [OF kt, of h]
    have covL: "covered (blocks L') = covered (blocks L) - blk h k"
      unfolding cov2 cov1 using sub subk by blast
    have okk: "block_ok (pi_len s) k h"
    proof -
      have "(2::nat) ^ k dvd 2 ^ t" using kt by (rule le_imp_power_dvd)
      moreover have "(2::nat) ^ k \<le> 2 ^ t" using kt by simp
      then have "h + 2 ^ k \<le> pi_len s" using block_okD(4) [OF ok] by linarith
      ultimately show ?thesis using ok kt by (auto simp: block_ok_def intro: dvd_trans)
    qed
    have pin: "pinfo s3 j = (if j \<in> blk h k then pi_claim n k (pinfo s2 j) else pinfo s2 j)" for j
      unfolding s3_def
      by (subst claim_pages_pinfo)
        (use okk pmm_inv_ready [OF inv2] same_pagesD(2) [OF same] blk_image [of h k] in
          \<open>auto simp: block_ok_def\<close>)
    have link3: "pi_link s3 = pi_link s2" by (simp add: fun_eq_iff pi_link_def pin pi_claim_def)
    have refs3: "refs s3 = (\<lambda>j. if j \<in> blk h k then 1 else refs s j)"
      using same_pagesD(4) [OF same] by (simp add: fun_eq_iff refs_def pin pi_claim_def)
    define s4 where "s4 = zero_range (h * PAGE_SIZE) (2 ^ k * PAGE_SIZE) s3"
    have fr: "free_lists s4 = free_lists s2" "pi_ready s4 = pi_ready s2" "pi_len s4 = pi_len s2"
      "bn_free_pages s4 = bn_free_pages s2" "pinfo s4 = pinfo s3" "mem s3 = mem s2"
      "pool_part s4 = pool_part s2"
      by (simp_all add: s4_def s3_def claim_pages_frame)
    have refs4: "refs s4 = refs s3" and link4: "pi_link s4 = pi_link s3"
      by (simp_all add: fun_eq_iff refs_def pi_link_def fr)
    have inv4: "pmm_inv s4 L'"
      using inv2 unfolding pmm_inv_def fr refs4 refs3 link4 link3
      by (auto simp: covL same_pagesD(4) [OF same])
    have mem4: "mem s4 = (\<lambda>a. if h * PAGE_SIZE \<le> a \<and> a < (h + 2 ^ k) * PAGE_SIZE then 0 else mem s a)"
      using same_pagesD(3) [OF same] by (simp add: s4_def fun_eq_iff fr algebra_simps)
    have hpos: "0 < h" using ok by (simp add: block_ok_def)
    then have "buddy_alloc_order_from n k (t # ts) s = (h * PAGE_SIZE, s4)"
      using Some by (simp add: buddy_pop_def pi_to_pa_def s4_def s3_def s2_def s1_def Let_def)
    then have res: "pa = h * PAGE_SIZE" "s' = s4"
      using Cons.prems(2) by simp_all
    have "alloc_post h k s L s4 L'"
      unfolding alloc_post_def
      using inv4 okk sub subk covL refs4 refs3 fr(3,7) same_pagesD(2,5) [OF same] mem4 acct1 acct2
      by (auto simp: acct_def fr)
    then show ?thesis using res hpos by auto
  qed
qed

lemma buddy_alloc_from_eq: "buddy_alloc_from n ks s = buddy_alloc_order_from n 0 ks s"
  by (induction ks arbitrary: s) (simp_all split: prod.split)

lemma buddy_alloc_node_spec:
  assumes "pmm_inv s L" "buddy_alloc_node n s = (pa, s')"
  shows "(pa = 0 \<longrightarrow> s' = s \<and> (\<forall>k < MAX_ORDER. L n k = []))
    \<and> (pa \<noteq> 0 \<longrightarrow> (\<exists>i L'. pa = i * PAGE_SIZE \<and> alloc_post i 0 s L s' L'))"
  using buddy_alloc_order_from_spec [OF assms(1), of "[0..<MAX_ORDER]" 0 n pa s'] assms(2)
  by (auto simp: buddy_alloc_node_def buddy_alloc_from_eq)

lemma buddy_alloc_order_node_spec:
  assumes "pmm_inv s L" "buddy_alloc_order_node n k s = (pa, s')"
  shows "(pa = 0 \<longrightarrow> s' = s)
    \<and> (pa \<noteq> 0 \<longrightarrow> (\<exists>i L'. pa = i * PAGE_SIZE \<and> alloc_post i k s L s' L'))"
  using buddy_alloc_order_from_spec [OF assms(1), of "[k..<MAX_ORDER]" k n pa s'] assms(2)
  by (auto simp: buddy_alloc_order_node_def split: if_splits)

subsection \<open>Release of a block\<close>

text \<open>
  Coalescing: the block grows to one that contains the original, and the pages that leave the
  free lists are the pages the block absorbs. \<open>short\<close> says that no list of the node is
  longer than the array \<open>buddy_remove\<close> uses; then no page is lost.
\<close>

definition short :: "(nat \<Rightarrow> nat \<Rightarrow> nat list) \<Rightarrow> nat \<Rightarrow> bool" where
  "short L n \<longleftrightarrow> (\<forall>k. length (L n k) \<le> POPPED_LEN)"

definition merge_post ::
  "nat \<Rightarrow> nat \<Rightarrow> nat \<Rightarrow> pmm \<Rightarrow> (nat \<Rightarrow> nat \<Rightarrow> nat list) \<Rightarrow> nat \<Rightarrow> nat \<Rightarrow> pmm
    \<Rightarrow> (nat \<Rightarrow> nat \<Rightarrow> nat list) \<Rightarrow> bool" where
  "merge_post n i k s L i' k' s' L' \<longleftrightarrow>
     pmm_inv s' L' \<and> same_pages s s' \<and> block_ok (pi_len s) k' i' \<and> blk i k \<subseteq> blk i' k' \<and>
     blk i' k' \<inter> covered (blocks L') = {} \<and>
     covered (blocks L') \<union> blk i' k' \<subseteq> covered (blocks L) \<union> blk i k \<and>
     (short L n \<longrightarrow>
        covered (blocks L') \<union> blk i' k' = covered (blocks L) \<union> blk i k \<and> (acct s L \<longrightarrow> acct s' L'))"

lemma merge_post_refl:
  assumes "pmm_inv s L" "block_ok (pi_len s) k i" "blk i k \<inter> covered (blocks L) = {}"
  shows "merge_post n i k s L i k s L"
  using assms by (auto simp: merge_post_def)

lemma buddy_merged_block:
  assumes ok: "block_ok len k i" and kb: "k + 1 < MAX_ORDER"
    and bpa: "buddy_pa (i * PAGE_SIZE) k = b * PAGE_SIZE"
    and al: "is_aligned (min (i * PAGE_SIZE) (b * PAGE_SIZE)) (k + 1)"
    and b: "block_ok len k b"
  shows "min (i * PAGE_SIZE) (b * PAGE_SIZE) = min i b * PAGE_SIZE"
    and "block_ok len (k + 1) (min i b)" and "blk (min i b) (k + 1) = blk i k \<union> blk b k"
proof -
  show m: "min (i * PAGE_SIZE) (b * PAGE_SIZE) = min i b * PAGE_SIZE" by (simp add: min_def)
  have al': "2 ^ (k + 1) dvd min i b" using al unfolding m is_aligned_iff .
  note okD = block_okD [OF ok] and bD = block_okD [OF b]
  have "b = i + 2 ^ k \<or> i = b + 2 ^ k"
  proof (cases "even (i div 2 ^ k)")
    case True
    then show ?thesis using bpa unfolding buddy_pa_aligned [OF okD(3)] by simp
  next
    case False
    then have "b * PAGE_SIZE = (i - 2 ^ k) * PAGE_SIZE"
      using bpa unfolding buddy_pa_aligned [OF okD(3)] by simp
    then have "b = i - 2 ^ k" by simp
    then show ?thesis using okD(2,3) by (auto dest: dvd_imp_le)
  qed
  then show "block_ok len (k + 1) (min i b)" "blk (min i b) (k + 1) = blk i k \<union> blk b k"
    using al' okD bD kb by (auto simp: block_ok_def blk_Suc)
qed

lemma buddy_merge_spec:
  assumes "pmm_inv s L" "block_ok (pi_len s) k i" "blk i k \<inter> covered (blocks L) = {}"
    "\<forall>j \<in> blk i k. refs s j = 0" "buddy_merge n (i * PAGE_SIZE) k s = ((cpa, k'), s')"
  shows "\<exists>i' L'. cpa = i' * PAGE_SIZE \<and> merge_post n i k s L i' k' s' L'
    \<and> (\<forall>j \<in> blk i' k'. refs s' j = 0)"
  using assms
proof (induction "MAX_ORDER - k" arbitrary: i k s L rule: less_induct)
  case less
  note prems = less.prems
  note unfold = buddy_merge.simps [of n "i * PAGE_SIZE" k s]
  have stop: ?case if "((cpa, k'), s') = ((i * PAGE_SIZE, k), s)"
    using merge_post_refl [OF prems(1,2,3), of n] prems(4) that by blast
  show ?case
  proof (cases "k + 1 < MAX_ORDER \<and> \<not> buddy_pa (i * PAGE_SIZE) k \<ge> MAX_PA")
    case False
    then have "buddy_merge n (i * PAGE_SIZE) k s = ((i * PAGE_SIZE, k), s)"
      by (simp add: unfold)
    then show ?thesis using stop prems(5) by simp
  next
    case go: True
    show ?thesis
    proof (cases "page_info s (buddy_pa (i * PAGE_SIZE) k)")
      case None
      then have "((cpa, k'), s') = ((i * PAGE_SIZE, k), s)"
        using prems(5) go by (simp add: unfold)
      then show ?thesis by (rule stop)
    next
      case (Some b)
      note bpi = page_info_SomeD [OF Some]
      let ?m = "min (i * PAGE_SIZE) (b * PAGE_SIZE)"
      show ?thesis
      proof (cases "pi_flags (pinfo s b) AND (FLAG_FREE OR FLAG_BUDDY) = (FLAG_FREE OR FLAG_BUDDY)
          \<and> pi_order (pinfo s b) = k \<and> pi_numa_node (pinfo s b) = n \<and> is_aligned ?m (k + 1)")
        case False
        then have "buddy_merge n (i * PAGE_SIZE) k s = ((i * PAGE_SIZE, k), s)"
          using go Some by (simp add: unfold Let_def bpi(1))
        then show ?thesis using stop prems(5) by simp
      next
        case conds: True
        obtain found s1 where rem: "buddy_remove n (b * PAGE_SIZE) k s = (found, s1)" by fastforce
        from buddy_remove_spec [OF prems(1) bpi(2,3) rem] obtain L1
          where L1: "remove_post found n k b (length (L n k)) (blocks L) s L s1 L1" by blast
        then have inv1: "pmm_inv s1 L1" and same1: "same_pages s s1"
          and rm: "removed found n k b (blocks L) (blocks L1)" by (simp_all add: remove_post_def)
        have cov1: "covered (blocks L1) \<subseteq> covered (blocks L)"
          using rm by (intro covered_mono) (auto simp: removed_def split: if_splits)
        have short1: "short L1 n" if "short L n"
        proof -
          have "length (L1 n j) \<le> length (L n j)" for j
            using L1 by (cases "j = k") (auto simp: remove_post_def)
          then show ?thesis using that unfolding short_def by (blast intro: le_trans)
        qed
        have acct1: "acct s1 L1" if "short L n" "acct s L"
          using L1 that by (simp add: remove_post_def short_def)
        show ?thesis
        proof (cases found)
          case False
          then have res: "((cpa, k'), s') = ((i * PAGE_SIZE, k), s1)"
            using prems(5) go Some conds rem bpi(1) by (simp add: unfold Let_def)
          have "blocks L1 = blocks L" if "short L n"
            using L1 that False by (simp add: remove_post_def short_def)
          then have "merge_post n i k s L i k s1 L1"
            unfolding merge_post_def using inv1 same1 prems(2,3) cov1 acct1 by auto
          moreover have "\<forall>j \<in> blk i k. refs s1 j = 0"
            using prems(4) same_pagesD(4) [OF same1] by simp
          ultimately show ?thesis using res by blast
        next
          case True
          have bB: "(n, k, b) \<in> blocks L" and bl1: "blocks L1 = blocks L - {(n, k, b)}"
            using rm True by (simp_all add: removed_def)
          have okb: "block_ok (pi_len s) k b" by (rule blocks_wf_okD [OF pmm_inv_wf [OF prems(1)] bB])
          have covb: "covered (blocks L1) = covered (blocks L) - blk b k"
            unfolding bl1 by (rule covered_remove [OF pmm_inv_wf [OF prems(1)] bB])
          have subb: "blk b k \<subseteq> covered (blocks L)" using covered_blockI [OF bB] by blast
          have al: "is_aligned ?m (k + 1)" using conds by blast
          from go have k1: "k + 1 < MAX_ORDER" by blast
          note mg = buddy_merged_block [OF prems(2) k1 bpi(1) al okb]
          have rec: "buddy_merge n (min i b * PAGE_SIZE) (k + 1) s1 = ((cpa, k'), s')"
            using prems(5) go Some conds rem bpi(1) True by (simp add: unfold Let_def mg(1))
          have "\<exists>i' L'. cpa = i' * PAGE_SIZE \<and> merge_post n (min i b) (k + 1) s1 L1 i' k' s' L'
            \<and> (\<forall>j \<in> blk i' k'. refs s' j = 0)"
          proof (rule less.hyps [OF _ inv1 _ _ _ rec])
            show "MAX_ORDER - (k + 1) < MAX_ORDER - k" using k1 by simp
            show "block_ok (pi_len s1) (k + 1) (min i b)"
              using mg(2) same_pagesD(2) [OF same1] by simp
            show "blk (min i b) (k + 1) \<inter> covered (blocks L1) = {}"
              using prems(3) unfolding mg(3) covb by blast
            show "\<forall>j \<in> blk (min i b) (k + 1). refs s1 j = 0"
              using prems(4) subb pmm_inv_ref0 [OF prems(1)] same_pagesD(4) [OF same1]
              unfolding mg(3) by auto
          qed
          then obtain i' L' where r: "cpa = i' * PAGE_SIZE" "\<forall>j \<in> blk i' k'. refs s' j = 0"
            and mp: "merge_post n (min i b) (k + 1) s1 L1 i' k' s' L'" by blast
          have total: "covered (blocks L1) \<union> (blk i k \<union> blk b k) = covered (blocks L) \<union> blk i k"
            unfolding covb using subb by blast
          have "merge_post n i k s L i' k' s' L'"
            using mp same_pages_trans [OF same1] same_pagesD(2) [OF same1] short1 acct1
            unfolding merge_post_def mg(3) total by auto
          then show ?thesis using r by blast
        qed
      qed
    qed
  qed
qed

text \<open>Returning one page: the page becomes free, and only a page lost by
  \<open>buddy_remove\<close> can leave the free set.\<close>

definition free_post ::
  "nat \<Rightarrow> nat \<Rightarrow> pmm \<Rightarrow> (nat \<Rightarrow> nat \<Rightarrow> nat list) \<Rightarrow> pmm \<Rightarrow> (nat \<Rightarrow> nat \<Rightarrow> nat list) \<Rightarrow> bool" where
  "free_post n i s L s' L' \<longleftrightarrow>
     pmm_inv s' L' \<and> i \<in> covered (blocks L') \<and>
     covered (blocks L') \<subseteq> insert i (covered (blocks L)) \<and>
     refs s' = (refs s)(i := 0) \<and> pi_len s' = pi_len s \<and> pool_part s' = pool_part s \<and>
     mem s' = (\<lambda>a. if i * PAGE_SIZE \<le> a \<and> a < (i + 1) * PAGE_SIZE then 0 else mem s a) \<and>
     (short L n \<longrightarrow> covered (blocks L') = insert i (covered (blocks L)) \<and> (acct s L \<longrightarrow> acct s' L'))"

lemma buddy_free_page_spec:
  assumes inv: "pmm_inv s L" and i: "0 < i" "i < pi_len s" and out: "i \<notin> covered (blocks L)"
  shows "\<exists>L'. free_post (pi_numa_node (pinfo s i)) i s L (buddy_free_page (i * PAGE_SIZE) s) L'"
proof -
  define n where "n = pi_numa_node (pinfo s i)"
  define s1 where "s1 = zero_range (i * PAGE_SIZE) PAGE_SIZE s"
  define s2 where "s2 = upd_pi i (\<lambda>p. p\<lparr>pi_refcount := 0, pi_flags := 0\<rparr>) s1"
  obtain cpa k' s3 where mrg: "buddy_merge n (i * PAGE_SIZE) 0 s2 = ((cpa, k'), s3)"
    by (metis surj_pair)
  have refs2: "refs s2 = (refs s)(i := 0)" by (simp add: s1_def s2_def refs_def fun_eq_iff)
  have link2: "pi_link s2 = pi_link s" by (simp add: s1_def s2_def pi_link_def fun_eq_iff)
  have fr2: "free_lists s2 = free_lists s" "pi_len s2 = pi_len s" "pi_ready s2 = pi_ready s"
    "bn_free_pages s2 = bn_free_pages s" "pool_part s2 = pool_part s"
    "mem s2 = (\<lambda>a. if i * PAGE_SIZE \<le> a \<and> a < (i + 1) * PAGE_SIZE then 0 else mem s a)"
    by (simp_all add: s1_def s2_def fun_eq_iff algebra_simps)
  have inv2: "pmm_inv s2 L" using inv by (simp add: pmm_inv_def refs2 link2 fr2)
  have ok2: "block_ok (pi_len s2) 0 i" using i by (simp add: block_ok_def fr2 MAX_ORDER_def)
  from buddy_merge_spec [OF inv2 ok2 _ _ mrg] out refs2 obtain i' L'
    where cpa: "cpa = i' * PAGE_SIZE" and mp: "merge_post n i 0 s2 L i' k' s3 L'"
      and ref3: "\<forall>j \<in> blk i' k'. refs s3 j = 0" by auto
  have inv3: "pmm_inv s3 L'" and same3: "same_pages s2 s3" and ok3: "block_ok (pi_len s3) k' i'"
    and fresh3: "blk i' k' \<inter> covered (blocks L') = {}" and ii: "i \<in> blk i' k'"
    using mp same_pagesD(2) [of s2 s3] by (auto simp: merge_post_def)
  define s4 where "s4 = upd_pi i' (\<lambda>p. p\<lparr>pi_flags := FLAG_FREE OR FLAG_BUDDY\<rparr>) s3"
  note u = pmm_inv_upd_pi [OF inv3, of "\<lambda>p. p\<lparr>pi_flags := FLAG_FREE OR FLAG_BUDDY\<rparr>" i',
      folded s4_def, simplified]
  have ok4: "block_ok (pi_len s4) k' i'" using ok3 same_pagesD(2) [OF u(2)] by simp
  have ref4: "\<forall>j \<in> blk i' k'. refs s4 j = 0" using ref3 same_pagesD(4) [OF u(2)] by simp
  note push = buddy_push_spec [OF u(1) ok4 fresh3 ref4, of n]
  have res: "buddy_free_page (i * PAGE_SIZE) s = buddy_push n (i' * PAGE_SIZE) k' s4"
    using i pmm_inv_ready [OF inv] pmm_inv_ready [OF inv3] block_okD [OF ok3] page_aligned_Suc
    by (simp add: buddy_free_page_def page_info_pa Let_def mrg [unfolded n_def s2_def s1_def cpa]
        s4_def n_def)
  have same: "same_pages s2 (buddy_free_page (i * PAGE_SIZE) s)"
    unfolding res using same3 u(2) push(2) same_pages_trans by blast
  have "free_post n i s L (buddy_free_page (i * PAGE_SIZE) s) (lset L' n k' (i' # L' n k'))"
    unfolding free_post_def blocks_push covered_insert
    using push mp same_pagesD [OF same] refs2 fr2 ii u(3)
    unfolding res merge_post_def by (auto simp: acct_def)
  then show ?thesis unfolding n_def by blast
qed

end
