(* ===== verification/Pmm_Api.thy ===== *)
theory Pmm_Api
  imports Pmm_Correct
begin

unbundle bit_operations_syntax

section \<open>The page allocator as a set of free frames\<close>

text \<open>
  The bootstrap pool's invariant, the invariant of the whole manager and the specification
  of \<open>alloc_page\<close> and \<open>free_page\<close>: an allocation takes one frame out of the set of free
  frames \<open>free_set\<close>, a release puts it back.
\<close>

subsection \<open>The bootstrap pool\<close>

definition platform_ok :: "platform \<Rightarrow> bool" where
  "platform_ok E \<longleftrightarrow> 0 < pool_base E \<and> PAGE_SIZE dvd pool_base E"

definition pool_page :: "platform \<Rightarrow> nat \<Rightarrow> nat" where
  "pool_page E idx = pool_base E + idx * PAGE_SIZE"

definition pool_bit :: "pmm \<Rightarrow> nat \<Rightarrow> bool" where
  "pool_bit s idx \<longleftrightarrow> bit (pool_free_bits s (idx div 64)) (idx mod 64)"

definition boot_ptr :: "nat \<Rightarrow> nat option" where
  "boot_ptr w = (if w = 0 then None else Some w)"

definition boot_inv :: "platform \<Rightarrow> pmm \<Rightarrow> nat list \<Rightarrow> bool" where
  "boot_inv E s B \<longleftrightarrow>
     chain (\<lambda>pa. boot_ptr (mem s pa)) (boot_ptr (boot_free_head s)) B \<and>
     bump s \<le> POOL_PAGES \<and>
     (\<forall>pa \<in> set B. \<exists>idx < bump s. pa = pool_page E idx \<and> pool_bit s idx) \<and>
     (\<forall>idx \<ge> bump s. idx < POOL_PAGES \<longrightarrow> \<not> pool_bit s idx) \<and>
     boot_free_cnt s = of_nat (length B)"

lemma pool_page_eq [simp]: "pool_page E i = pool_page E j \<longleftrightarrow> i = j"
  by (simp add: pool_page_def)

lemma pool_index_page: "pool_index E (pool_page E idx) = (if idx < POOL_PAGES then Some idx else None)"
  by (simp add: pool_index_def pool_page_def Let_def)

lemma pool_index_SomeD:
  assumes "platform_ok E" "pool_index E pa = Some idx" "PAGE_SIZE dvd pa"
  shows "pa = pool_page E idx" "idx < POOL_PAGES"
proof -
  from assms(2) have r: "pool_base E \<le> pa" "pa < pool_base E + POOL_PAGES * PAGE_SIZE"
    and idx: "idx = (pa - pool_base E) div PAGE_SIZE"
    by (auto simp: pool_index_def Let_def split: if_splits)
  have "PAGE_SIZE dvd pa - pool_base E"
    using assms(1,3) by (simp add: platform_ok_def)
  then have "idx * PAGE_SIZE = pa - pool_base E" by (simp add: idx)
  with r show "pa = pool_page E idx" "idx < POOL_PAGES"
    by (auto simp: pool_page_def) (metis add_less_cancel_left le_add_diff_inverse mult_less_cancel2)
qed

lemma pool_page_aligned: "platform_ok E \<Longrightarrow> PAGE_SIZE dvd pool_page E idx"
  by (simp add: pool_page_def platform_ok_def)

lemma pool_page_pos: "platform_ok E \<Longrightarrow> 0 < pool_page E idx"
  by (simp add: pool_page_def platform_ok_def)

lemma bit_single_u64: "m < 64 \<Longrightarrow> bit (2 ^ m :: u64) n \<longleftrightarrow> n = m"
  by (auto simp: bit_exp_iff)

lemma and_single_u64: "m < 64 \<Longrightarrow> (x AND 2 ^ m :: u64) = 0 \<longleftrightarrow> \<not> bit x m"
proof -
  assume m: "m < 64"
  have "x AND 2 ^ m = (if bit x m then 2 ^ m else 0)"
    by (rule bit_word_eqI) (auto simp: bit_and_iff bit_single_u64 m)
  moreover have "(2 ^ m :: u64) \<noteq> 0" using m by simp
  ultimately show ?thesis by simp
qed

lemma div_mod_64_eq: "(i div 64 = j div 64 \<and> i mod 64 = j mod 64) \<longleftrightarrow> i = (j::nat)"
  by (metis div_mult_mod_eq)

lemma pool_bit_set_free_spec:
  assumes "pool_bit_set_free idx s = (ok, s')"
  shows "ok = (\<not> pool_bit s idx) \<and> (\<forall>j. pool_bit s' j \<longleftrightarrow> j = idx \<or> pool_bit s j)
     \<and> s' = s\<lparr>pool_free_bits := pool_free_bits s'\<rparr>"
proof (intro conjI allI)
  have s': "s' = s\<lparr>pool_free_bits := (pool_free_bits s)
      (idx div 64 := pool_free_bits s (idx div 64) OR 2 ^ (idx mod 64))\<rparr>"
    and ok: "ok = (pool_free_bits s (idx div 64) AND 2 ^ (idx mod 64) = 0)"
    using assms by (simp_all add: pool_bit_set_free_def Let_def)
  show "ok = (\<not> pool_bit s idx)" by (simp add: ok pool_bit_def and_single_u64)
  show "s' = s\<lparr>pool_free_bits := pool_free_bits s'\<rparr>" by (simp add: s')
  show "pool_bit s' j \<longleftrightarrow> j = idx \<or> pool_bit s j" for j
    using div_mod_64_eq [of j idx]
    by (cases "j = idx") (simp_all add: s' pool_bit_def bit_or_iff bit_single_u64)
qed

lemma pool_bit_clear_spec:
  "pool_bit (pool_bit_clear idx s) j \<longleftrightarrow> j \<noteq> idx \<and> pool_bit s j"
  "pool_bit_clear idx s = s\<lparr>pool_free_bits := pool_free_bits (pool_bit_clear idx s)\<rparr>"
  using div_mod_64_eq [of j idx]
  by (auto simp: pool_bit_clear_def Let_def pool_bit_def bit_and_iff bit_not_iff bit_single_u64)

lemma boot_ptr_Some [simp]: "0 < w \<Longrightarrow> boot_ptr w = Some w"
  by (simp add: boot_ptr_def)

lemma aligned_outside:
  assumes "PAGE_SIZE dvd a" "PAGE_SIZE dvd b" "a \<noteq> b"
  shows "\<not> (a \<le> b \<and> b < a + PAGE_SIZE)"
proof -
  from assms obtain i j where "a = i * PAGE_SIZE" "b = j * PAGE_SIZE" "i \<noteq> j"
    by (auto simp: dvd_def mult.commute)
  then have "\<not> (i * PAGE_SIZE \<le> j * PAGE_SIZE \<and> j * PAGE_SIZE < (i + 1) * PAGE_SIZE)"
    by (simp del: add_mult_distrib mult_Suc)
  moreover have "a + PAGE_SIZE = (i + 1) * PAGE_SIZE" using \<open>a = _\<close> by simp
  ultimately show ?thesis using \<open>a = _\<close> \<open>b = _\<close> by metis
qed

text \<open>The pool's invariant depends only on the pool's fields and on the links in its free pages.\<close>

lemma boot_inv_frame:
  assumes "boot_inv E s B" "pool_part s' = pool_part s" "\<And>pa. pa \<in> set B \<Longrightarrow> mem s' pa = mem s pa"
  shows "boot_inv E s' B"
proof -
  have "chain (\<lambda>pa. boot_ptr (mem s' pa)) p B = chain (\<lambda>pa. boot_ptr (mem s pa)) p B" for p
    by (rule chain_cong) (simp add: assms(3))
  then show ?thesis
    using assms(1,2) by (simp add: boot_inv_def pool_part_def pool_bit_def)
qed

lemma boot_free_spec:
  assumes E: "platform_ok E" and inv: "boot_inv E s B" and idx: "idx < bump s"
    and bit: "pool_bit_set_free idx s = (True, s1)"
  shows "boot_inv E (boot_push (pool_page E idx) (zero_page (pool_page E idx) s1)) (pool_page E idx # B)"
proof -
  let ?pa = "pool_page E idx" and ?s = "boot_push (pool_page E idx) (zero_page (pool_page E idx) s1)"
  note bs = pool_bit_set_free_spec [OF bit]
  obtain bits where s1: "s1 = s\<lparr>pool_free_bits := bits\<rparr>" using bs by blast
  have notin: "?pa \<notin> set B"
    using inv bs by (auto simp: boot_inv_def)
  have m: "mem ?s b = mem s b" if "b \<in> set B" for b
  proof -
    have "PAGE_SIZE dvd b" "b \<noteq> ?pa"
      using that inv notin pool_page_aligned [OF E] by (auto simp: boot_inv_def)
    then have "\<not> (?pa \<le> b \<and> b < ?pa + PAGE_SIZE)" "b \<noteq> ?pa"
      using aligned_outside pool_page_aligned [OF E] by metis+
    then show ?thesis by (auto simp: boot_push_def zero_page_def zero_range_def s1)
  qed
  have hd: "boot_free_head ?s = ?pa" "mem ?s ?pa = boot_free_head s" "bump ?s = bump s"
    "boot_free_cnt ?s = boot_free_cnt s + 1"
    by (simp_all add: boot_push_def zero_page_def zero_range_def s1)
  have pb: "pool_bit ?s j \<longleftrightarrow> j = idx \<or> pool_bit s j" for j
    using bs by (simp add: boot_push_def zero_page_def zero_range_def pool_bit_def)
  have "chain (\<lambda>pa. boot_ptr (mem ?s pa)) (boot_ptr (boot_free_head s)) B"
    using inv chain_cong [of B "\<lambda>pa. boot_ptr (mem ?s pa)" "\<lambda>pa. boot_ptr (mem s pa)"] m
    by (simp add: boot_inv_def)
  then show ?thesis
    using inv idx pool_page_pos [OF E, of idx] unfolding boot_inv_def by (auto simp: hd pb)
qed

text \<open>Allocation from the pool: the head of the free list, else the next page of the pool.\<close>

definition pool_frames :: "platform \<Rightarrow> pmm \<Rightarrow> nat list \<Rightarrow> nat set" where
  "pool_frames E s B = set B \<union> pool_page E ` {bump s ..< POOL_PAGES}"

lemma boot_alloc_spec:
  assumes E: "platform_ok E" and inv: "boot_inv E s B" and run: "boot_alloc E s = (r, s')"
  shows "\<exists>B'. boot_inv E s' B' \<and>
    (case r of
       None \<Rightarrow> s' = s \<and> B' = B \<and> pool_frames E s B = {}
     | Some pa \<Rightarrow> pa \<in> pool_frames E s B \<and> pool_frames E s' B' = pool_frames E s B - {pa}
         \<and> pinfo s' = pinfo s \<and> free_lists s' = free_lists s \<and> pi_len s' = pi_len s
         \<and> pi_ready s' = pi_ready s \<and> pi_once s' = pi_once s \<and> bn_free_pages s' = bn_free_pages s
         \<and> (\<exists>idx < bump s'. pa = pool_page E idx \<and> \<not> pool_bit s' idx))"
proof (cases "boot_free_head s = 0")
  case True
  then have B: "B = []" using inv by (simp add: boot_inv_def boot_ptr_def)
  show ?thesis
  proof (cases "bump s \<ge> POOL_PAGES")
    case full: True
    then have "r = None" "s' = s" using run True by (simp_all add: boot_alloc_def boot_pop_def)
    then show ?thesis using inv full B by (auto simp: pool_frames_def)
  next
    case False
    then have r: "r = Some (pool_page E (bump s))" "s' = s\<lparr>bump := bump s + 1\<rparr>"
      using run True by (auto simp: boot_alloc_def boot_pop_def pool_page_def Let_def)
    have "boot_inv E s' []" using inv B False by (auto simp: boot_inv_def r pool_bit_def)
    moreover have "pool_frames E s' [] = pool_frames E s B - {pool_page E (bump s)}"
      by (auto simp: pool_frames_def r B)
    moreover have "pool_page E (bump s) \<in> pool_frames E s B" using False by (simp add: pool_frames_def)
    moreover have "\<not> pool_bit s' (bump s)" using inv False by (simp add: boot_inv_def r pool_bit_def)
    ultimately show ?thesis by (intro exI [of _ "[]"]) (auto simp: r)
  qed
next
  case False
  define h where "h = boot_free_head s"
  from inv False obtain B' where B: "B = h # B'"
    and ch: "chain (\<lambda>pa. boot_ptr (mem s pa)) (boot_ptr (mem s h)) B'"
    by (auto simp: boot_inv_def boot_ptr_def h_def elim: chain_SomeE)
  have dist: "distinct B" using inv by (auto simp: boot_inv_def intro: chain_distinct)
  from inv B obtain idx where idx: "idx < bump s" "h = pool_page E idx" "pool_bit s idx"
    by (auto simp: boot_inv_def)
  have lt: "idx < POOL_PAGES" using idx inv by (auto simp: boot_inv_def)
  define s1 where "s1 = s\<lparr>boot_free_head := mem s h, boot_free_cnt := boot_free_cnt s - 1\<rparr>"
  define s2 where "s2 = pool_bit_clear idx s1"
  obtain bits where s2: "s2 = s1\<lparr>pool_free_bits := bits\<rparr>"
    unfolding s2_def using pool_bit_clear_spec(2) by blast
  have pb2: "pool_bit s2 j \<longleftrightarrow> j \<noteq> idx \<and> pool_bit s j" for j
    using pool_bit_clear_spec(1) [of idx s1 j] by (simp add: s2_def pool_bit_def s1_def)
  have res: "r = Some h" "s' = zero_range h PAGE_SIZE s2"
    using run False lt pool_page_pos [OF E, of idx]
    by (auto simp: boot_alloc_def boot_pop_def Let_def h_def [symmetric] idx(2) pool_index_page s2_def s1_def)
  have m: "mem s' b = mem s b" if "b \<in> set B'" for b
  proof -
    have "PAGE_SIZE dvd b" using that inv B pool_page_aligned [OF E] by (auto simp: boot_inv_def)
    moreover have "b \<noteq> h" using that dist B by auto
    ultimately have "\<not> (h \<le> b \<and> b < h + PAGE_SIZE)"
      using aligned_outside [of h b] pool_page_aligned [OF E, of idx] idx(2) by auto
    then show ?thesis by (auto simp: res(2) s2 s1_def zero_range_def)
  qed
  have fl: "boot_free_head s' = mem s h" "bump s' = bump s" "boot_free_cnt s' = boot_free_cnt s - 1"
    "pool_free_bits s' = pool_free_bits s2"
    by (simp_all add: res s2 s1_def zero_range_def)
  have s': "pinfo s' = pinfo s" "free_lists s' = free_lists s" "pi_len s' = pi_len s"
    "pi_ready s' = pi_ready s" "pi_once s' = pi_once s" "bn_free_pages s' = bn_free_pages s"
    by (simp_all add: res(2) s2 s1_def zero_range_def)
  have pb: "pool_bit s' j \<longleftrightarrow> j \<noteq> idx \<and> pool_bit s j" for j
    using pb2 [of j] by (simp add: pool_bit_def fl)
  have "chain (\<lambda>pa. boot_ptr (mem s' pa)) (boot_ptr (mem s h)) B'"
    using ch chain_cong [of B' "\<lambda>pa. boot_ptr (mem s' pa)" "\<lambda>pa. boot_ptr (mem s pa)"] m by simp
  moreover have "\<exists>i < bump s. b = pool_page E i \<and> i \<noteq> idx \<and> pool_bit s i" if "b \<in> set B'" for b
  proof -
    have b: "b \<in> set B" "b \<noteq> h" using that dist B by auto
    from b(1) obtain i where "i < bump s" "b = pool_page E i" "pool_bit s i"
      using inv by (auto simp: boot_inv_def)
    with b(2) idx(2) show ?thesis by auto
  qed
  moreover have "boot_free_cnt s - 1 = of_nat (length B')" using inv B by (simp add: boot_inv_def)
  ultimately have "boot_inv E s' B'"
    using inv unfolding boot_inv_def by (simp add: fl pb)
  moreover have "pool_frames E s' B' = pool_frames E s B - {h}"
  proof -
    have "set B' = set B - {h}" using dist B by auto
    moreover have "h \<notin> pool_page E ` {bump s ..< POOL_PAGES}" using idx by auto
    ultimately show ?thesis unfolding pool_frames_def fl by blast
  qed
  moreover have "h \<in> pool_frames E s B" by (simp add: pool_frames_def B)
  moreover have "\<exists>idx < bump s'. h = pool_page E idx \<and> \<not> pool_bit s' idx"
    using idx(1,2) pb fl(2) by auto
  ultimately show ?thesis
    by (intro exI [of _ B']) (simp add: res(1) s')
qed

subsection \<open>The invariant of the whole manager\<close>

text \<open>Before the table of page records exists no block is on a list.\<close>

definition buddy_ok :: "pmm \<Rightarrow> (nat \<Rightarrow> nat \<Rightarrow> nat list) \<Rightarrow> bool" where
  "buddy_ok s L \<longleftrightarrow>
     pi_once s = pi_ready s \<and>
     (if pi_ready s then pmm_inv s L else \<forall>n k. free_lists s n k = None \<and> L n k = [])"

definition pmm_ok :: "platform \<Rightarrow> pmm \<Rightarrow> (nat \<Rightarrow> nat \<Rightarrow> nat list) \<Rightarrow> nat list \<Rightarrow> bool" where
  "pmm_ok E s L B \<longleftrightarrow>
     platform_ok E \<and> boot_inv E s B \<and> buddy_ok s L \<and>
     (\<forall>j \<in> covered (blocks L). pool_index E (j * PAGE_SIZE) = None \<and> \<not> is_kernel_page E (j * PAGE_SIZE))"

definition free_frames :: "platform \<Rightarrow> pmm \<Rightarrow> (nat \<Rightarrow> nat \<Rightarrow> nat list) \<Rightarrow> nat list \<Rightarrow> nat set" where
  "free_frames E s L B = (\<lambda>j. j * PAGE_SIZE) ` covered (blocks L) \<union> pool_frames E s B"

lemma pmm_okD:
  assumes "pmm_ok E s L B"
  shows "platform_ok E" "boot_inv E s B" "buddy_ok s L"
    "\<And>j. j \<in> covered (blocks L) \<Longrightarrow> pool_index E (j * PAGE_SIZE) = None"
    "\<And>j. j \<in> covered (blocks L) \<Longrightarrow> \<not> is_kernel_page E (j * PAGE_SIZE)"
  using assms by (auto simp: pmm_ok_def)

lemma pool_frames_pool:
  assumes "boot_inv E s B" "pa \<in> pool_frames E s B"
  shows "\<exists>idx < POOL_PAGES. pa = pool_page E idx \<and> (pa \<in> set B \<or> bump s \<le> idx)"
proof -
  have "\<exists>idx < POOL_PAGES. pa = pool_page E idx" if "pa \<in> set B"
    using assms(1) that unfolding boot_inv_def by (meson less_le_trans)
  then show ?thesis using assms(2) by (auto simp: pool_frames_def)
qed

lemma pool_frames_frame: "pool_part s' = pool_part s \<Longrightarrow> pool_frames E s' B = pool_frames E s B"
  by (simp add: pool_frames_def pool_part_def)

lemma pool_frames_index:
  "boot_inv E s B \<Longrightarrow> pa \<in> pool_frames E s B \<Longrightarrow> \<exists>idx. pool_index E pa = Some idx"
  using pool_frames_pool pool_index_page by metis

lemma buddy_pool_disjoint:
  assumes "pmm_ok E s L B" "j \<in> covered (blocks L)"
  shows "j * PAGE_SIZE \<notin> pool_frames E s B"
  using pool_frames_index [OF pmm_okD(2) [OF assms(1)], of "j * PAGE_SIZE"] pmm_okD(4) [OF assms]
  by auto

lemma buddy_ok_blocks:
  "buddy_ok s L \<Longrightarrow> j \<in> covered (blocks L) \<Longrightarrow> pmm_inv s L"
  by (auto simp: buddy_ok_def covered_def blocks_def split: if_splits)

lemma buddy_ok_frame:
  assumes "pinfo s' = pinfo s" "free_lists s' = free_lists s" "pi_len s' = pi_len s"
    "pi_ready s' = pi_ready s" "pi_once s' = pi_once s"
  shows "buddy_ok s' L = buddy_ok s L"
proof -
  have "pi_link s' = pi_link s" by (simp add: pi_link_def fun_eq_iff assms)
  then show ?thesis by (simp add: buddy_ok_def pmm_inv_def refs_def assms)
qed

lemma boot_inv_page_write:
  assumes E: "platform_ok E" and inv: "boot_inv E s B" and pp: "pool_part s' = pool_part s"
    and ni: "pool_index E (i * PAGE_SIZE) = None"
    and m: "\<And>a. \<not> (i * PAGE_SIZE \<le> a \<and> a < i * PAGE_SIZE + PAGE_SIZE) \<Longrightarrow> mem s' a = mem s a"
  shows "boot_inv E s' B"
proof (rule boot_inv_frame [OF inv pp])
  fix b assume b: "b \<in> set B"
  then have "PAGE_SIZE dvd b" "b \<noteq> i * PAGE_SIZE"
    using inv pool_frames_index [OF inv, of b] ni pool_page_aligned [OF E]
    by (auto simp: boot_inv_def pool_frames_def)
  then show "mem s' b = mem s b" using aligned_outside [of "i * PAGE_SIZE" b] m by auto
qed

subsection \<open>Allocation\<close>

lemma buddy_alloc_from_none:
  "(\<And>k. free_lists s n k = None) \<Longrightarrow> buddy_alloc_from n ks s = (0, s)"
  by (induction ks) (simp_all add: buddy_pop_def)

lemma buddy_alloc_node_ok:
  assumes "buddy_ok s L" "buddy_alloc_node n s = (pa, s')"
  shows "(pa = 0 \<longrightarrow> s' = s \<and> (\<forall>k < MAX_ORDER. L n k = []))
    \<and> (pa \<noteq> 0 \<longrightarrow> (\<exists>i L'. pa = i * PAGE_SIZE \<and> alloc_post i 0 s L s' L'))"
proof (cases "pi_ready s")
  case True
  then have "pmm_inv s L" using assms(1) by (simp add: buddy_ok_def)
  then show ?thesis by (rule buddy_alloc_node_spec [OF _ assms(2)])
next
  case False
  then show ?thesis using assms
    by (auto simp: buddy_ok_def buddy_alloc_node_def buddy_alloc_from_none)
qed

lemma alloc_try_nodes_spec:
  assumes "buddy_ok s L" "alloc_try_nodes p N is s = (pa, s')"
  shows "(pa = 0 \<longrightarrow> s' = s \<and> (\<forall>i \<in> set is. \<forall>k < MAX_ORDER. L ((p + i) mod N) k = []))
    \<and> (pa \<noteq> 0 \<longrightarrow> (\<exists>i L'. pa = i * PAGE_SIZE \<and> alloc_post i 0 s L s' L'))"
  using assms(2)
proof (induction "is")
  case (Cons i "is")
  obtain q s1 where q: "buddy_alloc_node ((p + i) mod N) s = (q, s1)" by (metis surj_pair)
  note spec = buddy_alloc_node_ok [OF assms(1) q]
  show ?case
  proof (cases "q = 0")
    case True
    with spec have "s1 = s" "\<forall>k < MAX_ORDER. L ((p + i) mod N) k = []" by auto
    then show ?thesis using Cons q True by simp
  next
    case False
    then show ?thesis using Cons.prems q spec by simp
  qed
qed simp

lemma node_rotation: "n < N \<Longrightarrow> \<exists>i < N. (p + i) mod N = (n :: nat)"
proof -
  assume n: "n < N"
  have "(p + (n + (N - p mod N)) mod N) mod N = (p mod N + (n + (N - p mod N))) mod N"
    by (simp add: mod_simps)
  also have "p mod N + (n + (N - p mod N)) = n + N"
    using mod_less_divisor [of N p] n by linarith
  finally show ?thesis using n by (intro exI [of _ "(n + (N - p mod N)) mod N"]) simp
qed

lemma alloc_post_ok:
  assumes ok: "pmm_ok E s L B" and post: "alloc_post i 0 s L s' L'"
  shows "pmm_ok E s' L' B" "i * PAGE_SIZE \<in> free_frames E s L B"
    "free_frames E s' L' B = free_frames E s L B - {i * PAGE_SIZE}"
proof -
  have i: "i \<in> covered (blocks L)" and cov: "covered (blocks L') = covered (blocks L) - {i}"
    and pp: "pool_part s' = pool_part s" and inv: "pmm_inv s' L'"
    using post by (auto simp: alloc_post_def)
  have "boot_inv E s' B"
    by (rule boot_inv_page_write [OF pmm_okD(1,2) [OF ok] pp pmm_okD(4) [OF ok i]])
      (use post in \<open>auto simp: alloc_post_def add.commute\<close>)
  moreover have "pi_ready s'" "pi_once s'"
    using pmm_inv_ready [OF inv] pmm_okD(3) [OF ok] pp
      pmm_inv_ready [OF buddy_ok_blocks [OF pmm_okD(3) [OF ok] i]]
    by (auto simp: buddy_ok_def pool_part_def)
  ultimately show "pmm_ok E s' L' B"
    using pmm_okD [OF ok] inv by (auto simp: pmm_ok_def cov buddy_ok_def)
  show "i * PAGE_SIZE \<in> free_frames E s L B" using i by (simp add: free_frames_def)
  have "inj_on (\<lambda>j. j * PAGE_SIZE) UNIV" by (rule injI) simp
  then have "(\<lambda>j. j * PAGE_SIZE) ` covered (blocks L') = (\<lambda>j. j * PAGE_SIZE) ` covered (blocks L) - {i * PAGE_SIZE}"
    by (auto simp: cov)
  then show "free_frames E s' L' B = free_frames E s L B - {i * PAGE_SIZE}"
    using buddy_pool_disjoint [OF ok i] pool_frames_frame [OF pp] by (auto simp: free_frames_def)
qed

text \<open>A frame in the hands of one owner: a buddy page with one reference, or a pool page in use.\<close>

definition owned_frame :: "platform \<Rightarrow> pmm \<Rightarrow> nat \<Rightarrow> bool" where
  "owned_frame E s pa \<longleftrightarrow>
     (\<exists>i. page_info s pa = Some i \<and> refs s i = 1 \<and> pool_index E pa = None \<and> \<not> is_kernel_page E pa) \<or>
     (\<exists>idx < bump s. pa = pool_page E idx \<and> \<not> pool_bit s idx)"

lemma alloc_post_owned:
  assumes "pmm_ok E s L B" "alloc_post i 0 s L s' L'"
  shows "owned_frame E s' (i * PAGE_SIZE)"
proof -
  have "i \<in> covered (blocks L)" "block_ok (pi_len s') 0 i" "refs s' i = 1" "pmm_inv s' L'"
    using assms(2) by (auto simp: alloc_post_def)
  then show ?thesis using pmm_okD(4,5) [OF assms(1)] pmm_inv_ready
    by (auto simp: owned_frame_def page_info_pa block_ok_def)
qed

lemma alloc_page_spec:
  assumes ok: "pmm_ok E s L B" and run: "alloc_page E s = (r, s')"
  shows "\<exists>L' B'. pmm_ok E s' L' B' \<and>
    (case r of
       None \<Rightarrow> s' = s \<and> L' = L \<and> B' = B \<and> pool_frames E s B = {} \<and>
         (buddy_live s \<longrightarrow> (\<forall>n < max (node_count s) 1. \<forall>k < MAX_ORDER. L n k = []))
     | Some pa \<Rightarrow> pa \<in> free_frames E s L B \<and> free_frames E s' L' B' = free_frames E s L B - {pa}
         \<and> owned_frame E s' pa)"
proof -
  let ?N = "max (node_count s) 1"
  define a where "a = (if buddy_live s then alloc_try_nodes (local_node E) ?N [0..<?N] s else (0, s))"
  obtain pa s1 where a: "a = (pa, s1)" by (metis surj_pair)
  have buddy: "(pa = 0 \<longrightarrow> s1 = s \<and> (buddy_live s \<longrightarrow> (\<forall>n < ?N. \<forall>k < MAX_ORDER. L n k = [])))
    \<and> (pa \<noteq> 0 \<longrightarrow> (\<exists>i L'. pa = i * PAGE_SIZE \<and> alloc_post i 0 s L s1 L'))"
  proof (cases "buddy_live s")
    case True
    then have "alloc_try_nodes (local_node E) ?N [0..<?N] s = (pa, s1)" using a by (simp add: a_def)
    from alloc_try_nodes_spec [OF pmm_okD(3) [OF ok] this]
    show ?thesis using node_rotation [of _ ?N "local_node E"] by fastforce
  next
    case False
    then show ?thesis using a by (simp add: a_def)
  qed
  have run': "(if pa \<noteq> 0 then (Some pa, s1) else boot_alloc E s1) = (r, s')"
    using run a unfolding alloc_page_def a_def [symmetric] Let_def by simp
  show ?thesis
  proof (cases "pa = 0")
    case False
    with buddy obtain i L' where pa: "pa = i * PAGE_SIZE" and post: "alloc_post i 0 s L s1 L'" by auto
    have r: "r = Some pa" "s' = s1" using run' False by auto
    show ?thesis unfolding r option.case pa
      using alloc_post_ok [OF ok post] alloc_post_owned [OF ok post] by blast
  next
    case True
    with buddy run' have s1: "s1 = s" and boot: "boot_alloc E s = (r, s')" by auto
    from boot_alloc_spec [OF pmm_okD(1,2) [OF ok] boot] obtain B' where
      inv: "boot_inv E s' B'" and res: "case r of None \<Rightarrow> s' = s \<and> B' = B \<and> pool_frames E s B = {}
       | Some pa \<Rightarrow> pa \<in> pool_frames E s B \<and> pool_frames E s' B' = pool_frames E s B - {pa}
         \<and> pinfo s' = pinfo s \<and> free_lists s' = free_lists s \<and> pi_len s' = pi_len s
         \<and> pi_ready s' = pi_ready s \<and> pi_once s' = pi_once s \<and> bn_free_pages s' = bn_free_pages s
         \<and> (\<exists>idx < bump s'. pa = pool_page E idx \<and> \<not> pool_bit s' idx)" by blast
    have "pmm_ok E s' L B'"
    proof -
      have "pinfo s' = pinfo s \<and> free_lists s' = free_lists s \<and> pi_len s' = pi_len s \<and> pi_ready s' = pi_ready s
          \<and> pi_once s' = pi_once s"
        using res by (auto split: option.splits)
      then show ?thesis using ok inv buddy_ok_frame [of s' s] by (simp add: pmm_ok_def)
    qed
    moreover have "(\<lambda>j. j * PAGE_SIZE) ` covered (blocks L) \<inter> pool_frames E s B = {}"
      using buddy_pool_disjoint [OF ok] by auto
    ultimately show ?thesis using res buddy True
      by (intro exI [of _ L] exI [of _ B']) (auto simp: free_frames_def owned_frame_def split: option.splits)
  qed
qed

subsection \<open>Release\<close>

lemma free_page_pool:
  assumes ok: "pmm_ok E s L B" and idx: "idx < bump s" and run: "free_page E (pool_page E idx) s = Some s'"
  shows "pmm_ok E s' L (pool_page E idx # B)"
    "free_frames E s' L (pool_page E idx # B) = insert (pool_page E idx) (free_frames E s L B)"
proof -
  let ?pa = "pool_page E idx"
  have lt: "idx < POOL_PAGES" using idx pmm_okD(2) [OF ok] by (simp add: boot_inv_def)
  obtain s1 where s1: "pool_bit_set_free idx s = (True, s1)" and s': "s' = boot_push ?pa (zero_page ?pa s1)"
    using run lt pool_page_pos [OF pmm_okD(1) [OF ok], of idx]
    by (auto simp: free_page_def pool_index_page split: if_splits prod.splits)
  obtain bits where bits: "s1 = s\<lparr>pool_free_bits := bits\<rparr>"
    using pool_bit_set_free_spec [OF s1] by blast
  have fr: "pinfo s' = pinfo s" "free_lists s' = free_lists s" "pi_len s' = pi_len s" "pi_ready s' = pi_ready s"
    "bump s' = bump s" "pi_once s' = pi_once s"
    by (simp_all add: s' boot_push_def zero_page_def zero_range_def bits)
  show "pmm_ok E s' L (?pa # B)"
    using ok boot_free_spec [OF pmm_okD(1,2) [OF ok] idx s1] buddy_ok_frame [of s' s] fr
    unfolding s' [symmetric] by (simp add: pmm_ok_def)
  show "free_frames E s' L (?pa # B) = insert ?pa (free_frames E s L B)"
    by (simp add: free_frames_def pool_frames_def fr)
qed

lemma pmm_inv_set_ref:
  assumes "pmm_inv s L" "i \<notin> covered (blocks L)"
  shows "pmm_inv (upd_pi i (\<lambda>p. p\<lparr>pi_refcount := r\<rparr>) s) L"
proof -
  have "pi_link (upd_pi i (\<lambda>p. p\<lparr>pi_refcount := r\<rparr>) s) = pi_link s"
    by (simp add: pi_link_def fun_eq_iff)
  then show ?thesis using assms by (auto simp: pmm_inv_def refs_def)
qed

lemma free_post_ok:
  assumes ok: "pmm_ok E s L B" and post: "free_post n i s L s' L'"
    and ready: "pi_ready s"
    and pi: "pool_index E (i * PAGE_SIZE) = None" "\<not> is_kernel_page E (i * PAGE_SIZE)"
  shows "pmm_ok E s' L' B" "i * PAGE_SIZE \<in> free_frames E s' L' B"
    "free_frames E s' L' B \<subseteq> insert (i * PAGE_SIZE) (free_frames E s L B)"
    "short L n \<Longrightarrow> free_frames E s' L' B = insert (i * PAGE_SIZE) (free_frames E s L B)"
proof -
  have i: "i \<in> covered (blocks L')" and cov: "covered (blocks L') \<subseteq> insert i (covered (blocks L))"
    and pp: "pool_part s' = pool_part s" and inv: "pmm_inv s' L'"
    and sh: "short L n \<Longrightarrow> covered (blocks L') = insert i (covered (blocks L))"
    using post by (auto simp: free_post_def)
  have "boot_inv E s' B"
    by (rule boot_inv_page_write [OF pmm_okD(1,2) [OF ok] pp pi(1)])
      (use post in \<open>auto simp: free_post_def add.commute\<close>)
  moreover have "pi_ready s'" "pi_once s'"
    using pmm_inv_ready [OF inv] pmm_okD(3) [OF ok] pp ready by (auto simp: buddy_ok_def pool_part_def)
  ultimately show "pmm_ok E s' L' B"
    using pmm_okD [OF ok] inv pi cov by (auto simp: pmm_ok_def buddy_ok_def)
  show "i * PAGE_SIZE \<in> free_frames E s' L' B" using i by (simp add: free_frames_def)
  show "free_frames E s' L' B \<subseteq> insert (i * PAGE_SIZE) (free_frames E s L B)"
    using cov pool_frames_frame [OF pp] by (auto simp: free_frames_def)
  show "free_frames E s' L' B = insert (i * PAGE_SIZE) (free_frames E s L B)" if "short L n"
    using sh [OF that] pool_frames_frame [OF pp] by (auto simp: free_frames_def)
qed

lemma one_less_word: "0 < x \<Longrightarrow> x \<noteq> 1 \<Longrightarrow> 1 < (x :: u32)"
  by unat_arith

lemma free_page_buddy:
  assumes ok: "pmm_ok E s L B" and pa: "page_info s pa = Some i" "pool_index E pa = None"
    and out: "i \<notin> covered (blocks L)" and run: "free_page E pa s = Some s'"
  shows "\<exists>L'. pmm_ok E s' L' B \<and>
    (if refs s i = 1
     then pa \<in> free_frames E s' L' B \<and> free_frames E s' L' B \<subseteq> insert pa (free_frames E s L B) \<and>
       (short L (pi_numa_node (pinfo s i)) \<longrightarrow> free_frames E s' L' B = insert pa (free_frames E s L B))
     else L' = L \<and> 1 < refs s i \<and> refs s' i = refs s i - 1 \<and> free_frames E s' L B = free_frames E s L B)"
proof -
  note pi = page_info_SomeD [OF pa(1)]
  define s1 where "s1 = upd_pi i (\<lambda>p. p\<lparr>pi_refcount := refs s i - 1\<rparr>) s"
  have inv: "pmm_inv s L" using pmm_okD(3) [OF ok] pi by (simp add: buddy_ok_def)
  have inv1: "pmm_inv s1 L" unfolding s1_def by (rule pmm_inv_set_ref [OF inv out])
  have pp: "pool_part s1 = pool_part s" by (simp add: s1_def)
  have ok1: "pmm_ok E s1 L B"
    using ok inv1 boot_inv_frame [OF pmm_okD(2) [OF ok] pp] pi(4)
    by (auto simp: pmm_ok_def buddy_ok_def s1_def pool_part_def upd_pi_def)
  have ff: "free_frames E s1 L B = free_frames E s L B"
    using pool_frames_frame [OF pp] by (simp add: free_frames_def)
  have kern: "\<not> is_kernel_page E pa" and nz: "0 < refs s i"
    and s': "s' = (if refs s i = 1 then buddy_free_page pa s1 else s1)"
    using run pi pa by (auto simp: free_page_def Let_def refs_def s1_def page_aligned_Suc split: if_splits)
  show ?thesis
  proof (cases "refs s i = 1")
    case True
    have "i < pi_len s1" using pi by (simp add: s1_def)
    then obtain L' where post: "free_post (pi_numa_node (pinfo s1 i)) i s1 L s' L'"
      using buddy_free_page_spec [OF inv1 pi(2) _ out] True pi(1) by (auto simp: s')
    have r1: "pi_ready s1" using pi by (simp add: s1_def)
    have n: "pi_numa_node (pinfo s1 i) = pi_numa_node (pinfo s i)" by (simp add: s1_def)
    have "pool_index E (i * PAGE_SIZE) = None" "\<not> is_kernel_page E (i * PAGE_SIZE)"
      using pa(2) kern pi(1) by simp_all
    from free_post_ok [OF ok1 post r1 this] show ?thesis
      by (intro exI [of _ L']) (simp add: True pi(1) ff n)
  next
    case False
    moreover have "1 < refs s i" using one_less_word [OF nz False] .
    moreover have "refs s1 i = refs s i - 1" by (simp add: s1_def refs_def)
    ultimately show ?thesis using ok1 ff by (intro exI [of _ L]) (simp add: s')
  qed
qed

lemma free_page_none:
  assumes "page_info s pa = None" "pool_index E pa = None" "free_page E pa s = Some s'"
  shows "s' = s"
  using assms by (auto simp: free_page_def split: if_splits)

lemma free_page_spec:
  assumes ok: "pmm_ok E s L B" and out: "pa \<notin> free_frames E s L B" and run: "free_page E pa s = Some s'"
  shows "\<exists>L' B'. pmm_ok E s' L' B' \<and> free_frames E s' L' B' \<subseteq> insert pa (free_frames E s L B) \<and>
    ((\<forall>n. short L n) \<longrightarrow> free_frames E s L B \<subseteq> free_frames E s' L' B')"
proof (cases "pool_index E pa")
  case (Some idx)
  show ?thesis
  proof (cases "pa = 0")
    case True
    then show ?thesis using ok run by (auto simp: free_page_def)
  next
    case False
    then have "PAGE_SIZE dvd pa" using run by (auto simp: free_page_def page_aligned_Suc split: if_splits)
    from pool_index_SomeD [OF pmm_okD(1) [OF ok] Some this]
    have pa: "pa = pool_page E idx" "idx < POOL_PAGES" .
    have "idx < bump s"
      using out pa by (auto simp: free_frames_def pool_frames_def not_less [symmetric])
    from free_page_pool [OF ok this] run pa show ?thesis by blast
  qed
next
  case None
  show ?thesis
  proof (cases "page_info s pa")
    case page: (Some i)
    then have "i \<notin> covered (blocks L)" using out page_info_SomeD(1) by (auto simp: free_frames_def)
    from free_page_buddy [OF ok page None this run] obtain L' where L': "pmm_ok E s' L' B"
      "if refs s i = 1
       then pa \<in> free_frames E s' L' B \<and> free_frames E s' L' B \<subseteq> insert pa (free_frames E s L B) \<and>
         (short L (pi_numa_node (pinfo s i)) \<longrightarrow> free_frames E s' L' B = insert pa (free_frames E s L B))
       else L' = L \<and> 1 < refs s i \<and> refs s' i = refs s i - 1 \<and> free_frames E s' L B = free_frames E s L B"
      by blast
    then show ?thesis by (intro exI [of _ L'] exI [of _ B]) (auto split: if_splits)
  next
    case page: None
    then show ?thesis using free_page_none [OF page None run] ok by blast
  qed
qed

end
