(* ===== verification/Pmm_Region.thy ===== *)
theory Pmm_Region
  imports Pmm_Api
begin

unbundle bit_operations_syntax

section \<open>Handing memory to the page allocator\<close>

text \<open>
  \<open>pmm_add_region_node\<close> builds the table of page records on its first call and then frees
  every whole page of the region. The lemmas show that the invariant of the manager holds
  from boot on and which frames a region adds; contiguous allocation follows.
\<close>

subsection \<open>The table of page records\<close>

lemma mark_table_pages_spec:
  assumes "\<forall>i \<in> set is. b + i < POOL_PAGES"
  shows "(\<forall>j. pool_bit (mark_table_pages E (pool_page E b) is s) j \<longleftrightarrow>
      pool_bit s j \<or> (\<exists>i \<in> set is. j = b + i)) \<and>
    mark_table_pages E (pool_page E b) is s =
      s\<lparr>pool_free_bits := pool_free_bits (mark_table_pages E (pool_page E b) is s)\<rparr>"
  using assms
proof (induction "is" arbitrary: s)
  case (Cons i "is")
  have pg: "pool_page E b + i * PAGE_SIZE = pool_page E (b + i)"
    by (simp add: pool_page_def algebra_simps)
  obtain ok s1 where s1: "pool_bit_set_free (b + i) s = (ok, s1)" by (metis surj_pair)
  note sp = pool_bit_set_free_spec [OF s1]
  obtain bits where bits: "s1 = s\<lparr>pool_free_bits := bits\<rparr>" using sp by blast
  have step: "mark_table_pages E (pool_page E b) (i # is) s = mark_table_pages E (pool_page E b) is s1"
    using Cons.prems by (simp add: pg pool_index_page s1)
  have IH: "(\<forall>j. pool_bit (mark_table_pages E (pool_page E b) is s1) j \<longleftrightarrow>
      pool_bit s1 j \<or> (\<exists>i \<in> set is. j = b + i)) \<and>
    mark_table_pages E (pool_page E b) is s1 =
      s1\<lparr>pool_free_bits := pool_free_bits (mark_table_pages E (pool_page E b) is s1)\<rparr>"
    using Cons.IH [of s1] Cons.prems by simp
  show ?case unfolding step
  proof (intro conjI allI)
    show "pool_bit (mark_table_pages E (pool_page E b) is s1) j \<longleftrightarrow>
      pool_bit s j \<or> (\<exists>i \<in> set (i # is). j = b + i)" for j
      using IH sp by auto
    show "mark_table_pages E (pool_page E b) is s1 =
      s\<lparr>pool_free_bits := pool_free_bits (mark_table_pages E (pool_page E b) is s1)\<rparr>"
      using IH by (simp add: bits)
  qed
qed simp

lemma blocks_empty: "(\<And>n k. L n k = []) \<Longrightarrow> blocks L = {}"
  by (auto simp: blocks_def)

lemma pmm_inv_fresh:
  assumes "\<forall>n k. free_lists s n k = None \<and> L n k = []" "pi_ready s"
  shows "pmm_inv s L"
  using assms blocks_empty [of L] by (simp add: pmm_inv_def blocks_wf_def covered_def)

text \<open>The table takes pages of the bootstrap pool, or the static emergency table.\<close>

lemma ensure_table_pool:
  assumes inv: "boot_inv E s B" and E: "platform_ok E" and room: "bump s + pages \<le> POOL_PAGES"
    and s1: "s1 = zero_range (pool_page E (bump s)) (pages * PAGE_SIZE) (s\<lparr>bump := bump s + pages\<rparr>)"
    and s2: "s2 = mark_table_pages E (pool_page E (bump s)) [0..<pages] s1"
  shows "boot_inv E s2 B" "pool_frames E s2 B \<subseteq> pool_frames E s B" "free_lists s2 = free_lists s"
    "buddy_live s2 = buddy_live s" "node_count s2 = node_count s"
proof -
  have mk: "(\<forall>j. pool_bit s2 j \<longleftrightarrow> pool_bit s1 j \<or> (\<exists>i \<in> set [0..<pages]. j = bump s + i))
    \<and> s2 = s1\<lparr>pool_free_bits := pool_free_bits s2\<rparr>"
    unfolding s2 by (rule mark_table_pages_spec) (use room in auto)
  then obtain bits where bits: "s2 = s1\<lparr>pool_free_bits := bits\<rparr>" by blast
  have f: "bump s2 = bump s + pages" "boot_free_head s2 = boot_free_head s"
    "boot_free_cnt s2 = boot_free_cnt s" "mem s2 = mem s1"
    by (simp_all add: bits s1 zero_range_def)
  show "free_lists s2 = free_lists s" "buddy_live s2 = buddy_live s" "node_count s2 = node_count s"
    by (simp_all add: bits s1 zero_range_def)
  have pb: "pool_bit s2 j \<longleftrightarrow> pool_bit s j \<or> bump s \<le> j \<and> j < bump s + pages" for j
  proof -
    have "pool_bit s1 j = pool_bit s j" by (simp add: s1 pool_bit_def zero_range_def)
    moreover have "(\<exists>i \<in> set [0..<pages]. j = bump s + i) \<longleftrightarrow> bump s \<le> j \<and> j < bump s + pages"
      by (auto intro: bexI [of _ "j - bump s"])
    ultimately show ?thesis using mk by blast
  qed
  have m: "mem s2 b = mem s b" if "b \<in> set B" for b
  proof -
    from that inv obtain idx where "idx < bump s" "b = pool_page E idx" by (auto simp: boot_inv_def)
    then have "b < pool_page E (bump s)" by (simp add: pool_page_def)
    then show ?thesis by (simp add: f s1)
  qed
  have "chain (\<lambda>pa. boot_ptr (mem s2 pa)) (boot_ptr (boot_free_head s)) B"
    using inv chain_cong [of B "\<lambda>pa. boot_ptr (mem s2 pa)" "\<lambda>pa. boot_ptr (mem s pa)"] m
    by (simp add: boot_inv_def)
  then show "boot_inv E s2 B"
    using inv room unfolding boot_inv_def f pb by (meson add_leE le_trans less_le_trans not_le le_add1)
  show "pool_frames E s2 B \<subseteq> pool_frames E s B" by (auto simp: pool_frames_def f)
qed

lemma ensure_table_spec:
  assumes ok: "pmm_ok E s L B" and run: "ensure_page_info_table E m s = Some s'"
  shows "pmm_ok E s' L B" "pi_ready s'" "free_frames E s' L B \<subseteq> free_frames E s L B"
    "pi_ready s \<Longrightarrow> s' = s" "\<not> pi_ready s \<Longrightarrow> m < pi_len s'"
    "buddy_live s' = buddy_live s" "node_count s' = node_count s"
proof -
  show same: "s' = s" if "pi_ready s"
    using that run pmm_okD(3) [OF ok] by (simp add: ensure_page_info_table_def buddy_ok_def)
  have "pmm_ok E s' L B \<and> pi_ready s' \<and> free_frames E s' L B \<subseteq> free_frames E s L B \<and> m < pi_len s'
    \<and> buddy_live s' = buddy_live s \<and> node_count s' = node_count s" if new: "\<not> pi_ready s"
  proof -
    let ?pages = "((m + 1) * page_info_bytes + PAGE_SIZE - 1) div PAGE_SIZE"
    have fl: "\<forall>n k. free_lists s n k = None \<and> L n k = []" and once: "\<not> pi_once s"
      using pmm_okD(3) [OF ok] new by (auto simp: buddy_ok_def)
    have cov: "covered (blocks L) = {}" using blocks_empty [of L] fl by (simp add: covered_def)
    show ?thesis
    proof (cases "bump s + ?pages \<le> POOL_PAGES")
      case True
      define s1 where "s1 = zero_range (pool_page E (bump s)) (?pages * PAGE_SIZE) (s\<lparr>bump := bump s + ?pages\<rparr>)"
      define s2 where "s2 = mark_table_pages E (pool_page E (bump s)) [0..<?pages] s1"
      have s': "s' = s2\<lparr>pi_once := True, pi_ready := True, pi_len := m + 1, pinfo := (\<lambda>_. page_info_zero)\<rparr>"
        using run once True unfolding ensure_page_info_table_def Let_def s2_def s1_def pool_page_def by simp
      note tab = ensure_table_pool [OF pmm_okD(2,1) [OF ok] True s1_def s2_def]
      have "boot_inv E s' B" "pool_frames E s' B = pool_frames E s2 B"
        using tab(1) by (simp_all add: s' boot_inv_def pool_bit_def pool_frames_def)
      moreover have "pmm_inv s' L" by (rule pmm_inv_fresh) (use fl tab(3) in \<open>simp_all add: s'\<close>)
      ultimately show ?thesis using ok tab(2,4,5) cov
        by (simp add: pmm_ok_def buddy_ok_def free_frames_def s')
    next
      case False
      then have s': "s' = s\<lparr>pi_once := True, pi_ready := True, pi_len := EMERGENCY_FRAMES,
          pinfo := (\<lambda>_. page_info_zero)\<rparr>" and m: "m + 1 \<le> EMERGENCY_FRAMES"
        using run once unfolding ensure_page_info_table_def Let_def by (simp_all split: if_splits)
      have "boot_inv E s' B" "pool_frames E s' B = pool_frames E s B"
        using pmm_okD(2) [OF ok] by (simp_all add: s' boot_inv_def pool_bit_def pool_frames_def)
      moreover have "pmm_inv s' L" by (rule pmm_inv_fresh) (use fl in \<open>simp_all add: s'\<close>)
      ultimately show ?thesis using ok cov m
        by (simp add: pmm_ok_def buddy_ok_def free_frames_def s')
    qed
  qed
  then show "pmm_ok E s' L B" "pi_ready s'" "free_frames E s' L B \<subseteq> free_frames E s L B"
    "\<not> pi_ready s \<Longrightarrow> m < pi_len s'" "buddy_live s' = buddy_live s" "node_count s' = node_count s"
    using same ok by (cases "pi_ready s"; simp)+
qed

subsection \<open>Freeing the pages of a region\<close>

lemma add_region_page:
  assumes ok: "pmm_ok E s L B" and ready: "pi_ready s" and i: "0 < i" "i < pi_len s"
    and out: "i \<notin> covered (blocks L)" "pool_index E (i * PAGE_SIZE) = None" "\<not> is_kernel_page E (i * PAGE_SIZE)"
    and s1: "s1 = upd_pi i (\<lambda>p. p\<lparr>pi_refcount := 0, pi_flags := f, pi_order := 0, pi_numa_node := n\<rparr>) s"
    and s3: "s3 = buddy_push n (i * PAGE_SIZE) 0 (zero_page (i * PAGE_SIZE) s1)"
    and L': "L' = lset L n 0 (i # L n 0)"
  shows "pmm_ok E (s3\<lparr>bn_total_pages := t\<rparr>) L' B" "covered (blocks L') = insert i (covered (blocks L))"
    "pi_len s3 = pi_len s" "pi_ready s3" "pool_part s3 = pool_part s"
proof -
  let ?s2 = "zero_page (i * PAGE_SIZE) s1" and ?s4 = "s3\<lparr>bn_total_pages := t\<rparr>"
  have inv: "pmm_inv s L" using pmm_okD(3) [OF ok] ready by (simp add: buddy_ok_def)
  have l2: "pi_link ?s2 = pi_link s" by (simp add: pi_link_def fun_eq_iff s1 zero_page_def)
  have r2: "refs ?s2 = (refs s)(i := 0)" by (simp add: refs_def fun_eq_iff s1 zero_page_def)
  have f2: "free_lists ?s2 = free_lists s" "pi_len ?s2 = pi_len s" "pi_ready ?s2 = pi_ready s"
    "pool_part ?s2 = pool_part s"
    by (simp_all add: s1 zero_page_def)
  have inv2: "pmm_inv ?s2 L" using inv by (simp add: pmm_inv_def l2 r2 f2)
  have "block_ok (pi_len ?s2) 0 i" using i by (simp add: block_ok_def f2 MAX_ORDER_def)
  note push = buddy_push_spec [OF inv2 this, of n, folded s3 L']
  have inv3: "pmm_inv s3 L'" and sp: "same_pages ?s2 s3" using push out(1) by (simp_all add: r2)
  note spD = same_pagesD [OF sp]
  show pp: "pool_part s3 = pool_part s" and "pi_len s3 = pi_len s" and r3: "pi_ready s3"
    using spD f2 ready by simp_all
  show cov: "covered (blocks L') = insert i (covered (blocks L))"
    unfolding L' blocks_push by simp
  have pp4: "pool_part ?s4 = pool_part s" using pp by (simp add: pool_part_def)
  have "boot_inv E ?s4 B"
    by (rule boot_inv_page_write [OF pmm_okD(1,2) [OF ok] pp4 out(2)])
      (auto simp: spD(3) s1 zero_page_def)
  moreover have "pi_once s3" using pp pmm_okD(3) [OF ok] ready by (simp add: pool_part_def buddy_ok_def)
  then have "buddy_ok ?s4 L'" using inv3 r3 buddy_ok_frame [of ?s4 s3] by (simp add: buddy_ok_def)
  ultimately show "pmm_ok E ?s4 L' B"
    using pmm_okD(1,4,5) [OF ok] out by (auto simp: pmm_ok_def cov)
qed

definition region_frames :: "platform \<Rightarrow> nat \<Rightarrow> nat \<Rightarrow> nat \<Rightarrow> nat set" where
  "region_frames E len pa e =
     {j. pa \<le> j * PAGE_SIZE \<and> (j + 1) * PAGE_SIZE \<le> e \<and> 0 < j \<and> j < len \<and> \<not> is_kernel_page E (j * PAGE_SIZE)}"

lemma region_frames_step:
  assumes "(i + 1) * PAGE_SIZE \<le> e"
  shows "region_frames E len (i * PAGE_SIZE) e =
    (if 0 < i \<and> i < len \<and> \<not> is_kernel_page E (i * PAGE_SIZE) then {i} else {})
      \<union> region_frames E len ((i + 1) * PAGE_SIZE) e"
proof -
  have "i * PAGE_SIZE \<le> j * PAGE_SIZE \<longleftrightarrow> j = i \<or> (i + 1) * PAGE_SIZE \<le> j * PAGE_SIZE" for j
    unfolding mult_le_cancel2 by auto
  then show ?thesis using assms unfolding region_frames_def by auto
qed

lemma add_region_loop_spec:
  assumes "pmm_ok E s L B" "pi_ready s" "n < MAX_NODES"
    "\<forall>j. i \<le> j \<and> (j + 1) * PAGE_SIZE \<le> e \<longrightarrow> j \<notin> covered (blocks L) \<and> pool_index E (j * PAGE_SIZE) = None"
  shows "\<exists>s' L'. add_region_loop E n (i * PAGE_SIZE) e s = Some s' \<and> pmm_ok E s' L' B \<and>
    pool_part s' = pool_part s \<and> pi_ready s' \<and> pi_len s' = pi_len s \<and>
    covered (blocks L') = covered (blocks L) \<union> region_frames E (pi_len s) (i * PAGE_SIZE) e"
  using assms
proof (induction "e - i * PAGE_SIZE" arbitrary: i s L rule: less_induct)
  case less
  note prems = less.prems
  have nxt: "i * PAGE_SIZE + PAGE_SIZE = (i + 1) * PAGE_SIZE" by simp
  show ?case
  proof (cases "(i + 1) * PAGE_SIZE \<le> e")
    case False
    have "\<not> (j + 1) * PAGE_SIZE \<le> e" if "i * PAGE_SIZE \<le> j * PAGE_SIZE" for j
      using False that mult_le_mono1 [of "i + 1" "j + 1" PAGE_SIZE] by (meson mult_le_cancel2 add_le_mono1 le_trans PAGE_SIZE_pos(1))
    then have "region_frames E (pi_len s) (i * PAGE_SIZE) e = {}"
      unfolding region_frames_def by blast
    then show ?thesis using False prems
      by (subst add_region_loop.simps) (auto simp: nxt simp del: mult_Suc)
  next
    case True
    have dec: "e - (i + 1) * PAGE_SIZE < e - i * PAGE_SIZE"
      using True nxt PAGE_SIZE_pos(1) by linarith
    have rest: "\<forall>j. i + 1 \<le> j \<and> (j + 1) * PAGE_SIZE \<le> e \<longrightarrow>
        j \<notin> covered (blocks L) \<and> pool_index E (j * PAGE_SIZE) = None"
      using prems(4) by auto
    show ?thesis
    proof (cases "0 < i \<and> i < pi_len s \<and> \<not> is_kernel_page E (i * PAGE_SIZE)")
      case False
      then have step: "add_region_loop E n (i * PAGE_SIZE) e s = add_region_loop E n ((i + 1) * PAGE_SIZE) e s"
        using True by (subst add_region_loop.simps) (auto simp: nxt page_info_pa prems(2) simp del: mult_Suc)
      show ?thesis unfolding step region_frames_step [OF True]
        using less.hyps [OF dec prems(1,2,3) rest] False by auto
    next
      case page: True
      define s1 where "s1 = upd_pi i (\<lambda>p. p\<lparr>pi_refcount := 0, pi_flags := FLAG_FREE OR FLAG_BUDDY,
          pi_order := 0, pi_numa_node := n\<rparr>) s"
      define s3 where "s3 = buddy_push n (i * PAGE_SIZE) 0 (zero_page (i * PAGE_SIZE) s1)"
      define s4 where "s4 = s3\<lparr>bn_total_pages := (bn_total_pages s3)(n := bn_total_pages s3 n + 1)\<rparr>"
      define L1 where "L1 = lset L n 0 (i # L n 0)"
      have out: "i \<notin> covered (blocks L)" "pool_index E (i * PAGE_SIZE) = None" using prems(4) True by auto
      have i: "0 < i" "i < pi_len s" "\<not> is_kernel_page E (i * PAGE_SIZE)" using page by auto
      note pg = add_region_page [OF prems(1,2) i(1,2) out i(3) s1_def s3_def L1_def]
      have step: "add_region_loop E n (i * PAGE_SIZE) e s = add_region_loop E n ((i + 1) * PAGE_SIZE) e s4"
        using True page prems(2,3) unfolding s4_def s3_def s1_def
        by (subst add_region_loop.simps) (simp add: nxt page_info_pa Let_def del: mult_Suc)
      have f4: "pi_len s4 = pi_len s" "pi_ready s4" "pool_part s4 = pool_part s"
        using pg(3,4,5) by (simp_all add: s4_def pool_part_def)
      have rest4: "\<forall>j. i + 1 \<le> j \<and> (j + 1) * PAGE_SIZE \<le> e \<longrightarrow>
          j \<notin> covered (blocks L1) \<and> pool_index E (j * PAGE_SIZE) = None"
        using rest unfolding pg(2) by auto
      have ok4: "pmm_ok E s4 L1 B" unfolding s4_def by (rule pg(1))
      show ?thesis unfolding step region_frames_step [OF True]
        using less.hyps [OF dec ok4 f4(2) prems(3) rest4] page unfolding f4 pg(2) by auto
    qed
  qed
qed

subsection \<open>Adding a region\<close>

lemma and_usize_not_mask:
  assumes "x < 2 ^ 64" "k \<le> 64"
  shows "x AND usize_not (2 ^ k - 1) = x div 2 ^ k * 2 ^ k"
proof -
  have "2 ^ 64 = 2 ^ k * (2 ^ (64 - k) :: nat)" using assms(2) by (simp flip: power_add)
  then have "2 ^ 64 - 2 ^ k = 2 ^ k * (2 ^ (64 - k) - 1 :: nat)"
    by (simp only: diff_mult_distrib2 mult_1_right)
  then have "usize_not (2 ^ k - 1) = push_bit k (mask (64 - k))"
    by (simp add: usize_not_def usize_max_def push_bit_eq_mult mask_eq_exp_minus_1 mult.commute)
  moreover have "x AND push_bit k (mask (64 - k)) = push_bit k (drop_bit k x)"
  proof (rule bit_eqI)
    fix n
    have "n < 64" if "bit x n"
    proof (rule ccontr)
      assume "\<not> n < 64"
      then have "(2 :: nat) ^ 64 \<le> 2 ^ n" by (intro power_increasing) auto
      with assms(1) have "x < 2 ^ n" by (rule less_le_trans)
      with that show False by (simp add: bit_iff_odd)
    qed
    then show "bit (x AND push_bit k (mask (64 - k))) n \<longleftrightarrow> bit (push_bit k (drop_bit k x)) n"
      by (auto simp: bit_and_iff bit_push_bit_iff bit_mask_iff bit_drop_bit_eq)
  qed
  ultimately show ?thesis by (simp add: push_bit_eq_mult drop_bit_eq_div)
qed

lemma region_start_eq:
  assumes "base + PAGE_SIZE \<le> 2 ^ 64"
  shows "wadd base (PAGE_SIZE - 1) AND usize_not (PAGE_SIZE - 1) =
    (base + (PAGE_SIZE - 1)) div PAGE_SIZE * PAGE_SIZE"
proof -
  have "base + (PAGE_SIZE - 1) < 2 ^ 64" using assms PAGE_SIZE_pos by linarith
  then show ?thesis
    using and_usize_not_mask [of "base + (PAGE_SIZE - 1)" 12] wadd_eq [of base "PAGE_SIZE - 1"]
    by (simp add: PAGE_SIZE_def)
qed

lemma round_up_le: "(base + (PAGE_SIZE - 1)) div PAGE_SIZE * PAGE_SIZE \<le> j * PAGE_SIZE \<longleftrightarrow> base \<le> j * PAGE_SIZE"
proof -
  have "(base + (PAGE_SIZE - 1)) div PAGE_SIZE \<le> j \<longleftrightarrow> (base + (PAGE_SIZE - 1)) < (j + 1) * PAGE_SIZE"
    by (simp add: div_less_iff_less_mult less_Suc_eq_le [symmetric] del: mult_Suc)
  also have "\<dots> \<longleftrightarrow> base \<le> j * PAGE_SIZE" by (auto simp: PAGE_SIZE_def)
  finally show ?thesis by simp
qed

definition table_pages :: "nat \<Rightarrow> nat" where
  "table_pages m = ((m + 1) * page_info_bytes + PAGE_SIZE - 1) div PAGE_SIZE"

lemma ensure_table_total:
  "pi_once s = pi_ready s \<Longrightarrow> pi_ready s \<or> bump s + table_pages m \<le> POOL_PAGES \<Longrightarrow>
   \<exists>s'. ensure_page_info_table E m s = Some s'"
  by (auto simp: ensure_page_info_table_def table_pages_def Let_def)

lemma register_node_range_frame:
  "buddy_ok (register_node_range n b e s) L = buddy_ok s L"
  "boot_inv E (register_node_range n b e s) B = boot_inv E s B"
  "pool_frames E (register_node_range n b e s) B = pool_frames E s B"
  "pi_ready (register_node_range n b e s) = pi_ready s" "pi_len (register_node_range n b e s) = pi_len s"
  "bump (register_node_range n b e s) = bump s"
proof -
  show "buddy_ok (register_node_range n b e s) L = buddy_ok s L"
    by (rule buddy_ok_frame) (simp_all add: register_node_range_def Let_def)
qed (simp_all add: register_node_range_def Let_def boot_inv_def pool_bit_def pool_frames_def)

lemma pmm_ok_go_live:
  assumes "pmm_ok E s L B"
  shows "pmm_ok E ((register_node_range n b e s)\<lparr>buddy_live := True\<rparr>) L B"
proof -
  let ?s = "register_node_range n b e s"
  have "buddy_ok (?s\<lparr>buddy_live := True\<rparr>) L = buddy_ok ?s L" by (rule buddy_ok_frame) simp_all
  moreover have "boot_inv E (?s\<lparr>buddy_live := True\<rparr>) B = boot_inv E ?s B"
    by (simp add: boot_inv_def pool_bit_def)
  ultimately show ?thesis using assms by (simp add: pmm_ok_def register_node_range_frame)
qed

text \<open>The condition under which a region can be added without a panic.\<close>

definition region_fits :: "pmm \<Rightarrow> nat \<Rightarrow> nat \<Rightarrow> bool" where
  "region_fits s base len \<longleftrightarrow>
     base + PAGE_SIZE \<le> 2 ^ 64 \<and> base + len < 2 ^ 64 \<and> pfn (base + len - 1) < MAX_FRAMES \<and>
     (pi_ready s \<or> bump s + table_pages (pfn (base + len - 1)) \<le> POOL_PAGES)"

definition region_apart :: "platform \<Rightarrow> (nat \<Rightarrow> nat \<Rightarrow> nat list) \<Rightarrow> nat \<Rightarrow> nat \<Rightarrow> bool" where
  "region_apart E L base len \<longleftrightarrow>
     (\<forall>j. base \<le> j * PAGE_SIZE \<and> (j + 1) * PAGE_SIZE \<le> base + len \<longrightarrow>
        j \<notin> covered (blocks L) \<and> pool_index E (j * PAGE_SIZE) = None)"

lemma pmm_add_region_node_spec:
  assumes ok: "pmm_ok E s L B" and fits: "region_fits s base len" and n: "n < MAX_NODES"
    and apart: "region_apart E L base len"
  shows "\<exists>s' L'. pmm_add_region_node E base len n s = Some s' \<and> pmm_ok E s' L' B \<and>
    covered (blocks L') = covered (blocks L) \<union> region_frames E (pi_len s') base (base + len) \<and>
    pool_frames E s' B \<subseteq> pool_frames E s B \<and>
    (pi_ready s' \<or> s' = s \<and> (\<forall>m. region_frames E m base (base + len) = {})) \<and>
    (pi_ready s \<longrightarrow> pi_ready s' \<and> pi_len s' = pi_len s)"
proof -
  define i where "i = (base + (PAGE_SIZE - 1)) div PAGE_SIZE"
  let ?e = "base + len"
  have start: "wadd base (PAGE_SIZE - 1) AND usize_not (PAGE_SIZE - 1) = i * PAGE_SIZE"
    using region_start_eq fits by (simp add: region_fits_def i_def)
  have le: "i * PAGE_SIZE \<le> j * PAGE_SIZE \<longleftrightarrow> base \<le> j * PAGE_SIZE" for j
    unfolding i_def by (rule round_up_le)
  have rf: "region_frames E m (i * PAGE_SIZE) ?e = region_frames E m base ?e" for m
    by (simp add: region_frames_def le del: mult_le_cancel2)
  have we: "wadd base len = ?e" using fits by (simp add: region_fits_def wadd_eq)
  show ?thesis
  proof (cases "i * PAGE_SIZE \<ge> ?e")
    case True
    then have "pmm_add_region_node E base len n s = Some s"
      unfolding pmm_add_region_node_def Let_def start we by simp
    moreover have "region_frames E m base ?e = {}" for m
    proof -
      have "\<not> (j + 1) * PAGE_SIZE \<le> ?e" if "i * PAGE_SIZE \<le> j * PAGE_SIZE" for j
        using that True PAGE_SIZE_pos(1) unfolding add_mult_distrib by linarith
      then have "region_frames E m (i * PAGE_SIZE) ?e = {}"
        by (auto simp: region_frames_def)
      then show ?thesis by (simp only: rf)
    qed
    ultimately show ?thesis using ok by auto
  next
    case False
    have once: "pi_once s = pi_ready s" using pmm_okD(3) [OF ok] by (simp add: buddy_ok_def)
    obtain s1 where s1: "ensure_page_info_table E (pfn (?e - 1)) s = Some s1"
      using ensure_table_total [OF once] fits unfolding region_fits_def by blast
    note tab = ensure_table_spec [OF ok s1]
    let ?s2 = "(register_node_range n (i * PAGE_SIZE) ?e s1)\<lparr>buddy_live := True\<rparr>"
    have ok2: "pmm_ok E ?s2 L B" by (rule pmm_ok_go_live [OF tab(1)])
    have r2: "pi_ready ?s2" "pi_len ?s2 = pi_len s1" using tab(2) by (simp_all add: register_node_range_frame)
    have ap: "\<forall>j. i \<le> j \<and> (j + 1) * PAGE_SIZE \<le> ?e \<longrightarrow>
        j \<notin> covered (blocks L) \<and> pool_index E (j * PAGE_SIZE) = None"
      using apart le unfolding region_apart_def by (metis mult_le_mono1)
    have run: "pmm_add_region_node E base len n s = add_region_loop E n (i * PAGE_SIZE) ?e ?s2"
      unfolding pmm_add_region_node_def Let_def start we
      using False fits s1 by (simp add: region_fits_def del: mult_le_cancel2)
    from add_region_loop_spec [OF ok2 r2(1) n ap] obtain s' L' where
      res: "add_region_loop E n (i * PAGE_SIZE) ?e ?s2 = Some s'" "pmm_ok E s' L' B"
        "pool_part s' = pool_part ?s2" "pi_ready s'" "pi_len s' = pi_len ?s2"
        "covered (blocks L') = covered (blocks L) \<union> region_frames E (pi_len ?s2) (i * PAGE_SIZE) ?e"
      by blast
    have "pool_frames E s' B = pool_frames E s1 B"
      using res(3) register_node_range_frame(6) by (simp add: pool_frames_def pool_part_def)
    moreover have "pool_frames E s1 B \<subseteq> pool_frames E s B"
      using tab(3) buddy_pool_disjoint [OF tab(1)] unfolding free_frames_def by blast
    moreover have "pi_ready s \<longrightarrow> pi_len s' = pi_len s" using res(5) r2(2) tab(4) by auto
    ultimately show ?thesis unfolding run using res unfolding rf by auto
  qed
qed

subsection \<open>The memory map\<close>

fun regions_disjoint :: "region list \<Rightarrow> bool" where
  "regions_disjoint [] = True"
| "regions_disjoint (r # rs) =
     ((region_is_usable r \<longrightarrow> (\<forall>q \<in> set rs. region_is_usable q \<longrightarrow>
        r_start r + r_length r \<le> r_start q \<or> r_start q + r_length q \<le> r_start r)) \<and>
      regions_disjoint rs)"

definition map_frames :: "platform \<Rightarrow> nat \<Rightarrow> region list \<Rightarrow> nat set" where
  "map_frames E len rs =
     (\<Union>r \<in> set (filter region_is_usable rs). region_frames E len (r_start r) (r_start r + r_length r))"

definition map_ok :: "platform \<Rightarrow> pmm \<Rightarrow> (nat \<Rightarrow> nat \<Rightarrow> nat list) \<Rightarrow> region list \<Rightarrow> bool" where
  "map_ok E s L rs \<longleftrightarrow> regions_disjoint rs \<and>
     (\<forall>r \<in> set (filter region_is_usable rs).
        region_fits s (r_start r) (r_length r) \<and> region_apart E L (r_start r) (r_length r))"

lemma region_apart_extend:
  assumes "region_apart E L qb ql" "covered (blocks L') = covered (blocks L) \<union> region_frames E m rb (rb + rl)"
    "rb + rl \<le> qb \<or> qb + ql \<le> rb"
  shows "region_apart E L' qb ql"
proof -
  have "j \<notin> region_frames E m rb (rb + rl)" if "qb \<le> j * PAGE_SIZE" "(j + 1) * PAGE_SIZE \<le> qb + ql" for j
  proof -
    have "\<not> (rb \<le> j * PAGE_SIZE \<and> (j + 1) * PAGE_SIZE \<le> rb + rl)"
      using that assms(3) PAGE_SIZE_pos(1) unfolding add_mult_distrib by linarith
    then show ?thesis unfolding region_frames_def by blast
  qed
  then show ?thesis using assms(1,2) unfolding region_apart_def by blast
qed

lemma init_from_regions_spec:
  assumes "pmm_ok E s L B" "map_ok E s L rs"
  shows "\<exists>s' L'. init_from_regions E rs s = Some s' \<and> pmm_ok E s' L' B \<and>
    covered (blocks L') = covered (blocks L) \<union> map_frames E (pi_len s') rs \<and>
    pool_frames E s' B \<subseteq> pool_frames E s B \<and> (pi_ready s \<longrightarrow> pi_ready s' \<and> pi_len s' = pi_len s)"
  using assms
proof (induction rs arbitrary: s L)
  case Nil
  then show ?case by (auto simp: map_frames_def)
next
  case (Cons r rs)
  let ?b = "r_start r" and ?l = "r_length r"
  show ?case
  proof (cases "region_is_usable r")
    case False
    then show ?thesis using Cons by (simp add: map_ok_def map_frames_def)
  next
    case True
    have "region_fits s ?b ?l" "region_apart E L ?b ?l" using Cons.prems(2) True by (auto simp: map_ok_def)
    with pmm_add_region_node_spec [OF Cons.prems(1), of ?b ?l 0] obtain s1 L1 where
      add: "pmm_add_region E ?b ?l s = Some s1" "pmm_ok E s1 L1 B"
        "covered (blocks L1) = covered (blocks L) \<union> region_frames E (pi_len s1) ?b (?b + ?l)"
        "pool_frames E s1 B \<subseteq> pool_frames E s B"
        "pi_ready s1 \<or> s1 = s \<and> (\<forall>m. region_frames E m ?b (?b + ?l) = {})"
        "pi_ready s \<longrightarrow> pi_ready s1 \<and> pi_len s1 = pi_len s"
      by (auto simp: pmm_add_region_def MAX_NODES_def)
    have fits: "region_fits s1 qb ql" if "region_fits s qb ql" for qb ql
      using that add(5) by (auto simp: region_fits_def)
    have "map_ok E s1 L1 rs"
      using Cons.prems(2) True fits region_apart_extend [OF _ add(3)]
      unfolding map_ok_def by auto
    from Cons.IH [OF add(2) this] obtain s' L' where
      IH: "init_from_regions E rs s1 = Some s'" "pmm_ok E s' L' B"
        "covered (blocks L') = covered (blocks L1) \<union> map_frames E (pi_len s') rs"
        "pool_frames E s' B \<subseteq> pool_frames E s1 B" "pi_ready s1 \<longrightarrow> pi_ready s' \<and> pi_len s' = pi_len s1"
      by blast
    have "region_frames E (pi_len s1) ?b (?b + ?l) = region_frames E (pi_len s') ?b (?b + ?l)"
      using add(5) IH(5) by auto
    then have "covered (blocks L') = covered (blocks L) \<union> map_frames E (pi_len s') (r # rs)"
      using IH(3) add(3) True by (auto simp: map_frames_def)
    moreover have "init_from_regions E (r # rs) s = Some s'" using True add(1) IH(1) by simp
    ultimately show ?thesis using IH(2,4,5) add(4,6)
      by (intro exI [of _ s'] exI [of _ L']) auto
  qed
qed

lemma pmm_boot_ok: "platform_ok E \<Longrightarrow> pmm_ok E pmm_boot (\<lambda>_ _. []) []"
  by (simp add: pmm_ok_def boot_inv_def buddy_ok_def pmm_boot_def pool_bit_def boot_ptr_def
      covered_def blocks_def)

end
