(* ===== verification/Pmm_Safety.thy ===== *)
theory Pmm_Safety
  imports Pmm_Region
begin

unbundle bit_operations_syntax

section \<open>The page allocator: what its clients rely on\<close>

text \<open>
  The contract of a frame allocator as a locale, its interpretation on the model of
  \<^verbatim>\<open>src/mm/pmm.rs\<close>, and the properties of the allocator: frames are handed out once,
  a release undoes an allocation, a second release is caught, the memory map is added
  exactly, and contiguous allocations are contiguous.
\<close>

subsection \<open>Contiguous allocation\<close>

lemma contig_order_le: "n \<le> 2 ^ contig_order n k"
proof (induction n k rule: contig_order.induct)
  case (1 n k)
  then show ?case by (subst contig_order.simps) auto
qed

lemma alloc_post_order_ok:
  assumes ok: "pmm_ok E s L B" and post: "alloc_post i k s L s' L'"
  shows "pmm_ok E s' L' B"
proof -
  have i: "blk i k \<subseteq> covered (blocks L)" and cov: "covered (blocks L') = covered (blocks L) - blk i k"
    and pp: "pool_part s' = pool_part s" and inv: "pmm_inv s' L'"
    using post by (auto simp: alloc_post_def)
  have "boot_inv E s' B"
  proof (rule boot_inv_frame [OF pmm_okD(2) [OF ok] pp])
    fix b assume b: "b \<in> set B"
    then obtain idx where idx: "pool_index E b = Some idx"
      using pool_frames_index [OF pmm_okD(2) [OF ok], of b] by (auto simp: pool_frames_def)
    from b have "PAGE_SIZE dvd b"
      using pmm_okD(1,2) [OF ok] pool_page_aligned by (auto simp: boot_inv_def)
    then obtain j where j: "b = j * PAGE_SIZE" by (auto simp: dvd_def mult.commute)
    then have "j \<notin> blk i k" using i pmm_okD(4) [OF ok, of j] idx by auto
    then have "\<not> (i * PAGE_SIZE \<le> b \<and> b < (i + 2 ^ k) * PAGE_SIZE)"
      unfolding j by (auto simp: blk_def simp del: add_mult_distrib)
    then show "mem s' b = mem s b" using post by (auto simp: alloc_post_def)
  qed
  moreover have "pi_ready s'" "pi_once s'"
    using pmm_inv_ready [OF inv] pmm_okD(3) [OF ok] pp
      pmm_inv_ready [OF buddy_ok_blocks [OF pmm_okD(3) [OF ok], of i]] i
    by (auto simp: buddy_ok_def pool_part_def subset_iff)
  ultimately show ?thesis
    using pmm_okD [OF ok] inv by (auto simp: pmm_ok_def cov buddy_ok_def)
qed

lemma free_tail_spec:
  assumes "pmm_ok E s L B" "pi_ready s" "distinct js"
    "\<forall>j \<in> set js. 0 < i + j \<and> i + j < pi_len s \<and> i + j \<notin> covered (blocks L) \<and>
       pool_index E ((i + j) * PAGE_SIZE) = None \<and> \<not> is_kernel_page E ((i + j) * PAGE_SIZE)"
  shows "\<exists>L'. pmm_ok E (free_tail (i * PAGE_SIZE) js s) L' B \<and>
    covered (blocks L') \<subseteq> covered (blocks L) \<union> (+) i ` set js \<and>
    (\<forall>x. x \<notin> (+) i ` set js \<longrightarrow> refs (free_tail (i * PAGE_SIZE) js s) x = refs s x)"
  using assms
proof (induction js arbitrary: s L)
  case Nil
  then show ?case by auto
next
  case (Cons j js)
  let ?s1 = "buddy_free_page ((i + j) * PAGE_SIZE) s"
  have inv: "pmm_inv s L" using pmm_okD(3) [OF Cons.prems(1)] Cons.prems(2) by (simp add: buddy_ok_def)
  have j: "0 < i + j" "i + j < pi_len s" "i + j \<notin> covered (blocks L)"
    "pool_index E ((i + j) * PAGE_SIZE) = None" "\<not> is_kernel_page E ((i + j) * PAGE_SIZE)"
    using Cons.prems(4) by auto
  obtain L1 where post: "free_post (pi_numa_node (pinfo s (i + j))) (i + j) s L ?s1 L1"
    using buddy_free_page_spec [OF inv j(1-3)] by blast
  note ok1 = free_post_ok(1) [OF Cons.prems(1) post Cons.prems(2) j(4,5)]
  have p: "pmm_inv ?s1 L1" "covered (blocks L1) \<subseteq> insert (i + j) (covered (blocks L))"
    "refs ?s1 = (refs s)(i + j := 0)" "pi_len ?s1 = pi_len s"
    using post by (auto simp: free_post_def)
  have "\<forall>x \<in> set js. 0 < i + x \<and> i + x < pi_len ?s1 \<and> i + x \<notin> covered (blocks L1) \<and>
       pool_index E ((i + x) * PAGE_SIZE) = None \<and> \<not> is_kernel_page E ((i + x) * PAGE_SIZE)"
    using Cons.prems(3,4) p(2,4) by auto
  from Cons.IH [OF ok1 pmm_inv_ready [OF p(1)] _ this] Cons.prems(3)
  obtain L' where IH: "pmm_ok E (free_tail (i * PAGE_SIZE) js ?s1) L' B"
    "covered (blocks L') \<subseteq> covered (blocks L1) \<union> (+) i ` set js"
    "\<forall>x. x \<notin> (+) i ` set js \<longrightarrow> refs (free_tail (i * PAGE_SIZE) js ?s1) x = refs ?s1 x"
    by auto
  have step: "free_tail (i * PAGE_SIZE) (j # js) s = free_tail (i * PAGE_SIZE) js ?s1"
    by (simp add: algebra_simps)
  show ?case unfolding step using IH p by (intro exI [of _ L']) auto
qed

definition contig_post ::
  "platform \<Rightarrow> nat \<Rightarrow> nat \<Rightarrow> pmm \<Rightarrow> (nat \<Rightarrow> nat \<Rightarrow> nat list) \<Rightarrow> nat list \<Rightarrow> pmm \<Rightarrow> (nat \<Rightarrow> nat \<Rightarrow> nat list) \<Rightarrow> bool" where
  "contig_post E i n s L B s' L' \<longleftrightarrow>
     pmm_ok E s' L' B \<and> {i ..< i + n} \<subseteq> covered (blocks L) \<and>
     covered (blocks L') \<subseteq> covered (blocks L) - {i ..< i + n} \<and>
     (\<forall>j \<in> {i ..< i + n}. refs s' j = 1)"

lemma contig_alloc_block:
  assumes ok: "pmm_ok E s L B" and post: "alloc_post i k s L s1 L1" and n: "n \<le> 2 ^ k"
  shows "\<exists>L'. contig_post E i n s L B (free_tail (i * PAGE_SIZE) [n..<2 ^ k] s1) L'"
proof -
  have ok1: "pmm_ok E s1 L1 B" by (rule alloc_post_order_ok [OF ok post])
  have p: "blk i k \<subseteq> covered (blocks L)" "covered (blocks L1) = covered (blocks L) - blk i k"
    "block_ok (pi_len s1) k i" "\<forall>j \<in> blk i k. refs s1 j = 1" "pmm_inv s1 L1"
    using post by (auto simp: alloc_post_def)
  have "\<forall>j \<in> set [n..<2 ^ k]. 0 < i + j \<and> i + j < pi_len s1 \<and> i + j \<notin> covered (blocks L1) \<and>
       pool_index E ((i + j) * PAGE_SIZE) = None \<and> \<not> is_kernel_page E ((i + j) * PAGE_SIZE)"
  proof
    fix j assume "j \<in> set [n..<2 ^ k]"
    then have ij: "i + j \<in> blk i k" by (simp add: blk_def)
    then have "i + j \<in> covered (blocks L)" using p(1) by blast
    with ij show "0 < i + j \<and> i + j < pi_len s1 \<and> i + j \<notin> covered (blocks L1) \<and>
       pool_index E ((i + j) * PAGE_SIZE) = None \<and> \<not> is_kernel_page E ((i + j) * PAGE_SIZE)"
      using p(1-3) pmm_okD(4,5) [OF ok, of "i + j"] by (auto simp: blk_def block_ok_def)
  qed
  from free_tail_spec [OF ok1 pmm_inv_ready [OF p(5)] _ this]
  obtain L' where fin: "pmm_ok E (free_tail (i * PAGE_SIZE) [n..<2 ^ k] s1) L' B"
    "covered (blocks L') \<subseteq> covered (blocks L1) \<union> (+) i ` set [n..<2 ^ k]"
    "\<forall>x. x \<notin> (+) i ` set [n..<2 ^ k] \<longrightarrow> refs (free_tail (i * PAGE_SIZE) [n..<2 ^ k] s1) x = refs s1 x"
    by auto
  have sub: "{i ..< i + n} \<subseteq> blk i k" using n by (auto simp: blk_def)
  have tail: "(+) i ` set [n..<2 ^ k] = blk i k - {i ..< i + n}"
    by (auto simp: blk_def image_iff intro: bexI [of _ "_ - i"])
  have "{i ..< i + n} \<subseteq> covered (blocks L)" using sub p(1) by (rule subset_trans)
  moreover have "covered (blocks L') \<subseteq> covered (blocks L) - {i ..< i + n}"
    using fin(2) p(1,2) sub unfolding tail by auto
  moreover have "\<forall>j \<in> {i ..< i + n}. refs (free_tail (i * PAGE_SIZE) [n..<2 ^ k] s1) j = 1"
    using fin(3) p(4) sub unfolding tail by auto
  ultimately show ?thesis unfolding contig_post_def using fin(1) by blast
qed

lemma buddy_alloc_order_none:
  "(\<And>k. free_lists s n k = None) \<Longrightarrow> buddy_alloc_order_from n k ts s = (0, s)"
  by (induction ts) (simp_all add: buddy_pop_def)

lemma buddy_alloc_order_node_ok:
  assumes "buddy_ok s L" "buddy_alloc_order_node n k s = (pa, s')"
  shows "(pa = 0 \<longrightarrow> s' = s)
    \<and> (pa \<noteq> 0 \<longrightarrow> (\<exists>i L'. pa = i * PAGE_SIZE \<and> alloc_post i k s L s' L'))"
proof (cases "pi_ready s")
  case True
  then have "pmm_inv s L" using assms(1) by (simp add: buddy_ok_def)
  then show ?thesis by (rule buddy_alloc_order_node_spec [OF _ assms(2)])
next
  case False
  then show ?thesis using assms
    by (auto simp: buddy_ok_def buddy_alloc_order_node_def buddy_alloc_order_none split: if_splits)
qed

lemma contig_try_nodes_spec:
  assumes ok: "pmm_ok E s L B" and n: "n \<le> 2 ^ k" and run: "contig_try_nodes n k p N is s = (r, s')"
  shows "(r = None \<longrightarrow> s' = s) \<and>
    (\<forall>pa. r = Some pa \<longrightarrow> (\<exists>i L'. pa = i * PAGE_SIZE \<and> contig_post E i n s L B s' L'))"
  using run
proof (induction "is")
  case (Cons x "is")
  obtain q s1 where q: "buddy_alloc_order_node ((p + x) mod N) k s = (q, s1)" by (metis surj_pair)
  note spec = buddy_alloc_order_node_ok [OF pmm_okD(3) [OF ok] q]
  show ?case
  proof (cases "q = 0")
    case True
    then show ?thesis using Cons spec q by simp
  next
    case False
    with spec obtain i L1 where i: "q = i * PAGE_SIZE" "alloc_post i k s L s1 L1" by auto
    from contig_alloc_block [OF ok i(2) n] Cons.prems q False i(1) show ?thesis by auto
  qed
qed simp

subsection \<open>The contract of a frame allocator\<close>

text \<open>
  \<open>frames s F\<close> relates a state to the set of frames that are free in it. A source of frames
  hands out free frames only; an allocator also takes frames back, and a release adds no
  frame but the one released.
\<close>

fun alloc_seq :: "('s \<Rightarrow> 'a option \<times> 's) \<Rightarrow> nat \<Rightarrow> 's \<Rightarrow> 'a list option \<times> 's" where
  "alloc_seq alloc 0 s = (Some [], s)"
| "alloc_seq alloc (Suc n) s =
     (case alloc s of
        (None, s1) \<Rightarrow> (None, s1)
      | (Some p, s1) \<Rightarrow>
          (case alloc_seq alloc n s1 of
             (None, s2) \<Rightarrow> (None, s2)
           | (Some ps, s2) \<Rightarrow> (Some (p # ps), s2)))"

text \<open>A run of a client: it allocates, and releases frames it holds. \<open>H\<close> is what it holds.\<close>

inductive client_run ::
  "('s \<Rightarrow> 'a option \<times> 's) \<Rightarrow> ('a \<Rightarrow> 's \<Rightarrow> 's option) \<Rightarrow> 's \<Rightarrow> 's \<Rightarrow> 'a set \<Rightarrow> bool"
  for alloc release s0 where
  run_start: "client_run alloc release s0 s0 {}"
| run_alloc: "client_run alloc release s0 s H \<Longrightarrow> alloc s = (Some p, s') \<Longrightarrow>
    client_run alloc release s0 s' (insert p H)"
| run_full: "client_run alloc release s0 s H \<Longrightarrow> alloc s = (None, s') \<Longrightarrow> client_run alloc release s0 s' H"
| run_release: "client_run alloc release s0 s H \<Longrightarrow> p \<in> H \<Longrightarrow> release p s = Some s' \<Longrightarrow>
    client_run alloc release s0 s' (H - {p})"

locale frame_source =
  fixes alloc :: "'s \<Rightarrow> 'a option \<times> 's" and frames :: "'s \<Rightarrow> 'a set \<Rightarrow> bool"
  assumes alloc_some: "frames s F \<Longrightarrow> alloc s = (Some p, s') \<Longrightarrow> p \<in> F \<and> frames s' (F - {p})"
    and alloc_none: "frames s F \<Longrightarrow> alloc s = (None, s') \<Longrightarrow> frames s' F"
begin

lemma seq_frames:
  "frames s F \<Longrightarrow> alloc_seq alloc n s = (Some ps, s') \<Longrightarrow>
   length ps = n \<and> distinct ps \<and> set ps \<subseteq> F \<and> frames s' (F - set ps)"
proof (induction n arbitrary: s F ps)
  case 0
  then show ?case by auto
next
  case (Suc n)
  obtain p s1 qs where p: "alloc s = (Some p, s1)" "alloc_seq alloc n s1 = (Some qs, s')" "ps = p # qs"
    using Suc.prems(2) by (auto split: prod.splits option.splits)
  note a = alloc_some [OF Suc.prems(1) p(1)]
  have "length qs = n \<and> distinct qs \<and> set qs \<subseteq> F - {p} \<and> frames s' (F - {p} - set qs)"
    using Suc.IH [OF _ p(2)] a by blast
  moreover have "F - {p} - set qs = F - set ps" using p(3) by auto
  ultimately show ?case using a p(3) by auto
qed

end

locale frame_allocator = frame_source alloc frames
  for alloc :: "'s \<Rightarrow> 'a option \<times> 's" and frames :: "'s \<Rightarrow> 'a set \<Rightarrow> bool" +
  fixes release :: "'a \<Rightarrow> 's \<Rightarrow> 's option"
  assumes release_some: "frames s F \<Longrightarrow> p \<notin> F \<Longrightarrow> release p s = Some s' \<Longrightarrow>
    \<exists>F'. frames s' F' \<and> F' \<subseteq> insert p F"
begin

lemma run_disjoint:
  assumes "client_run alloc release s0 s H" "frames s0 F0"
  shows "\<exists>F. frames s F \<and> F \<inter> H = {}"
  using assms
proof (induction rule: client_run.induct)
  case run_start
  then show ?case by auto
next
  case (run_alloc s H p s')
  then obtain F where "frames s F" "F \<inter> H = {}" by blast
  with alloc_some [OF this(1) run_alloc.hyps(2)] show ?case
    by (intro exI [of _ "F - {p}"]) auto
next
  case (run_full s H s')
  then show ?case using alloc_none by blast
next
  case (run_release s H p s')
  then obtain F where F: "frames s F" "F \<inter> H = {}" by blast
  with run_release.hyps(2) have "p \<notin> F" by auto
  from release_some [OF F(1) this run_release.hyps(3)] obtain F' where "frames s' F'" "F' \<subseteq> insert p F"
    by blast
  then show ?case using F(2) by (intro exI [of _ F']) auto
qed

lemma run_fresh:
  assumes "client_run alloc release s0 s H" "frames s0 F0" "alloc s = (Some p, s')"
  shows "p \<notin> H"
proof -
  obtain F where "frames s F" "F \<inter> H = {}" using run_disjoint [OF assms(1,2)] by blast
  then show ?thesis using alloc_some [OF _ assms(3)] by blast
qed

end

definition pmm_frames :: "platform \<Rightarrow> pmm \<Rightarrow> nat set \<Rightarrow> bool" where
  "pmm_frames E s F \<longleftrightarrow> (\<exists>L B. pmm_ok E s L B \<and> F = free_frames E s L B)"

interpretation pg: frame_allocator "alloc_page E" "pmm_frames E" "free_page E" for E
proof
  show "p \<in> F \<and> pmm_frames E s' (F - {p})" if "pmm_frames E s F" "alloc_page E s = (Some p, s')" for s F p s'
    using that alloc_page_spec unfolding pmm_frames_def by fastforce
  show "pmm_frames E s' F" if "pmm_frames E s F" "alloc_page E s = (None, s')" for s F s'
    using that alloc_page_spec unfolding pmm_frames_def by fastforce
  show "\<exists>F'. pmm_frames E s' F' \<and> F' \<subseteq> insert p F"
    if "pmm_frames E s F" "p \<notin> F" "free_page E p s = Some s'" for s F p s'
    using that free_page_spec unfolding pmm_frames_def by blast
qed

lemma owned_frame_free:
  assumes ok: "pmm_ok E s L B" and own: "owned_frame E s pa" and k: "\<not> is_kernel_page E pa"
    and out: "pa \<notin> free_frames E s L B"
  shows "\<exists>s' L' B'. free_page E pa s = Some s' \<and> pmm_ok E s' L' B' \<and> pa \<in> free_frames E s' L' B' \<and>
    free_frames E s' L' B' \<subseteq> insert pa (free_frames E s L B) \<and>
    ((\<forall>n. short L n) \<longrightarrow> free_frames E s' L' B' = insert pa (free_frames E s L B))"
  using own unfolding owned_frame_def
proof (elim disjE exE conjE)
  fix i assume i: "page_info s pa = Some i" "refs s i = 1" "pool_index E pa = None"
  note pi = page_info_SomeD [OF i(1)]
  obtain s' where run: "free_page E pa s = Some s'"
    using i pi k by (auto simp: free_page_def Let_def refs_def page_aligned_Suc)
  have "i \<notin> covered (blocks L)" using out pi(1) by (auto simp: free_frames_def)
  from free_page_buddy [OF ok i(1,3) this run] i(2) run show ?thesis by (metis (full_types))
next
  fix idx assume idx: "idx < bump s" "pa = pool_page E idx" "\<not> pool_bit s idx"
  have lt: "idx < POOL_PAGES" using idx(1) pmm_okD(2) [OF ok] by (simp add: boot_inv_def)
  obtain good s1 where s1: "pool_bit_set_free idx s = (good, s1)" by (metis surj_pair)
  have good: "good" using pool_bit_set_free_spec [OF s1] idx(3) by simp
  have "PAGE_SIZE dvd pa" using pool_page_aligned [OF pmm_okD(1) [OF ok]] idx(2) by simp
  then have run: "free_page E pa s = Some (boot_push pa (zero_page pa s1))"
    using pool_page_pos [OF pmm_okD(1) [OF ok], of idx] k lt s1 good idx(2)
    by (simp add: free_page_def pool_index_page page_aligned_Suc)
  from free_page_pool [OF ok idx(1)] run idx(2) show ?thesis by blast
qed

lemma alloc_pages_boot_seq: "alloc_pages_boot E n s = alloc_seq (alloc_page E) n s"
  by (induction n arbitrary: s) (simp_all split: prod.split option.split)

lemma pmm_ok_set_ref:
  assumes ok: "pmm_ok E s L B" and "pi_ready s" "i \<notin> covered (blocks L)"
  shows "pmm_ok E (upd_pi i (\<lambda>p. p\<lparr>pi_refcount := r\<rparr>) s) L B"
proof -
  let ?s = "upd_pi i (\<lambda>p. p\<lparr>pi_refcount := r\<rparr>) s"
  have "pmm_inv ?s L" by (rule pmm_inv_set_ref) (use assms pmm_okD(3) in \<open>auto simp: buddy_ok_def\<close>)
  then show ?thesis using ok assms(2) boot_inv_frame [OF pmm_okD(2) [OF ok], of ?s]
    by (auto simp: pmm_ok_def buddy_ok_def upd_pi_def pool_part_def)
qed

subsection \<open>A small machine\<close>

text \<open>A platform with three usable pages, at which the properties below are evaluated.\<close>

definition demo_platform :: platform where
  "demo_platform = \<lparr>pool_base = 0x100000, kernel_start_pa = 0x800000, kernel_end_pa = 0x900000, local_node = 0\<rparr>"

definition demo_map :: "region list" where
  "demo_map = [\<lparr>r_start = 0x1000, r_length = 0x3000, r_kind = Usable\<rparr>,
     \<lparr>r_start = 0x800000, r_length = 0x100000, r_kind = KernelImage\<rparr>]"

lemma demo_platform_ok: "platform_ok demo_platform"
  by (simp add: platform_ok_def demo_platform_def PAGE_SIZE_def)

lemma demo_map_ok: "map_ok demo_platform pmm_boot (\<lambda>_ _. []) demo_map"
proof -
  have "pool_index demo_platform (j * PAGE_SIZE) = None" if "(j + 1) * PAGE_SIZE \<le> 0x4000" for j
    using that by (simp add: pool_index_def demo_platform_def PAGE_SIZE_def)
  moreover have "blocks (\<lambda>_ _. []) = {}" by (rule blocks_empty) simp
  ultimately show ?thesis
    by (auto simp: map_ok_def demo_map_def region_is_usable_def region_fits_def region_apart_def covered_def
        pmm_boot_def PAGE_SIZE_def pfn_def MAX_FRAMES_def MAX_PA_def table_pages_def page_info_bytes_def POOL_PAGES_def)
qed

definition demo_pmm :: pmm where
  "demo_pmm = (case init_from_regions demo_platform demo_map pmm_boot of Some s \<Rightarrow> s | None \<Rightarrow> pmm_boot)"

lemmas demo_defs = demo_pmm_def demo_platform_def demo_map_def region_is_usable_def pmm_add_region_def
  pmm_add_region_node_def pmm_boot_def wadd_def usize_not_def usize_max_def PAGE_SIZE_def pfn_def
  MAX_FRAMES_def MAX_PA_def ensure_page_info_table_def page_info_bytes_def POOL_PAGES_def zero_range_def
  pool_index_def pool_bit_set_free_def register_node_range_def MAX_NODES_def is_kernel_page_def
  page_info_def upd_pi_def buddy_push_def add_free_def set_list_def zero_page_def page_info_zero_def
  FLAG_FREE_def FLAG_BUDDY_def MAX_ORDER_def

lemma demo_lists:
  "free_lists demo_pmm 0 0 = Some 3" "pi_free_next (pinfo demo_pmm 3) = Some 2"
  "pi_free_next (pinfo demo_pmm 2) = Some 1" "bump demo_pmm = 1"
  "node_count demo_pmm = 1" "buddy_live demo_pmm" "pi_ready demo_pmm" "pi_len demo_pmm = 4"
  by (simp_all add: demo_defs add_region_loop.simps Let_def)

lemma demo_pmm_init: "init_from_regions demo_platform demo_map pmm_boot = Some demo_pmm"
  using init_from_regions_spec [OF pmm_boot_ok [OF demo_platform_ok] demo_map_ok]
  by (auto simp: demo_pmm_def)

lemma demo_pmm_ok: "\<exists>L. pmm_ok demo_platform demo_pmm L []"
  using init_from_regions_spec [OF pmm_boot_ok [OF demo_platform_ok] demo_map_ok] demo_pmm_init by auto

lemma demo_alloc:
  "fst (alloc_page demo_platform demo_pmm) = Some 0x3000"
  "fst (alloc_page demo_platform (snd (alloc_page demo_platform demo_pmm))) = Some 0x2000"
  by (simp_all add: alloc_page_def demo_lists buddy_alloc_node_def buddy_pop_def buddy_unlink_def
      set_list_def upd_pi_def add_free_def pi_to_pa_def page_info_def PAGE_SIZE_def MAX_ORDER_def
      upt_rec pfn_def zero_range_def Let_def demo_platform_def pi_claim_def
      split: prod.split option.split)

subsection \<open>Properties\<close>

text \<open>
  C1. From boot, after the memory map has been added, whatever sequence of \<open>alloc_page\<close> and
  \<open>free_page\<close> calls a client makes (releasing only frames it holds), \<open>alloc_page\<close> never
  returns a frame that is already held.
\<close>

theorem alloc_page_fresh:
  assumes "platform_ok E" "map_ok E pmm_boot (\<lambda>_ _. []) rs" "init_from_regions E rs pmm_boot = Some s0"
    "client_run (alloc_page E) (free_page E) s0 s H" "alloc_page E s = (Some p, s')"
  shows "p \<notin> H"
proof -
  have "\<exists>F0. pmm_frames E s0 F0"
    using init_from_regions_spec [OF pmm_boot_ok [OF assms(1)] assms(2)] assms(3)
    unfolding pmm_frames_def by auto
  then show ?thesis using pg.run_fresh [OF assms(4) _ assms(5)] by blast
qed

theorem alloc_page_fresh_witness:
  "\<exists>s1 s2. alloc_page demo_platform demo_pmm = (Some 0x3000, s1) \<and>
     alloc_page demo_platform s1 = (Some 0x2000, s2) \<and> (0x2000 :: nat) \<notin> {0x3000}"
proof -
  obtain s1 s2 where s: "alloc_page demo_platform demo_pmm = (Some 0x3000, s1)"
    "alloc_page demo_platform s1 = (Some 0x2000, s2)"
    using demo_alloc by (metis prod.collapse snd_conv)
  have "client_run (alloc_page demo_platform) (free_page demo_platform) demo_pmm s1 {0x3000}"
    using run_alloc [where alloc = "alloc_page demo_platform", OF run_start s(1)] by simp
  from alloc_page_fresh [OF demo_platform_ok demo_map_ok demo_pmm_init this s(2)] s
  show ?thesis by blast
qed

text \<open>
  C2. A frame returned by \<open>alloc_page\<close> can be released at once: unless it lies in the kernel
  image, \<open>free_page\<close> does not panic, the frame is free again, no other frame changes hands,
  and as long as no free list exceeds the 256 entries the removal array holds the set of
  free frames is exactly the one before the allocation.
\<close>

theorem alloc_free_roundtrip:
  assumes "pmm_ok E s L B" "alloc_page E s = (Some pa, s1)" "\<not> is_kernel_page E pa"
  shows "\<exists>s2 L1 B1 L2 B2. free_page E pa s1 = Some s2 \<and> pmm_ok E s1 L1 B1 \<and> pmm_ok E s2 L2 B2 \<and>
    pa \<in> free_frames E s2 L2 B2 \<and> free_frames E s2 L2 B2 \<subseteq> free_frames E s L B \<and>
    ((\<forall>n. short L1 n) \<longrightarrow> free_frames E s2 L2 B2 = free_frames E s L B)"
proof -
  from alloc_page_spec [OF assms(1,2)] obtain L1 B1 where
    ok1: "pmm_ok E s1 L1 B1" and pa: "pa \<in> free_frames E s L B"
    and ff: "free_frames E s1 L1 B1 = free_frames E s L B - {pa}" and own: "owned_frame E s1 pa" by auto
  from owned_frame_free [OF ok1 own assms(3)] ff obtain s2 L2 B2 where
    "free_page E pa s1 = Some s2" "pmm_ok E s2 L2 B2" "pa \<in> free_frames E s2 L2 B2"
    "free_frames E s2 L2 B2 \<subseteq> insert pa (free_frames E s1 L1 B1)"
    "(\<forall>n. short L1 n) \<longrightarrow> free_frames E s2 L2 B2 = insert pa (free_frames E s1 L1 B1)" by auto
  moreover have "insert pa (free_frames E s1 L1 B1) = free_frames E s L B" using ff pa by auto
  ultimately show ?thesis using ok1 by metis
qed

theorem alloc_free_roundtrip_witness:
  "\<exists>L s1 s2 L2 B2. pmm_ok demo_platform demo_pmm L [] \<and> alloc_page demo_platform demo_pmm = (Some 0x3000, s1) \<and>
     free_page demo_platform 0x3000 s1 = Some s2 \<and> pmm_ok demo_platform s2 L2 B2 \<and>
     0x3000 \<in> free_frames demo_platform s2 L2 B2"
proof -
  obtain L where L: "pmm_ok demo_platform demo_pmm L []" using demo_pmm_ok by blast
  obtain s1 where s1: "alloc_page demo_platform demo_pmm = (Some 0x3000, s1)"
    using demo_alloc(1) by (metis prod.collapse)
  have "\<not> is_kernel_page demo_platform 0x3000" by (simp add: is_kernel_page_def demo_platform_def)
  from alloc_free_roundtrip [OF L s1 this] L s1 show ?thesis by blast
qed

text \<open>
  C3. Releasing a frame that is already free is caught: \<open>free_page\<close> panics on every free
  frame, except the pages of the pool that have never been handed out.
\<close>

theorem free_page_double_free:
  assumes "pmm_ok E s L B" "pa \<in> free_frames E s L B" "\<forall>idx. bump s \<le> idx \<longrightarrow> pa \<noteq> pool_page E idx"
  shows "free_page E pa s = None"
proof (cases "pa \<in> set B")
  case True
  with pmm_okD(2) [OF assms(1)] obtain idx where idx: "idx < bump s" "pa = pool_page E idx" "pool_bit s idx"
    by (auto simp: boot_inv_def)
  have lt: "idx < POOL_PAGES" using idx(1) pmm_okD(2) [OF assms(1)] by (simp add: boot_inv_def)
  obtain good s1 where s1: "pool_bit_set_free idx s = (good, s1)" by (metis surj_pair)
  have "\<not> good" using pool_bit_set_free_spec [OF s1] idx(3) by simp
  then show ?thesis using idx(2) lt s1 pool_page_pos [OF pmm_okD(1) [OF assms(1)], of idx]
    by (simp add: free_page_def pool_index_page)
next
  case False
  then obtain i where i: "i \<in> covered (blocks L)" "pa = i * PAGE_SIZE"
    using assms(2,3) by (auto simp: free_frames_def pool_frames_def)
  have inv: "pmm_inv s L" by (rule buddy_ok_blocks [OF pmm_okD(3) [OF assms(1)] i(1)])
  obtain n k b where "block_ok (pi_len s) k b" "i \<in> blk b k"
    using i(1) blocks_wf_okD [OF pmm_inv_wf [OF inv]] unfolding covered_iff by blast
  then have "page_info s pa = Some i"
    using i(2) pmm_inv_ready [OF inv] by (simp add: page_info_pa blk_def block_ok_def)
  moreover have "refs s i = 0" using pmm_inv_ref0 [OF inv] i(1) by blast
  moreover have "pa \<noteq> 0" using page_info_SomeD(2) [OF \<open>page_info s pa = Some i\<close>] i(2) by simp
  ultimately show ?thesis using pmm_okD(4) [OF assms(1) i(1)] i(2)
    by (simp add: free_page_def refs_def Let_def)
qed

lemma demo_free_list:
  assumes "pmm_ok demo_platform demo_pmm L []"
  shows "3 \<in> covered (blocks L)"
proof -
  have "pmm_inv demo_pmm L" using pmm_okD(3) [OF assms] demo_lists by (simp add: buddy_ok_def)
  then have "chain (pi_link demo_pmm) (Some 3) (L 0 0)"
    using pmm_inv_chain [of demo_pmm L 0 0] demo_lists(1) by simp
  then have "3 \<in> set (L 0 0)" by (cases "L 0 0") auto
  then have "(0, 0, 3) \<in> blocks L" by simp
  then show ?thesis by (rule covered_blockI) simp
qed

theorem free_page_double_free_witness:
  "\<exists>L. pmm_ok demo_platform demo_pmm L [] \<and> 0x3000 \<in> free_frames demo_platform demo_pmm L [] \<and>
     free_page demo_platform 0x3000 demo_pmm = None"
proof -
  obtain L where L: "pmm_ok demo_platform demo_pmm L []" using demo_pmm_ok by blast
  have "0x3000 = 3 * PAGE_SIZE" by (simp add: PAGE_SIZE_def)
  then have mem: "0x3000 \<in> free_frames demo_platform demo_pmm L []"
    using demo_free_list [OF L] unfolding free_frames_def by blast
  have "\<forall>idx. bump demo_pmm \<le> idx \<longrightarrow> 0x3000 \<noteq> pool_page demo_platform idx"
    by (simp add: pool_page_def demo_platform_def)
  from free_page_double_free [OF L mem this] L mem show ?thesis by blast
qed

text \<open>
  C4. Adding the memory map of the boot loader never panics when the first region's table
  fits the pool, keeps the invariant, and makes free exactly the whole pages of the usable
  regions, other than page 0, the kernel image and the frames beyond the table of page
  records, which is sized by the first region that has a page.
\<close>

theorem init_from_regions_frames:
  assumes "platform_ok E" "map_ok E pmm_boot (\<lambda>_ _. []) rs"
  shows "\<exists>s L. init_from_regions E rs pmm_boot = Some s \<and> pmm_ok E s L [] \<and>
    covered (blocks L) = map_frames E (pi_len s) rs"
proof -
  have "covered (blocks (\<lambda>_ _. [])) = {}" using blocks_empty [of "\<lambda>_ _. []"] by (simp add: covered_def)
  then show ?thesis using init_from_regions_spec [OF pmm_boot_ok [OF assms(1)] assms(2)] by auto
qed

theorem init_from_regions_frames_witness:
  "map_ok demo_platform pmm_boot (\<lambda>_ _. []) demo_map \<and>
   (\<exists>L. pmm_ok demo_platform demo_pmm L [] \<and> covered (blocks L) = {1, 2, 3})"
proof -
  have "map_frames demo_platform 4 demo_map = {1, 2, 3}"
    by (auto simp: map_frames_def demo_map_def region_is_usable_def region_frames_def PAGE_SIZE_def
        is_kernel_page_def demo_platform_def)
  then show ?thesis
    using init_from_regions_frames [OF demo_platform_ok demo_map_ok] demo_map_ok demo_pmm_init demo_lists(8)
    by auto
qed

text \<open>
  C5. Once the buddy allocator is live, a successful \<open>alloc_pages_contig\<close> of two or more
  pages returns a run of that many consecutive frames that were all free, each with
  reference count 1, none of them still free, and nothing else becomes free; a failure
  changes nothing.
\<close>

theorem alloc_pages_contig_run:
  assumes "pmm_ok E s L B" "buddy_live s" "2 \<le> n" "alloc_pages_contig E n s = (r, s')"
  shows "case r of
      None \<Rightarrow> s' = s
    | Some pa \<Rightarrow> \<exists>i L'. pa = i * PAGE_SIZE \<and> pmm_ok E s' L' B \<and> {i ..< i + n} \<subseteq> covered (blocks L) \<and>
        covered (blocks L') \<subseteq> covered (blocks L) - {i ..< i + n} \<and> (\<forall>j \<in> {i ..< i + n}. refs s' j = 1)"
proof (cases "contig_order n 0 \<ge> MAX_ORDER")
  case True
  then show ?thesis using assms(2-4) by (auto simp: alloc_pages_contig_def Let_def)
next
  case False
  then have "contig_try_nodes n (contig_order n 0) (local_node E) (max (node_count s) 1)
      [0..<max (node_count s) 1] s = (r, s')"
    using assms(2-4) by (simp add: alloc_pages_contig_def Let_def)
  from contig_try_nodes_spec [OF assms(1) contig_order_le this]
  show ?thesis unfolding contig_post_def by (auto split: option.split)
qed

definition demo_merged :: pmm where
  "demo_merged =
     (case free_page demo_platform 0x3000 (snd (alloc_page demo_platform demo_pmm)) of
        Some s \<Rightarrow> s | None \<Rightarrow> demo_pmm)"

lemmas demo_eval = alloc_page_def buddy_alloc_node_def buddy_pop_def buddy_unlink_def
  pi_to_pa_def pi_claim_def free_page_def buddy_free_page_def buddy_merge.simps buddy_pa_def
  order_size_def is_aligned_def buddy_remove_def buddy_remove_loop.simps POPPED_LEN_def
  alloc_pages_contig_def contig_order.simps buddy_alloc_order_node_def

lemma demo_merged_eval:
  "free_page demo_platform 0x3000 (snd (alloc_page demo_platform demo_pmm)) = Some demo_merged"
  "fst (alloc_pages_contig demo_platform 2 demo_merged) = Some 0x2000" "buddy_live demo_merged"
  by (simp_all add: demo_merged_def demo_eval demo_defs add_region_loop.simps Let_def upt_rec)

lemma demo_merged_ok: "\<exists>L B. pmm_ok demo_platform demo_merged L B"
proof -
  obtain L where L: "pmm_ok demo_platform demo_pmm L []" using demo_pmm_ok by blast
  obtain s1 where s1: "alloc_page demo_platform demo_pmm = (Some 0x3000, s1)"
    using demo_alloc(1) by (metis prod.collapse)
  from alloc_page_spec [OF L s1] obtain L1 B1 where ok1: "pmm_ok demo_platform s1 L1 B1"
    "0x3000 \<notin> free_frames demo_platform s1 L1 B1" by auto
  have "free_page demo_platform 0x3000 s1 = Some demo_merged" using demo_merged_eval(1) s1 by simp
  from free_page_spec [OF ok1 this] show ?thesis by blast
qed

theorem alloc_pages_contig_run_witness:
  "\<exists>L B L' B'. pmm_ok demo_platform demo_merged L B \<and>
     alloc_pages_contig demo_platform 2 demo_merged =
       (Some 0x2000, snd (alloc_pages_contig demo_platform 2 demo_merged)) \<and>
     pmm_ok demo_platform (snd (alloc_pages_contig demo_platform 2 demo_merged)) L' B' \<and>
     {2 ..< 4} \<subseteq> covered (blocks L) \<and> {2 ..< 4} \<inter> covered (blocks L') = {}"
proof -
  obtain L B where ok: "pmm_ok demo_platform demo_merged L B" using demo_merged_ok by blast
  let ?r = "alloc_pages_contig demo_platform 2 demo_merged"
  have r: "?r = (Some 0x2000, snd ?r)" using demo_merged_eval(2) by (metis prod.collapse)
  from alloc_pages_contig_run [OF ok demo_merged_eval(3) le_refl r]
  obtain i L' where "0x2000 = i * PAGE_SIZE" "pmm_ok demo_platform (snd ?r) L' B"
    "{i ..< i + 2} \<subseteq> covered (blocks L)" "covered (blocks L') \<subseteq> covered (blocks L) - {i ..< i + 2}" by auto
  moreover from this(1) have "i = 2" by (simp add: PAGE_SIZE_def)
  ultimately have "pmm_ok demo_platform (snd ?r) L' B \<and> {2 ..< 4} \<subseteq> covered (blocks L) \<and>
    {2 ..< 4} \<inter> covered (blocks L') = {}" by auto
  then show ?thesis using ok r by blast
qed

text \<open>
  C6. A buddy page shared through \<open>get_page\<close> survives one release: the reference goes away,
  the page stays out of the free lists, and the second release frees it.
\<close>

theorem get_page_shares:
  assumes "pmm_ok E s L B" "page_info s pa = Some i" "pool_index E pa = None" "\<not> is_kernel_page E pa"
    "refs s i = 1" "pa \<notin> free_frames E s L B"
  shows "\<exists>s1 s2 L2 B2. free_page E pa (get_page pa s) = Some s1 \<and> pmm_ok E s1 L B \<and> refs s1 i = 1 \<and>
    free_frames E s1 L B = free_frames E s L B \<and>
    free_page E pa s1 = Some s2 \<and> pmm_ok E s2 L2 B2 \<and> pa \<in> free_frames E s2 L2 B2"
proof -
  note pi = page_info_SomeD [OF assms(2)]
  define s0 where "s0 = upd_pi i (\<lambda>p. p\<lparr>pi_refcount := 2\<rparr>) s"
  have get: "get_page pa s = s0"
    using assms(2,5) by (simp add: get_page_def s0_def upd_pi_def refs_def)
  have out: "i \<notin> covered (blocks L)" using assms(6) pi(1) by (auto simp: free_frames_def)
  have ok0: "pmm_ok E s0 L B" unfolding s0_def by (rule pmm_ok_set_ref [OF assms(1) pi(4) out])
  have ff0: "free_frames E s0 L B = free_frames E s L B"
    using pool_frames_frame [of s0 s] by (simp add: free_frames_def s0_def)
  have pi0: "page_info s0 pa = Some i" using pi by (simp add: page_info_pa s0_def)
  obtain s1 where s1: "free_page E pa s0 = Some s1"
    using pi assms(3,4) pi0 by (auto simp: free_page_def Let_def page_aligned_Suc s0_def)
  have r0: "refs s0 i = 2" by (simp add: s0_def refs_def)
  from free_page_buddy [OF ok0 pi0 assms(3) out s1] r0 ff0
  have ok1: "pmm_ok E s1 L B" "refs s1 i = 1" "free_frames E s1 L B = free_frames E s L B" by auto
  have "s1 = upd_pi i (\<lambda>p. p\<lparr>pi_refcount := 1\<rparr>) s0"
    using s1 pi0 assms(3,4) pi by (auto simp: free_page_def Let_def page_aligned_Suc s0_def split: if_splits)
  then have "page_info s1 pa = Some i" using pi by (simp add: page_info_pa s0_def)
  then have "owned_frame E s1 pa" using ok1(2) assms(3,4) by (auto simp: owned_frame_def)
  from owned_frame_free [OF ok1(1) this assms(4)] ok1(3) assms(6) obtain s2 L2 B2 where
    "free_page E pa s1 = Some s2" "pmm_ok E s2 L2 B2" "pa \<in> free_frames E s2 L2 B2" by auto
  then show ?thesis using get s1 ok1 by blast
qed

lemma demo_owned:
  "page_info (snd (alloc_page demo_platform demo_pmm)) 0x3000 = Some 3"
  "refs (snd (alloc_page demo_platform demo_pmm)) 3 = 1"
  "pool_index demo_platform 0x3000 = None" "\<not> is_kernel_page demo_platform 0x3000"
  by (simp_all add: refs_def demo_eval demo_defs add_region_loop.simps Let_def upt_rec)

theorem get_page_shares_witness:
  "\<exists>s1 s2. free_page demo_platform 0x3000 (get_page 0x3000 (snd (alloc_page demo_platform demo_pmm))) = Some s1 \<and>
     refs s1 3 = 1 \<and> free_page demo_platform 0x3000 s1 = Some s2"
proof -
  obtain L where L: "pmm_ok demo_platform demo_pmm L []" using demo_pmm_ok by blast
  have s1: "alloc_page demo_platform demo_pmm = (Some 0x3000, snd (alloc_page demo_platform demo_pmm))"
    using demo_alloc(1) by (metis prod.collapse)
  from alloc_page_spec [OF L s1] obtain L1 B1 where
    ok1: "pmm_ok demo_platform (snd (alloc_page demo_platform demo_pmm)) L1 B1"
      "0x3000 \<notin> free_frames demo_platform (snd (alloc_page demo_platform demo_pmm)) L1 B1" by auto
  from get_page_shares [OF ok1(1) demo_owned(1,3,4,2) ok1(2)] show ?thesis by blast
qed

text \<open>
  The reference count does not protect a page of the bootstrap pool: after \<open>get_page\<close> the
  first \<open>free_page\<close> already puts it on the free list, while the copy-on-write handler relies
  on a release only decrementing the count of a page that is still shared.
\<close>

theorem pool_page_refcount_ignored:
  assumes "pmm_ok E s L B" "idx < bump s" "\<not> pool_bit s idx" "\<not> is_kernel_page E (pool_page E idx)"
  shows "\<exists>s'. free_page E (pool_page E idx) (get_page (pool_page E idx) s) = Some s' \<and>
    boot_free_head s' = pool_page E idx"
proof -
  let ?pa = "pool_page E idx"
  let ?s = "get_page ?pa s"
  have lt: "idx < POOL_PAGES" using assms(2) pmm_okD(2) [OF assms(1)] by (simp add: boot_inv_def)
  have pb: "pool_bit ?s idx = pool_bit s idx"
    by (simp add: get_page_def pool_bit_def upd_pi_def split: option.split)
  obtain good s1 where s1: "pool_bit_set_free idx ?s = (good, s1)" by (metis surj_pair)
  have "good" using pool_bit_set_free_spec [OF s1] assms(3) pb by simp
  moreover have "PAGE_SIZE dvd ?pa" by (rule pool_page_aligned [OF pmm_okD(1) [OF assms(1)]])
  ultimately have "free_page E ?pa ?s = Some (boot_push ?pa (zero_page ?pa s1))"
    using pool_page_pos [OF pmm_okD(1) [OF assms(1)], of idx] assms(4) lt s1
    by (simp add: free_page_def pool_index_page page_aligned_Suc)
  then show ?thesis by (simp add: boot_push_def)
qed

theorem pool_page_refcount_ignored_witness:
  "\<exists>s s'. alloc_page demo_platform pmm_boot = (Some 0x100000, s) \<and>
     free_page demo_platform 0x100000 (get_page 0x100000 s) = Some s' \<and> boot_free_head s' = 0x100000"
proof -
  have run: "alloc_page demo_platform pmm_boot = (Some 0x100000, pmm_boot\<lparr>bump := 1\<rparr>)"
    by (simp add: alloc_page_def pmm_boot_def boot_alloc_def boot_pop_def POOL_PAGES_def demo_platform_def Let_def)
  from alloc_page_spec [OF pmm_boot_ok [OF demo_platform_ok] run] obtain L B where
    ok: "pmm_ok demo_platform (pmm_boot\<lparr>bump := 1\<rparr>) L B" by auto
  have pg: "pool_page demo_platform 0 = 0x100000" by (simp add: pool_page_def demo_platform_def)
  have h: "\<not> pool_bit (pmm_boot\<lparr>bump := 1\<rparr>) 0" "\<not> is_kernel_page demo_platform (pool_page demo_platform 0)"
    by (simp_all add: pool_bit_def pmm_boot_def is_kernel_page_def pool_page_def demo_platform_def)
  from pool_page_refcount_ignored [OF ok _ h] run show ?thesis unfolding pg by auto
qed

text \<open>
  \<open>alloc_page\<close> fails only when memory is exhausted: the bootstrap pool has no page left
  and, once the buddy allocator is live, no node has a free block of any order.
\<close>

theorem alloc_page_exhausted:
  assumes "pmm_ok E s L B" "alloc_page E s = (None, s')"
  shows "s' = s \<and> pool_frames E s B = {} \<and>
    (buddy_live s \<longrightarrow> (\<forall>n < max (node_count s) 1. \<forall>k < MAX_ORDER. L n k = []))"
  using alloc_page_spec [OF assms] by auto

theorem alloc_page_exhausted_witness:
  "alloc_page demo_platform (pmm_boot\<lparr>bump := POOL_PAGES\<rparr>) = (None, pmm_boot\<lparr>bump := POOL_PAGES\<rparr>) \<and>
   pool_frames demo_platform (pmm_boot\<lparr>bump := POOL_PAGES\<rparr>) [] = {}"
proof -
  have ok: "pmm_ok demo_platform (pmm_boot\<lparr>bump := POOL_PAGES\<rparr>) (\<lambda>_ _. []) []"
    using demo_platform_ok
    by (simp add: pmm_ok_def boot_inv_def buddy_ok_def pmm_boot_def boot_ptr_def covered_def blocks_def)
  have run: "alloc_page demo_platform (pmm_boot\<lparr>bump := POOL_PAGES\<rparr>) = (None, pmm_boot\<lparr>bump := POOL_PAGES\<rparr>)"
    by (simp add: alloc_page_def pmm_boot_def boot_alloc_def boot_pop_def Let_def)
  from alloc_page_exhausted [OF ok run] run show ?thesis by simp
qed

end
