(* ===== verification/Caps.thy ===== *)
theory Caps
  imports Prelude
begin

unbundle bit_operations_syntax

section \<open>Capability sets\<close>

text \<open>
  \<^verbatim>\<open>src/security/capset.rs\<close> and the free function \<open>exec_cap_transform\<close> of
  \<^verbatim>\<open>src/security/dac.rs\<close>. A capability number is a \<open>u8\<close>; the shift \<open>1u64 << cap\<close> of the
  release build uses the shift amount modulo 64.
\<close>

record CapSet =
  permitted :: u64
  effective :: u64
  inheritable :: u64

definition cap_bit :: "u8 \<Rightarrow> u64" where
  "cap_bit c = push_bit (unat c mod 64) 1"

text \<open>The constants of the module \<open>cap\<close> that the modelled code uses.\<close>

definition CAP_DAC_OVERRIDE_nr :: u8 where "CAP_DAC_OVERRIDE_nr = 1"

definition CAP_KILL_nr :: u8 where "CAP_KILL_nr = 5"

definition CAP_SYS_RAWIO :: u8 where "CAP_SYS_RAWIO = 17"

definition CAP_SYS_ADMIN_nr :: u8 where "CAP_SYS_ADMIN_nr = 21"

definition CAP_DRIVER :: u8 where "CAP_DRIVER = CAP_SYS_RAWIO"

definition capset_all :: CapSet where
  "capset_all = \<lparr>permitted = - 1, effective = - 1, inheritable = 0\<rparr>"

definition capset_empty :: CapSet where
  "capset_empty = \<lparr>permitted = 0, effective = 0, inheritable = 0\<rparr>"

definition capset_full :: CapSet where
  "capset_full = capset_all"

definition cap_has :: "CapSet \<Rightarrow> u8 \<Rightarrow> bool" where
  "cap_has s c \<longleftrightarrow> effective s AND cap_bit c \<noteq> 0"

definition cap_raise :: "u8 \<Rightarrow> CapSet \<Rightarrow> string + CapSet" where
  "cap_raise c s =
     (let b = cap_bit c in
      if permitted s AND b = 0 then Inl ''not permitted''
      else Inr (s\<lparr>effective := effective s OR b\<rparr>))"

definition drop_cap :: "u8 \<Rightarrow> CapSet \<Rightarrow> CapSet" where
  "drop_cap c s = s\<lparr>effective := effective s AND NOT (cap_bit c)\<rparr>"

definition drop_permitted :: "u8 \<Rightarrow> CapSet \<Rightarrow> CapSet" where
  "drop_permitted c s =
     (let b = NOT (cap_bit c) in
      s\<lparr>permitted := permitted s AND b, effective := effective s AND b\<rparr>)"

definition exec_transform :: "u64 \<Rightarrow> u64 \<Rightarrow> CapSet \<Rightarrow> CapSet" where
  "exec_transform file_permitted file_inheritable s =
     (let proc_permitted = permitted s;
          proc_inheritable = inheritable s;
          new_permitted = (file_permitted AND proc_permitted) OR (file_inheritable AND proc_inheritable);
          new_effective = new_permitted AND (file_permitted OR proc_inheritable);
          new_inheritable = proc_inheritable AND file_inheritable
      in \<lparr>permitted = new_permitted, effective = new_effective, inheritable = new_inheritable\<rparr>)"

definition capset_is_empty :: "CapSet \<Rightarrow> bool" where
  "capset_is_empty s \<longleftrightarrow> permitted s = 0 \<and> effective s = 0 \<and> inheritable s = 0"

definition exec_cap_transform ::
  "u64 \<Rightarrow> u64 \<Rightarrow> u64 \<Rightarrow> u64 \<Rightarrow> u64 \<Rightarrow> bool \<Rightarrow> u64 \<times> u64 \<times> u64" where
  "exec_cap_transform proc_permitted proc_effective proc_inheritable file_permitted file_inheritable fE =
     (let new_permitted = (file_permitted OR (file_inheritable AND proc_inheritable)) AND proc_permitted;
          new_effective = (if fE then new_permitted else 0);
          new_inheritable = proc_inheritable
      in (new_permitted, new_effective, new_inheritable))"

subsection \<open>Masks as sets of bits\<close>

definition mask_le :: "u64 \<Rightarrow> u64 \<Rightarrow> bool" where
  "mask_le a b \<longleftrightarrow> a AND b = a"

lemma mask_le_bits: "mask_le a b \<longleftrightarrow> (\<forall>n < 64. bit a n \<longrightarrow> bit b n)"
  by (auto simp: mask_le_def bit_eq_iff bit_and_iff)

lemma mask_eqI: "(\<And>n. n < 64 \<Longrightarrow> bit a n = bit b n) \<Longrightarrow> a = (b :: u64)"
  by (rule bit_word_eqI) simp

lemma bit_cap_bit: "bit (cap_bit c) n \<longleftrightarrow> n = unat c mod 64"
  by (auto simp: cap_bit_def bit_exp_iff)

lemma and_cap_bit: "m AND cap_bit c = 0 \<longleftrightarrow> \<not> bit m (unat c mod 64)"
proof
  assume "m AND cap_bit c = 0"
  then have "\<not> bit (m AND cap_bit c) (unat c mod 64)" by simp
  then show "\<not> bit m (unat c mod 64)" by (simp add: bit_and_iff bit_cap_bit)
next
  assume "\<not> bit m (unat c mod 64)"
  then show "m AND cap_bit c = 0" by (intro mask_eqI) (auto simp: bit_and_iff bit_cap_bit)
qed

lemma cap_has_bit: "cap_has s c \<longleftrightarrow> bit (effective s) (unat c mod 64)"
  by (simp add: cap_has_def and_cap_bit)

subsection \<open>The ceiling\<close>

definition cap_ok :: "CapSet \<Rightarrow> bool" where
  "cap_ok s \<longleftrightarrow> mask_le (effective s) (permitted s)"

datatype cap_op = Raise u8 | Drop u8 | DropPermitted u8 | Exec u64 u64

definition cap_step :: "cap_op \<Rightarrow> CapSet \<Rightarrow> CapSet" where
  "cap_step opr s =
     (case opr of
        Raise c \<Rightarrow> (case cap_raise c s of Inl e \<Rightarrow> s | Inr s' \<Rightarrow> s')
      | Drop c \<Rightarrow> drop_cap c s
      | DropPermitted c \<Rightarrow> drop_permitted c s
      | Exec fp fi \<Rightarrow> exec_transform fp fi s)"

lemma cap_step_ok: "cap_ok s \<Longrightarrow> cap_ok (cap_step opr s)"
  by (cases opr)
    (auto simp: cap_step_def cap_ok_def mask_le_bits cap_raise_def Let_def and_cap_bit drop_cap_def
      drop_permitted_def exec_transform_def bit_and_iff bit_or_iff bit_not_iff bit_cap_bit)

lemma cap_run_ok: "cap_ok s \<Longrightarrow> cap_ok (fold cap_step ops s)"
  by (induction ops arbitrary: s) (simp_all add: cap_step_ok)

text \<open>
  What a process can ever get back: the bits of the permitted and of the inheritable mask.
  No operation raises a bit that is in neither.
\<close>

definition cap_reach :: "CapSet \<Rightarrow> u64" where
  "cap_reach s = permitted s OR inheritable s"

lemma cap_step_reach: "cap_ok s \<Longrightarrow> mask_le (cap_reach (cap_step opr s)) (cap_reach s)"
  by (cases opr)
    (auto simp: cap_step_def mask_le_bits cap_reach_def cap_raise_def Let_def drop_cap_def
      drop_permitted_def exec_transform_def bit_and_iff bit_or_iff)

lemma mask_le_trans: "mask_le a b \<Longrightarrow> mask_le b c \<Longrightarrow> mask_le a c"
  by (auto simp: mask_le_bits)

lemma cap_run_reach: "cap_ok s \<Longrightarrow> mask_le (cap_reach (fold cap_step ops s)) (cap_reach s)"
proof (induction ops arbitrary: s)
  case Nil
  then show ?case by (simp add: mask_le_bits)
next
  case (Cons a ops)
  then show ?case using mask_le_trans [OF Cons.IH [OF cap_step_ok [OF Cons.prems], of a] cap_step_reach [OF Cons.prems]]
    by simp
qed

text \<open>Without \<open>execve\<close> the permitted mask alone is the ceiling.\<close>

lemma cap_step_permitted:
  "\<not> (\<exists>fp fi. opr = Exec fp fi) \<Longrightarrow> mask_le (permitted (cap_step opr s)) (permitted s)"
  by (cases opr)
    (auto simp: cap_step_def mask_le_bits cap_raise_def Let_def drop_cap_def drop_permitted_def bit_and_iff)

lemma cap_run_permitted:
  "\<forall>opr \<in> set ops. \<not> (\<exists>fp fi. opr = Exec fp fi) \<Longrightarrow>
   mask_le (permitted (fold cap_step ops s)) (permitted s)"
proof (induction ops arbitrary: s)
  case Nil
  then show ?case by (simp add: mask_le_bits)
next
  case (Cons a ops)
  then show ?case using mask_le_trans [OF Cons.IH [of "cap_step a s"] cap_step_permitted [of a s]] by auto
qed

subsection \<open>Properties\<close>

text \<open>
  C11. Starting from a set whose effective mask is inside its permitted mask, no sequence of
  \<open>raise\<close>, \<open>drop_cap\<close>, \<open>drop_permitted\<close> and \<open>exec_transform\<close> makes a capability effective
  that is not permitted, and none makes a capability available that was neither permitted
  nor inheritable at the start.
\<close>

theorem capability_ceiling:
  assumes "cap_ok s"
  shows "cap_ok (fold cap_step ops s) \<and> mask_le (cap_reach (fold cap_step ops s)) (cap_reach s)"
  using cap_run_ok [OF assms] cap_run_reach [OF assms] by blast

theorem capability_ceiling_witness:
  "cap_ok \<lparr>permitted = 6, effective = 2, inheritable = 8\<rparr> \<and>
   fold cap_step [Raise 2, Exec 6 8, DropPermitted 1] \<lparr>permitted = 6, effective = 2, inheritable = 8\<rparr>
     = \<lparr>permitted = 12, effective = 12, inheritable = 8\<rparr> \<and>
   mask_le (cap_reach \<lparr>permitted = 12, effective = 12, inheritable = 8\<rparr>)
     (cap_reach \<lparr>permitted = 6, effective = 2, inheritable = 8\<rparr>)"
proof -
  have ok: "cap_ok \<lparr>permitted = 6, effective = 2, inheritable = 8\<rparr>" by (simp add: cap_ok_def mask_le_def)
  have run: "fold cap_step [Raise 2, Exec 6 8, DropPermitted 1] \<lparr>permitted = 6, effective = 2, inheritable = 8\<rparr>
     = \<lparr>permitted = 12, effective = 12, inheritable = 8\<rparr>"
    by (simp add: cap_step_def cap_raise_def cap_bit_def exec_transform_def drop_permitted_def Let_def)
  from capability_ceiling [OF ok, of "[Raise 2, Exec 6 8, DropPermitted 1]"] ok show ?thesis
    unfolding run by blast
qed

text \<open>
  C12. \<open>drop_permitted\<close> is irreversible within one program: after it, no sequence of \<open>raise\<close>,
  \<open>drop_cap\<close> and \<open>drop_permitted\<close> makes the capability effective again.
\<close>

theorem dropped_capability_stays_dropped:
  assumes "cap_ok s" "\<forall>opr \<in> set ops. \<not> (\<exists>fp fi. opr = Exec fp fi)"
  shows "\<not> cap_has (fold cap_step ops (drop_permitted c s)) c"
proof -
  let ?s = "drop_permitted c s"
  have "cap_ok ?s" using cap_step_ok [OF assms(1), of "DropPermitted c"] by (simp add: cap_step_def)
  then have "cap_ok (fold cap_step ops ?s)" by (rule cap_run_ok)
  moreover have "mask_le (permitted (fold cap_step ops ?s)) (permitted ?s)"
    by (rule cap_run_permitted [OF assms(2)])
  moreover have "\<not> bit (permitted ?s) (unat c mod 64)"
    by (simp add: drop_permitted_def Let_def bit_and_iff bit_not_iff bit_cap_bit)
  ultimately show ?thesis by (auto simp: cap_has_bit cap_ok_def mask_le_bits)
qed

theorem dropped_capability_stays_dropped_witness:
  "cap_has capset_all 21 \<and> \<not> cap_has (fold cap_step [Raise 21, Raise 5] (drop_permitted 21 capset_all)) 21"
proof -
  have "cap_ok capset_all" by (simp add: cap_ok_def capset_all_def mask_le_def)
  from dropped_capability_stays_dropped [OF this, of "[Raise 21, Raise 5]" 21] show ?thesis
    by (simp add: cap_has_def capset_all_def cap_bit_def)
qed

text \<open>
  The two implementations of the \<open>execve\<close> transformation, \<open>CapSet::exec_transform\<close> and
  \<open>exec_cap_transform\<close> of the DAC module, give the same permitted mask exactly when the
  inheritable bits that the file enables are already permitted; they are documented to match.
\<close>

theorem exec_transforms_agree:
  "fst (exec_cap_transform (permitted s) (effective s) (inheritable s) fp fi fE)
     = permitted (exec_transform fp fi s)
   \<longleftrightarrow> fi AND inheritable s AND permitted s = fi AND inheritable s"
proof -
  have l: "(fp OR (fi AND inheritable s)) AND permitted s
      = (fp AND permitted s) OR (fi AND inheritable s AND permitted s)"
    by (simp add: bit.conj_disj_distrib2 and.assoc)
  show ?thesis
  proof
    assume "fst (exec_cap_transform (permitted s) (effective s) (inheritable s) fp fi fE)
      = permitted (exec_transform fp fi s)"
    then have e: "(fp AND permitted s) OR (fi AND inheritable s AND permitted s)
        = (fp AND permitted s) OR (fi AND inheritable s)"
      by (simp add: exec_cap_transform_def exec_transform_def Let_def l)
    show "fi AND inheritable s AND permitted s = fi AND inheritable s"
    proof (rule mask_eqI)
      fix n :: nat
      from e have "bit ((fp AND permitted s) OR (fi AND inheritable s AND permitted s)) n
          = bit ((fp AND permitted s) OR (fi AND inheritable s)) n" by simp
      then show "bit (fi AND inheritable s AND permitted s) n = bit (fi AND inheritable s) n"
        by (auto simp: bit_and_iff bit_or_iff)
    qed
  next
    assume "fi AND inheritable s AND permitted s = fi AND inheritable s"
    then show "fst (exec_cap_transform (permitted s) (effective s) (inheritable s) fp fi fE)
      = permitted (exec_transform fp fi s)"
      by (simp add: exec_cap_transform_def exec_transform_def Let_def l)
  qed
qed

end
