(* ===== verification/Bpf.thy ===== *)
theory Bpf
  imports Prelude
begin

unbundle bit_operations_syntax

section \<open>The classic BPF interpreter\<close>

text \<open>
  \<open>bpf_run\<close> of \<^verbatim>\<open>src/security/seccomp.rs\<close>. An instruction either ends the program with a
  value or gives the next registers and program counter. The source writes
  \<^verbatim>\<open>load_u32(data, k).unwrap_or(return SECCOMP_RET_KILL_PROCESS)\<close>: the argument of
  \<^verbatim>\<open>unwrap_or\<close> is evaluated before the call, so the \<^verbatim>\<open>return\<close> is taken whether or not the
  load succeeds. The model keeps the load, whose result is never used, and the return.
\<close>

type_synonym byte = u8

record SockFilter =
  sf_code :: u16
  sf_jt :: u8
  sf_jf :: u8
  sf_k :: u32

definition SECCOMP_RET_KILL_PROCESS :: u32 where "SECCOMP_RET_KILL_PROCESS = 0x80000000"
definition SECCOMP_RET_KILL_THREAD :: u32 where "SECCOMP_RET_KILL_THREAD = 0"
definition SECCOMP_RET_TRAP :: u32 where "SECCOMP_RET_TRAP = 0x00030000"
definition SECCOMP_RET_ERRNO :: u32 where "SECCOMP_RET_ERRNO = 0x00050000"
definition SECCOMP_RET_USER_NOTIF :: u32 where "SECCOMP_RET_USER_NOTIF = 0x7FC00000"
definition SECCOMP_RET_TRACE :: u32 where "SECCOMP_RET_TRACE = 0x7FF00000"
definition SECCOMP_RET_LOG :: u32 where "SECCOMP_RET_LOG = 0x7FFC0000"
definition SECCOMP_RET_ALLOW :: u32 where "SECCOMP_RET_ALLOW = 0x7FFF0000"
definition SECCOMP_RET_ACTION_FULL :: u32 where "SECCOMP_RET_ACTION_FULL = 0xFFFF0000"
definition SECCOMP_RET_DATA :: u32 where "SECCOMP_RET_DATA = 0x0000FFFF"

lemmas seccomp_ret_defs = SECCOMP_RET_KILL_PROCESS_def SECCOMP_RET_KILL_THREAD_def SECCOMP_RET_TRAP_def
  SECCOMP_RET_ERRNO_def SECCOMP_RET_USER_NOTIF_def SECCOMP_RET_TRACE_def SECCOMP_RET_LOG_def
  SECCOMP_RET_ALLOW_def

text \<open>Instruction classes, sizes, modes and operations; an opcode is their disjunction.\<close>

definition BPF_LD :: u16 where "BPF_LD = 0x00"
definition BPF_LDX :: u16 where "BPF_LDX = 0x01"
definition BPF_ST :: u16 where "BPF_ST = 0x02"
definition BPF_STX :: u16 where "BPF_STX = 0x03"
definition BPF_ALU :: u16 where "BPF_ALU = 0x04"
definition BPF_JMP :: u16 where "BPF_JMP = 0x05"
definition BPF_RET :: u16 where "BPF_RET = 0x06"
definition BPF_MISC :: u16 where "BPF_MISC = 0x07"
definition BPF_W :: u16 where "BPF_W = 0x00"
definition BPF_H :: u16 where "BPF_H = 0x08"
definition BPF_B :: u16 where "BPF_B = 0x10"
definition BPF_IMM :: u16 where "BPF_IMM = 0x00"
definition BPF_ABS :: u16 where "BPF_ABS = 0x20"
definition BPF_IND :: u16 where "BPF_IND = 0x40"
definition BPF_MEM :: u16 where "BPF_MEM = 0x60"
definition BPF_K :: u16 where "BPF_K = 0x00"
definition BPF_X :: u16 where "BPF_X = 0x08"
definition BPF_A :: u16 where "BPF_A = 0x10"
definition BPF_ADD :: u16 where "BPF_ADD = 0x00"
definition BPF_SUB :: u16 where "BPF_SUB = 0x10"
definition BPF_MUL :: u16 where "BPF_MUL = 0x20"
definition BPF_DIV :: u16 where "BPF_DIV = 0x30"
definition BPF_OR :: u16 where "BPF_OR = 0x40"
definition BPF_AND :: u16 where "BPF_AND = 0x50"
definition BPF_LSH :: u16 where "BPF_LSH = 0x60"
definition BPF_RSH :: u16 where "BPF_RSH = 0x70"
definition BPF_NEG :: u16 where "BPF_NEG = 0x80"
definition BPF_MOD :: u16 where "BPF_MOD = 0x90"
definition BPF_XOR :: u16 where "BPF_XOR = 0xa0"
definition BPF_JA :: u16 where "BPF_JA = 0x00"
definition BPF_JEQ :: u16 where "BPF_JEQ = 0x10"
definition BPF_JGT :: u16 where "BPF_JGT = 0x20"
definition BPF_JGE :: u16 where "BPF_JGE = 0x30"
definition BPF_JSET :: u16 where "BPF_JSET = 0x40"
definition BPF_RETK :: u16 where "BPF_RETK = BPF_RET OR BPF_K"
definition BPF_RETA :: u16 where "BPF_RETA = BPF_RET OR BPF_A"
definition BPF_TAX :: u16 where "BPF_TAX = BPF_MISC OR 0x00"
definition BPF_TXA :: u16 where "BPF_TXA = BPF_MISC OR 0x80"
definition BPF_MAXINSNS :: nat where "BPF_MAXINSNS = 4096"
definition BPF_MAX_STEPS :: nat where "BPF_MAX_STEPS = 65536"
definition BPF_MEMWORDS :: nat where "BPF_MEMWORDS = 16"

lemmas bpf_code_defs = BPF_LD_def BPF_LDX_def BPF_ST_def BPF_STX_def BPF_ALU_def BPF_JMP_def BPF_RET_def
  BPF_MISC_def BPF_W_def BPF_H_def BPF_B_def BPF_IMM_def BPF_ABS_def BPF_IND_def BPF_MEM_def BPF_K_def
  BPF_X_def BPF_A_def BPF_ADD_def BPF_SUB_def BPF_MUL_def BPF_DIV_def BPF_OR_def BPF_AND_def BPF_LSH_def
  BPF_RSH_def BPF_NEG_def BPF_MOD_def BPF_XOR_def BPF_JA_def BPF_JEQ_def BPF_JGT_def BPF_JGE_def
  BPF_JSET_def BPF_RETK_def BPF_RETA_def BPF_TAX_def BPF_TXA_def

subsection \<open>Loads\<close>

definition le_word :: "byte list \<Rightarrow> u32" where
  "le_word bs = foldr (\<lambda>b w. push_bit 8 w OR ucast b) bs 0"

definition load_u32 :: "byte list \<Rightarrow> nat \<Rightarrow> u32 option" where
  "load_u32 data off = (if off + 4 \<le> length data then Some (le_word (take 4 (drop off data))) else None)"

definition load_u16 :: "byte list \<Rightarrow> nat \<Rightarrow> u16 option" where
  "load_u16 data off =
     (if off + 2 \<le> length data then Some (ucast (le_word (take 2 (drop off data)))) else None)"

definition load_u8 :: "byte list \<Rightarrow> nat \<Rightarrow> u8 option" where
  "load_u8 data off = (if off < length data then Some (data ! off) else None)"

text \<open>\<open>o.unwrap_or(return r)\<close>: the return is evaluated first.\<close>

definition unwrap_or_return :: "'a option \<Rightarrow> u32 \<Rightarrow> ('a \<Rightarrow> u32 + 'b) \<Rightarrow> u32 + 'b" where
  "unwrap_or_return v r f = Inl r"

subsection \<open>One instruction\<close>

record bpf_state =
  bpf_a :: u32
  bpf_x :: u32
  bpf_m :: "u32 list"
  bpf_pc :: nat

definition bpf_next :: "bpf_state \<Rightarrow> u32 + bpf_state" where
  "bpf_next s = Inr (s\<lparr>bpf_pc := bpf_pc s + 1\<rparr>)"

definition bpf_set_a :: "bpf_state \<Rightarrow> u32 \<Rightarrow> u32 + bpf_state" where
  "bpf_set_a s v = bpf_next (s\<lparr>bpf_a := v\<rparr>)"

definition bpf_branch :: "SockFilter \<Rightarrow> bpf_state \<Rightarrow> bool \<Rightarrow> u32 + bpf_state" where
  "bpf_branch ins s c = bpf_next (s\<lparr>bpf_pc := bpf_pc s + unat (if c then sf_jt ins else sf_jf ins)\<rparr>)"

definition mem_get :: "u32 list \<Rightarrow> nat \<Rightarrow> u32 option" where
  "mem_get m i = (if i < length m then Some (m ! i) else None)"

definition bpf_load :: "byte list \<Rightarrow> SockFilter \<Rightarrow> bpf_state \<Rightarrow> (u32 + bpf_state) option" where
  "bpf_load data ins s =
     (let c = sf_code ins; k = sf_k ins; a = bpf_a s; x = bpf_x s; m = bpf_m s in
      if c = BPF_LD OR BPF_W OR BPF_ABS
        then Some (unwrap_or_return (load_u32 data (unat k)) SECCOMP_RET_KILL_PROCESS (bpf_set_a s))
      else if c = BPF_LD OR BPF_H OR BPF_ABS
        then Some (unwrap_or_return (load_u16 data (unat k)) SECCOMP_RET_KILL_PROCESS (\<lambda>v. bpf_set_a s (ucast v)))
      else if c = BPF_LD OR BPF_B OR BPF_ABS
        then Some (unwrap_or_return (load_u8 data (unat k)) SECCOMP_RET_KILL_PROCESS (\<lambda>v. bpf_set_a s (ucast v)))
      else if c = BPF_LD OR BPF_W OR BPF_IND
        then Some (unwrap_or_return (load_u32 data (unat (x + k))) SECCOMP_RET_KILL_PROCESS (bpf_set_a s))
      else if c = BPF_LD OR BPF_IMM then Some (bpf_set_a s k)
      else if c = BPF_LDX OR BPF_W OR BPF_IMM then Some (bpf_next (s\<lparr>bpf_x := k\<rparr>))
      else if c = BPF_LD OR BPF_MEM
        then Some (unwrap_or_return (mem_get m (unat k)) SECCOMP_RET_KILL_PROCESS (bpf_set_a s))
      else if c = BPF_LDX OR BPF_MEM
        then Some (unwrap_or_return (mem_get m (unat k)) SECCOMP_RET_KILL_PROCESS (\<lambda>v. bpf_next (s\<lparr>bpf_x := v\<rparr>)))
      else if c = BPF_ST
        then Some (unwrap_or_return (mem_get m (unat k)) SECCOMP_RET_KILL_PROCESS
               (\<lambda>_. bpf_next (s\<lparr>bpf_m := m[unat k := a]\<rparr>)))
      else if c = BPF_STX
        then Some (unwrap_or_return (mem_get m (unat k)) SECCOMP_RET_KILL_PROCESS
               (\<lambda>_. bpf_next (s\<lparr>bpf_m := m[unat k := x]\<rparr>)))
      else None)"

definition bpf_alu :: "SockFilter \<Rightarrow> bpf_state \<Rightarrow> (u32 + bpf_state) option" where
  "bpf_alu ins s =
     (let c = sf_code ins; k = sf_k ins; a = bpf_a s; x = bpf_x s in
      if c = BPF_ALU OR BPF_ADD OR BPF_K then Some (bpf_set_a s (a + k))
      else if c = BPF_ALU OR BPF_ADD OR BPF_X then Some (bpf_set_a s (a + x))
      else if c = BPF_ALU OR BPF_SUB OR BPF_K then Some (bpf_set_a s (a - k))
      else if c = BPF_ALU OR BPF_SUB OR BPF_X then Some (bpf_set_a s (a - x))
      else if c = BPF_ALU OR BPF_MUL OR BPF_K then Some (bpf_set_a s (a * k))
      else if c = BPF_ALU OR BPF_MUL OR BPF_X then Some (bpf_set_a s (a * x))
      else if c = BPF_ALU OR BPF_DIV OR BPF_K
        then Some (if k = 0 then Inl SECCOMP_RET_KILL_PROCESS else bpf_set_a s (a div k))
      else if c = BPF_ALU OR BPF_DIV OR BPF_X
        then Some (if x = 0 then Inl SECCOMP_RET_KILL_PROCESS else bpf_set_a s (a div x))
      else if c = BPF_ALU OR BPF_MOD OR BPF_K
        then Some (if k = 0 then Inl SECCOMP_RET_KILL_PROCESS else bpf_set_a s (a mod k))
      else if c = BPF_ALU OR BPF_MOD OR BPF_X
        then Some (if x = 0 then Inl SECCOMP_RET_KILL_PROCESS else bpf_set_a s (a mod x))
      else if c = BPF_ALU OR BPF_OR OR BPF_K then Some (bpf_set_a s (a OR k))
      else if c = BPF_ALU OR BPF_OR OR BPF_X then Some (bpf_set_a s (a OR x))
      else if c = BPF_ALU OR BPF_AND OR BPF_K then Some (bpf_set_a s (a AND k))
      else if c = BPF_ALU OR BPF_AND OR BPF_X then Some (bpf_set_a s (a AND x))
      else if c = BPF_ALU OR BPF_LSH OR BPF_K then Some (bpf_set_a s (push_bit (unat (k AND 31)) a))
      else if c = BPF_ALU OR BPF_LSH OR BPF_X then Some (bpf_set_a s (push_bit (unat (x AND 31)) a))
      else if c = BPF_ALU OR BPF_RSH OR BPF_K then Some (bpf_set_a s (drop_bit (unat (k AND 31)) a))
      else if c = BPF_ALU OR BPF_RSH OR BPF_X then Some (bpf_set_a s (drop_bit (unat (x AND 31)) a))
      else if c = BPF_ALU OR BPF_XOR OR BPF_K then Some (bpf_set_a s (a XOR k))
      else if c = BPF_ALU OR BPF_XOR OR BPF_X then Some (bpf_set_a s (a XOR x))
      else if c = BPF_ALU OR BPF_NEG then Some (bpf_set_a s (NOT a + 1))
      else if c = BPF_TAX then Some (bpf_next (s\<lparr>bpf_x := a\<rparr>))
      else if c = BPF_TXA then Some (bpf_set_a s x)
      else None)"

definition bpf_jump :: "nat \<Rightarrow> SockFilter \<Rightarrow> bpf_state \<Rightarrow> u32 + bpf_state" where
  "bpf_jump len ins s =
     (let c = sf_code ins; k = sf_k ins; a = bpf_a s; x = bpf_x s in
      if c = BPF_JMP OR BPF_JA
        then let new_pc = saturating_add (saturating_add (bpf_pc s) (unat k)) 1 in
             if new_pc \<ge> len then Inl SECCOMP_RET_KILL_PROCESS else Inr (s\<lparr>bpf_pc := new_pc\<rparr>)
      else if c = BPF_JMP OR BPF_JEQ OR BPF_K then bpf_branch ins s (a = k)
      else if c = BPF_JMP OR BPF_JEQ OR BPF_X then bpf_branch ins s (a = x)
      else if c = BPF_JMP OR BPF_JGT OR BPF_K then bpf_branch ins s (a > k)
      else if c = BPF_JMP OR BPF_JGT OR BPF_X then bpf_branch ins s (a > x)
      else if c = BPF_JMP OR BPF_JGE OR BPF_K then bpf_branch ins s (a \<ge> k)
      else if c = BPF_JMP OR BPF_JGE OR BPF_X then bpf_branch ins s (a \<ge> x)
      else if c = BPF_JMP OR BPF_JSET OR BPF_K then bpf_branch ins s (a AND k \<noteq> 0)
      else if c = BPF_JMP OR BPF_JSET OR BPF_X then bpf_branch ins s (a AND x \<noteq> 0)
      else if c = BPF_RETK then Inl k
      else if c = BPF_RETA then Inl a
      else Inl SECCOMP_RET_KILL_PROCESS)"

text \<open>The \<open>match\<close> over the opcode, in the order of the source.\<close>

definition bpf_step :: "SockFilter list \<Rightarrow> byte list \<Rightarrow> bpf_state \<Rightarrow> u32 + bpf_state" where
  "bpf_step insns data s =
     (let ins = insns ! bpf_pc s in
      case bpf_load data ins s of
        Some r \<Rightarrow> r
      | None \<Rightarrow> (case bpf_alu ins s of Some r \<Rightarrow> r | None \<Rightarrow> bpf_jump (length insns) ins s))"

subsection \<open>The loop\<close>

function bpf_loop :: "SockFilter list \<Rightarrow> byte list \<Rightarrow> nat \<Rightarrow> bpf_state \<Rightarrow> u32" where
  "bpf_loop insns data steps s =
     (if bpf_pc s \<ge> length insns then SECCOMP_RET_KILL_PROCESS
      else if steps + 1 > BPF_MAX_STEPS then SECCOMP_RET_KILL_PROCESS
      else case bpf_step insns data s of
             Inl r \<Rightarrow> r
           | Inr s' \<Rightarrow> bpf_loop insns data (steps + 1) s')"
  by pat_completeness auto
termination
  by (relation "measure (\<lambda>(insns, data, steps, s). BPF_MAX_STEPS - steps)") auto

declare bpf_loop.simps [simp del]

definition bpf_init :: bpf_state where
  "bpf_init = \<lparr>bpf_a = 0, bpf_x = 0, bpf_m = replicate BPF_MEMWORDS 0, bpf_pc = 0\<rparr>"

definition bpf_run :: "SockFilter list \<Rightarrow> byte list \<Rightarrow> u32" where
  "bpf_run insns data =
     (if length insns > BPF_MAXINSNS then SECCOMP_RET_KILL_PROCESS
      else bpf_loop insns data 0 bpf_init)"

subsection \<open>Progress\<close>

text \<open>Jumps only go forward, so a program of \<open>n\<close> instructions runs at most \<open>n\<close> steps.\<close>

definition advances :: "bpf_state \<Rightarrow> u32 + bpf_state \<Rightarrow> bool" where
  "advances s r \<longleftrightarrow> (\<forall>s'. r = Inr s' \<longrightarrow> bpf_pc s < bpf_pc s')"

definition advances_opt :: "bpf_state \<Rightarrow> (u32 + bpf_state) option \<Rightarrow> bool" where
  "advances_opt s r \<longleftrightarrow> (\<forall>q. r = Some q \<longrightarrow> advances s q)"

named_theorems advance_intros

lemma advances_if [advance_intros]: "advances s a \<Longrightarrow> advances s b \<Longrightarrow> advances s (if c then a else b)"
  by simp

lemma advances_opt_if [advance_intros]:
  "advances_opt s a \<Longrightarrow> advances_opt s b \<Longrightarrow> advances_opt s (if c then a else b)"
  by simp

lemma advances_opt_Some [advance_intros]: "advances s a \<Longrightarrow> advances_opt s (Some a)"
  by (simp add: advances_opt_def)

lemma advances_opt_None [advance_intros]: "advances_opt s None"
  by (simp add: advances_opt_def)

lemma advances_Inl [advance_intros]: "advances s (Inl r)"
  by (simp add: advances_def)

lemma advances_unwrap [advance_intros]: "advances s (unwrap_or_return v r f)"
  by (simp add: advances_def unwrap_or_return_def)

lemma advances_next [advance_intros]: "bpf_pc t = bpf_pc s \<Longrightarrow> advances s (bpf_next t)"
  by (simp add: advances_def bpf_next_def)

lemma advances_set_a [advance_intros]: "advances s (bpf_set_a s v)"
  by (simp add: advances_def bpf_set_a_def bpf_next_def)

lemma advances_branch [advance_intros]: "advances s (bpf_branch ins s c)"
  by (simp add: advances_def bpf_branch_def bpf_next_def)

lemma advances_ja [advance_intros]:
  assumes "len \<le> BPF_MAXINSNS"
  shows "advances s (let new_pc = saturating_add (saturating_add (bpf_pc s) k) 1 in
    if new_pc \<ge> len then Inl r else Inr (s\<lparr>bpf_pc := new_pc\<rparr>))"
  using assms
  by (auto simp: advances_def saturating_add_def usize_max_def BPF_MAXINSNS_def min_def Let_def split: if_splits)

lemma bpf_load_advances: "advances_opt s (bpf_load data ins s)"
  unfolding bpf_load_def Let_def by (intro advance_intros) simp_all

lemma bpf_alu_advances: "advances_opt s (bpf_alu ins s)"
  unfolding bpf_alu_def Let_def by (intro advance_intros) simp_all

lemma bpf_jump_advances: "len \<le> BPF_MAXINSNS \<Longrightarrow> advances s (bpf_jump len ins s)"
  unfolding bpf_jump_def Let_def [of "sf_code ins"] Let_def [of "sf_k ins"] Let_def [of "bpf_a s"]
    Let_def [of "bpf_x s"]
  by (intro advance_intros)

lemma bpf_step_pc:
  assumes "bpf_step insns data s = Inr s'" "length insns \<le> BPF_MAXINSNS"
  shows "bpf_pc s < bpf_pc s'"
  using assms bpf_load_advances [of s data "insns ! bpf_pc s"] bpf_alu_advances [of s "insns ! bpf_pc s"]
    bpf_jump_advances [OF assms(2), of s "insns ! bpf_pc s"]
  by (auto simp: bpf_step_def Let_def advances_def advances_opt_def split: option.splits)

text \<open>The semantics without a step limit.\<close>

inductive bpf_eval :: "SockFilter list \<Rightarrow> byte list \<Rightarrow> bpf_state \<Rightarrow> u32 \<Rightarrow> bool" for insns data where
  eval_out: "bpf_pc s \<ge> length insns \<Longrightarrow> bpf_eval insns data s SECCOMP_RET_KILL_PROCESS"
| eval_ret: "bpf_pc s < length insns \<Longrightarrow> bpf_step insns data s = Inl r \<Longrightarrow> bpf_eval insns data s r"
| eval_next: "bpf_pc s < length insns \<Longrightarrow> bpf_step insns data s = Inr s' \<Longrightarrow>
    bpf_eval insns data s' r \<Longrightarrow> bpf_eval insns data s r"

inductive_cases bpf_evalE: "bpf_eval insns data s r"

lemma bpf_eval_det: "bpf_eval insns data s r \<Longrightarrow> bpf_eval insns data s r' \<Longrightarrow> r' = r"
proof (induction arbitrary: r' rule: bpf_eval.induct)
  case (eval_out s)
  then show ?case by (auto elim: bpf_evalE)
next
  case (eval_ret s r)
  then show ?case by (auto elim: bpf_evalE)
next
  case (eval_next s s' r)
  from eval_next.prems show ?case
  proof (cases rule: bpf_eval.cases)
    case next2: (eval_next t)
    then have "t = s'" using eval_next.hyps(2) by simp
    then show ?thesis using eval_next.IH next2 by blast
  qed (use eval_next.hyps(1,2) in simp_all)
qed

lemma bpf_loop_eval:
  assumes "length insns \<le> BPF_MAXINSNS" "n + (length insns - bpf_pc s) \<le> BPF_MAX_STEPS"
  shows "bpf_eval insns data s (bpf_loop insns data n s)"
  using assms(2)
proof (induction "length insns - bpf_pc s" arbitrary: n s rule: less_induct)
  case less
  show ?case
  proof (cases "bpf_pc s \<ge> length insns")
    case True
    then show ?thesis by (subst bpf_loop.simps) (simp add: eval_out)
  next
    case False
    then have lim: "\<not> n + 1 > BPF_MAX_STEPS" using less.prems by auto
    show ?thesis
    proof (cases "bpf_step insns data s")
      case (Inl r)
      then show ?thesis using False lim by (subst bpf_loop.simps) (auto intro: eval_ret)
    next
      case (Inr s')
      have pc: "bpf_pc s < bpf_pc s'" by (rule bpf_step_pc [OF Inr assms(1)])
      have "bpf_eval insns data s' (bpf_loop insns data (n + 1) s')"
        by (rule less.hyps) (use pc False less.prems in auto)
      then show ?thesis using False lim Inr by (subst bpf_loop.simps) (auto intro: eval_next)
    qed
  qed
qed

lemma bpf_run_eval:
  assumes "length insns \<le> BPF_MAXINSNS"
  shows "bpf_eval insns data bpf_init (bpf_run insns data)"
  using bpf_loop_eval [of insns 0 bpf_init data] assms
  by (simp add: bpf_run_def bpf_init_def BPF_MAXINSNS_def BPF_MAX_STEPS_def)

subsection \<open>The data the filter sees\<close>

lemma bpf_load_data: "bpf_load data ins s = bpf_load data' ins s"
  by (simp add: bpf_load_def unwrap_or_return_def Let_def)

lemma bpf_step_data: "bpf_step insns data s = bpf_step insns data' s"
  using bpf_load_data [of data "insns ! bpf_pc s" s data'] by (simp add: bpf_step_def Let_def)

lemma bpf_loop_data: "bpf_loop insns data n s = bpf_loop insns data' n s"
proof (induction insns data n s rule: bpf_loop.induct)
  case (1 insns data n s)
  show ?case
  proof (cases "bpf_step insns data s")
    case (Inl r)
    then show ?thesis using bpf_step_data [of insns data s data']
      by (subst (1 2) bpf_loop.simps) simp
  next
    case (Inr s')
    then show ?thesis using bpf_step_data [of insns data s data'] 1
      by (subst (1 2) bpf_loop.simps) simp
  qed
qed

lemma bpf_run_data: "bpf_run insns data = bpf_run insns data'"
  using bpf_loop_data [of insns data 0 bpf_init data'] by (simp add: bpf_run_def)

subsection \<open>Properties\<close>

text \<open>
  C9. The interpreter computes the unbounded semantics: for a program within the length
  limit the result of \<open>bpf_run\<close> is the one of the step relation without a step limit, so
  the cap of 65536 steps is never what ends a program.
\<close>

theorem bpf_run_unbounded:
  assumes "length insns \<le> BPF_MAXINSNS"
  shows "bpf_eval insns data bpf_init r \<longleftrightarrow> bpf_run insns data = r"
  using bpf_run_eval [OF assms, of data] bpf_eval_det by blast

theorem bpf_run_unbounded_witness:
  "bpf_eval [\<lparr>sf_code = 0, sf_jt = 0, sf_jf = 0, sf_k = 7\<rparr>, \<lparr>sf_code = 0x15, sf_jt = 1, sf_jf = 0, sf_k = 7\<rparr>,
      \<lparr>sf_code = 6, sf_jt = 0, sf_jf = 0, sf_k = 0\<rparr>, \<lparr>sf_code = 6, sf_jt = 0, sf_jf = 0, sf_k = 0x7FFF0000\<rparr>]
     [] bpf_init SECCOMP_RET_ALLOW"
proof -
  let ?p = "[\<lparr>sf_code = 0, sf_jt = 0, sf_jf = 0, sf_k = 7\<rparr>, \<lparr>sf_code = 0x15, sf_jt = 1, sf_jf = 0, sf_k = 7\<rparr>,
      \<lparr>sf_code = 6, sf_jt = 0, sf_jf = 0, sf_k = 0\<rparr>, \<lparr>sf_code = 6, sf_jt = 0, sf_jf = 0, sf_k = 0x7FFF0000\<rparr>]"
  have "bpf_run ?p [] = SECCOMP_RET_ALLOW"
    by (simp add: bpf_run_def bpf_loop.simps bpf_init_def bpf_step_def bpf_load_def bpf_alu_def bpf_jump_def
        bpf_branch_def bpf_set_a_def bpf_next_def bpf_code_defs Let_def BPF_MAXINSNS_def BPF_MAX_STEPS_def
        SECCOMP_RET_ALLOW_def)
  then show ?thesis using bpf_run_unbounded [of ?p "[]" SECCOMP_RET_ALLOW] by (simp add: BPF_MAXINSNS_def)
qed

end
