(* ===== verification/Uaccess.thy ===== *)
theory Uaccess
  imports Prelude
begin

section \<open>Access to user memory\<close>

text \<open>
  The address checks and the copies of \<^verbatim>\<open>src/kernel/uaccess.rs\<close> (x86-64 split). User
  memory is a partial function from addresses to bytes; reading an address where it is
  undefined is the page fault that the access window turns into \<open>UaccessError::Fault\<close>.
\<close>

type_synonym umem = "nat \<Rightarrow> u8 option"

definition USER_ADDR_MAX :: nat where "USER_ADDR_MAX = 0x800000000000"

definition user_access_ok :: "nat \<Rightarrow> nat \<Rightarrow> bool" where
  "user_access_ok addr len = (if addr + len > usize_max then False else addr + len \<le> USER_ADDR_MAX)"

definition user_ptr_ok :: "nat \<Rightarrow> nat \<Rightarrow> bool" where
  "user_ptr_ok sz addr = user_access_ok addr sz"

definition validate_user_ptr :: "nat \<Rightarrow> nat \<Rightarrow> bool" where
  "validate_user_ptr addr len \<longleftrightarrow> addr \<noteq> 0 \<and> user_access_ok addr len"

definition copy_from_user :: "umem \<Rightarrow> nat \<Rightarrow> nat \<Rightarrow> u8 list option" where
  "copy_from_user um src len =
     (if len = 0 then Some []
      else if src = 0 \<or> \<not> user_access_ok src len then None
      else those (map um [src..<src + len]))"

text \<open>\<open>None\<close> is a fault; what a faulting copy has already written is left open.\<close>

definition copy_to_user :: "umem \<Rightarrow> nat \<Rightarrow> u8 list \<Rightarrow> umem option" where
  "copy_to_user um dst bs =
     (if bs = [] then Some um
      else if dst = 0 \<or> \<not> user_access_ok dst (length bs) then None
      else if list_all (\<lambda>a. um a \<noteq> None) [dst..<dst + length bs]
      then Some (\<lambda>a. if dst \<le> a \<and> a < dst + length bs then Some (bs ! (a - dst)) else um a)
      else None)"

text \<open>Little-endian encodings of machine words.\<close>

definition le_bytes :: "nat \<Rightarrow> 'a::len word \<Rightarrow> u8 list" where
  "le_bytes n w = map (\<lambda>i. ucast (drop_bit (8 * i) w)) [0..<n]"

definition from_le_bytes :: "u8 list \<Rightarrow> nat" where
  "from_le_bytes bs = foldr (\<lambda>b n. unat b + 256 * n) bs 0"

lemma le_bytes_Suc: "le_bytes (Suc n) w = ucast w # le_bytes n (drop_bit 8 w)"
proof -
  have "[0..<Suc n] = 0 # map Suc [0..<n]" by (simp add: upt_conv_Cons map_Suc_upt del: upt_Suc)
  then show ?thesis by (simp add: le_bytes_def drop_bit_drop_bit add.commute)
qed

lemma length_le_bytes [simp]: "length (le_bytes n w) = n"
  by (simp add: le_bytes_def)

lemma from_le_bytes_le_bytes: "from_le_bytes (le_bytes n w) = unat w mod 256 ^ n"
proof (induction n arbitrary: w)
  case 0
  then show ?case by (simp add: from_le_bytes_def le_bytes_def)
next
  case (Suc n)
  have low: "unat (ucast w :: u8) = unat w mod 256"
    by (simp add: unsigned_ucast_eq take_bit_eq_mod)
  have high: "unat (drop_bit 8 w) = unat w div 256"
  proof -
    have "unat (drop_bit 8 w) = drop_bit 8 (unat w)"
      by (simp only: unsigned_drop_bit_eq take_bit_nat_eq_self unsigned_less)
    then show ?thesis by (simp add: drop_bit_eq_div)
  qed
  have "from_le_bytes (le_bytes (Suc n) w) = unat w mod 256 + 256 * (unat w div 256 mod 256 ^ n)"
    using Suc.IH [of "drop_bit 8 w"] by (simp add: le_bytes_Suc from_le_bytes_def low high)
  then show ?case by (simp add: mod_mult2_eq)
qed

lemma of_le_bytes_u32: "of_nat (from_le_bytes (le_bytes 4 w)) = (w :: u32)"
proof -
  have "unat w < 2 ^ 32" by (rule order_less_le_trans [OF unsigned_less]) simp
  then show ?thesis by (simp add: from_le_bytes_le_bytes)
qed

lemma of_le_bytes_u64: "of_nat (from_le_bytes (le_bytes 8 w)) = (w :: u64)"
proof -
  have "unat w < 2 ^ 64" by (rule order_less_le_trans [OF unsigned_less]) simp
  then show ?thesis by (simp add: from_le_bytes_le_bytes)
qed


lemma those_map_Some: "(\<And>x. x \<in> set xs \<Longrightarrow> f x = Some (g x)) \<Longrightarrow> those (map f xs) = Some (map g xs)"
  by (induction xs) auto

lemma copy_to_from_user: "copy_to_user um dst bs = Some um' \<Longrightarrow> copy_from_user um' dst (length bs) = Some bs"
proof (cases "bs = []")
  case False
  assume c: "copy_to_user um dst bs = Some um'"
  have "those (map um' [dst..<dst + length bs]) = Some (map (\<lambda>a. bs ! (a - dst)) [dst..<dst + length bs])"
    using c False by (intro those_map_Some) (auto simp: copy_to_user_def split: if_splits)
  moreover have "map (\<lambda>a. bs ! (a - dst)) [dst..<dst + length bs] = bs" by (rule nth_equalityI) simp_all
  ultimately show ?thesis using c False by (auto simp: copy_to_user_def copy_from_user_def split: if_splits)
qed (simp add: copy_from_user_def)




end
