(* ===== verification/Rlimit.thy ===== *)
theory Rlimit
  imports Prelude
begin

section \<open>Resource limits\<close>

text \<open>
  The table of soft and hard limits of \<^verbatim>\<open>src/proc/rlimit.rs\<close>, with 64-bit limits, and its
  checks. The per-process getters and setters follow in the theory of the process table.
\<close>

definition RLIMIT_DATA :: nat where "RLIMIT_DATA = 2"
definition RLIMIT_STACK :: nat where "RLIMIT_STACK = 3"
definition RLIMIT_NOFILE :: nat where "RLIMIT_NOFILE = 7"
definition RLIMIT_AS :: nat where "RLIMIT_AS = 9"
definition RLIMIT_MSGQUEUE :: nat where "RLIMIT_MSGQUEUE = 12"
definition RLIMIT_NLIMITS :: nat where "RLIMIT_NLIMITS = 16"
definition RLIM_INFINITY :: u64 where "RLIM_INFINITY = - 1"

record RlimitSet =
  rl_limits :: "(u64 \<times> u64) list"

definition RLIMIT_DEFAULTS :: "(u64 \<times> u64) list" where
  "RLIMIT_DEFAULTS =
     [(RLIM_INFINITY, RLIM_INFINITY), (RLIM_INFINITY, RLIM_INFINITY), (RLIM_INFINITY, RLIM_INFINITY),
      (8 * 1024 * 1024, RLIM_INFINITY), (0, RLIM_INFINITY), (RLIM_INFINITY, RLIM_INFINITY), (65536, 65536),
      (1024, 4096), (65536, 65536), (RLIM_INFINITY, RLIM_INFINITY), (RLIM_INFINITY, RLIM_INFINITY),
      (7823, 7823), (819200, 819200), (0, 0), (0, 0), (RLIM_INFINITY, RLIM_INFINITY)]"

definition rlimit_default :: RlimitSet where
  "rlimit_default = \<lparr>rl_limits = RLIMIT_DEFAULTS\<rparr>"

definition rlimit_get :: "RlimitSet \<Rightarrow> nat \<Rightarrow> u64 \<times> u64" where
  "rlimit_get r resource =
     (if resource < RLIMIT_NLIMITS then rl_limits r ! resource else (RLIM_INFINITY, RLIM_INFINITY))"

definition rlimit_set :: "nat \<Rightarrow> u64 \<Rightarrow> u64 \<Rightarrow> RlimitSet \<Rightarrow> int \<times> RlimitSet" where
  "rlimit_set resource soft hard r =
     (if resource \<ge> RLIMIT_NLIMITS then (- 22, r)
      else if soft > hard then (- 22, r)
      else (0, r\<lparr>rl_limits := (rl_limits r)[resource := (soft, hard)]\<rparr>))"

definition exceeds_nofile :: "RlimitSet \<Rightarrow> nat \<Rightarrow> bool" where
  "exceeds_nofile r current_open =
     (let soft = fst (rl_limits r ! RLIMIT_NOFILE) in soft \<noteq> RLIM_INFINITY \<and> of_nat current_open \<ge> soft)"

definition exceeds_as :: "RlimitSet \<Rightarrow> u64 \<Rightarrow> u64 \<Rightarrow> bool" where
  "exceeds_as r current_as extra_bytes =
     (let soft = fst (rl_limits r ! RLIMIT_AS) in
      if soft = RLIM_INFINITY then False else saturating_add_u64 current_as extra_bytes > soft)"

definition exceeds_stack :: "RlimitSet \<Rightarrow> u64 \<Rightarrow> bool" where
  "exceeds_stack r requested_bytes =
     (let soft = fst (rl_limits r ! RLIMIT_STACK) in if soft = RLIM_INFINITY then False else requested_bytes > soft)"

definition stack_soft :: "RlimitSet \<Rightarrow> u64" where
  "stack_soft r = fst (rl_limits r ! RLIMIT_STACK)"

definition exceeds_data :: "RlimitSet \<Rightarrow> u64 \<Rightarrow> u64 \<Rightarrow> bool" where
  "exceeds_data r brk_base new_brk =
     (let soft = fst (rl_limits r ! RLIMIT_DATA) in
      if soft = RLIM_INFINITY then False else saturating_sub_u64 new_brk brk_base > soft)"

text \<open>The table has one entry per resource and every soft limit is below its hard limit.\<close>

definition rlimit_ok :: "RlimitSet \<Rightarrow> bool" where
  "rlimit_ok r \<longleftrightarrow> length (rl_limits r) = RLIMIT_NLIMITS \<and> (\<forall>(soft, hard) \<in> set (rl_limits r). soft \<le> hard)"

lemma rlimit_ok_default: "rlimit_ok rlimit_default"
  by (simp add: rlimit_ok_def rlimit_default_def RLIMIT_DEFAULTS_def RLIMIT_NLIMITS_def RLIM_INFINITY_def)

lemma rlimit_ok_set: "rlimit_ok r \<Longrightarrow> rlimit_ok (snd (rlimit_set resource soft hard r))"
  by (auto simp: rlimit_ok_def rlimit_set_def not_less dest!: set_update_subset_insert [THEN subsetD])

lemma rlimit_get_set:
  "rlimit_ok r \<Longrightarrow> fst (rlimit_set resource soft hard r) = 0 \<Longrightarrow>
   rlimit_get (snd (rlimit_set resource soft hard r)) q = (if q = resource then (soft, hard) else rlimit_get r q)"
  by (auto simp: rlimit_ok_def rlimit_set_def rlimit_get_def split: if_splits)

text \<open>A larger address space never fits where a smaller one did not, also when the sum saturates.\<close>

lemma saturating_add_u64_unat: "unat (saturating_add_u64 a b) = min (unat a + unat b) (2 ^ 64 - 1)"
proof -
  have "unat (- 1 :: u64) = 2 ^ 64 - 1" by (simp add: unsigned_minus_1_eq_mask mask_eq_exp_minus_1)
  moreover have "unat a + unat b < 2 ^ 64 \<Longrightarrow> unat (a + b) = unat a + unat b" by (simp add: unat_word_ariths)
  ultimately show ?thesis by (auto simp: saturating_add_u64_def min_def)
qed

lemma exceeds_as_exact:
  assumes "fst (rl_limits r ! RLIMIT_AS) \<noteq> RLIM_INFINITY"
  shows "exceeds_as r cur extra \<longleftrightarrow> unat cur + unat extra > unat (fst (rl_limits r ! RLIMIT_AS))"
proof -
  let ?soft = "fst (rl_limits r ! RLIMIT_AS)"
  have "unat ?soft \<noteq> 2 ^ 64 - 1"
    using assms by (simp add: RLIM_INFINITY_def word_unat_eq_iff unsigned_minus_1_eq_mask mask_eq_exp_minus_1)
  moreover have "unat ?soft < 2 ^ 64" using unsigned_less [of ?soft] by simp
  ultimately have "unat ?soft < 2 ^ 64 - 1" by simp
  then show ?thesis
    using assms by (simp add: exceeds_as_def word_less_nat_alt saturating_add_u64_unat)
qed

end
