(* ===== verification/Proc_Table.thy ===== *)
theory Proc_Table
  imports Caps Bpf Rlimit
begin

section \<open>The process table\<close>

text \<open>
  The fields of \<open>Pcb\<close> (\<^verbatim>\<open>src/proc/process.rs\<close>) that the security modules use, the table of
  \<^verbatim>\<open>src/proc/proc_table.rs\<close>, a vector searched by pid, and the thread-group queries of
  \<^verbatim>\<open>src/proc/thread.rs\<close>. The locks of the table and of its entries are held for the whole
  closure, so an update is one step.
\<close>

record SeccompFilter =
  sfl_insns :: "SockFilter list"
  sfl_log :: bool

record FilterChain =
  fc_filters :: "SeccompFilter list"
  fc_strict :: bool

definition FilterChain_default :: FilterChain where
  "FilterChain_default = \<lparr>fc_filters = [], fc_strict = False\<rparr>"

record Pcb =
  p_pid :: nat
  p_tgid :: nat
  p_caps :: CapSet
  p_euid :: u32
  p_egid :: u32
  p_supp_groups :: "u32 list"
  p_no_new_privs :: bool
  p_seccomp :: FilterChain
  p_rlimits :: RlimitSet

type_synonym proc_table = "Pcb list"

definition find_proc_lock :: "nat \<Rightarrow> proc_table \<Rightarrow> Pcb option" where
  "find_proc_lock p t = List.find (\<lambda>q. p_pid q = p) t"

definition with_proc :: "nat \<Rightarrow> (Pcb \<Rightarrow> 'a) \<Rightarrow> proc_table \<Rightarrow> 'a option" where
  "with_proc p f t = map_option f (find_proc_lock p t)"

fun with_proc_mut :: "nat \<Rightarrow> (Pcb \<Rightarrow> Pcb) \<Rightarrow> proc_table \<Rightarrow> proc_table" where
  "with_proc_mut p f [] = []"
| "with_proc_mut p f (q # t) = (if p_pid q = p then f q # t else q # with_proc_mut p f t)"

definition tgid_of :: "nat \<Rightarrow> proc_table \<Rightarrow> nat" where
  "tgid_of p t = (case with_proc p p_tgid t of Some g \<Rightarrow> g | None \<Rightarrow> 0)"

definition threads_of :: "nat \<Rightarrow> proc_table \<Rightarrow> nat list" where
  "threads_of g t = map p_pid (filter (\<lambda>q. p_tgid q = g) t)"

definition getrlimit_for :: "nat \<Rightarrow> nat \<Rightarrow> nat \<Rightarrow> proc_table \<Rightarrow> u64 \<times> u64" where
  "getrlimit_for cur p resource t =
     (let target = (if p = 0 then cur else p)
      in case with_proc target (\<lambda>q. rlimit_get (p_rlimits q) resource) t of
           Some l \<Rightarrow> l | None \<Rightarrow> (RLIM_INFINITY, RLIM_INFINITY))"

definition setrlimit_for :: "nat \<Rightarrow> nat \<Rightarrow> nat \<Rightarrow> u64 \<Rightarrow> u64 \<Rightarrow> proc_table \<Rightarrow> int \<times> proc_table" where
  "setrlimit_for cur p resource soft hard t =
     (let target = (if p = 0 then cur else p)
      in case find_proc_lock target t of
           None \<Rightarrow> (- 3, t)
         | Some q \<Rightarrow> (fst (rlimit_set resource soft hard (p_rlimits q)),
             with_proc_mut target (\<lambda>q. q\<lparr>p_rlimits := snd (rlimit_set resource soft hard (p_rlimits q))\<rparr>) t))"

lemma find_proc_lock_pid: "find_proc_lock p t = Some q \<Longrightarrow> p_pid q = p"
  by (auto simp: find_proc_lock_def find_Some_iff)

lemma find_with_proc_mut:
  assumes "\<And>q. p_pid (f q) = p_pid q"
  shows "find_proc_lock r (with_proc_mut p f t) =
    (if r = p then map_option f (find_proc_lock p t) else find_proc_lock r t)"
  by (induction t) (auto simp: find_proc_lock_def assms)

lemma with_proc_mut_pids: "(\<And>q. p_pid (f q) = p_pid q) \<Longrightarrow> map p_pid (with_proc_mut p f t) = map p_pid t"
  by (induction t) auto

lemma threads_of_in: "find_proc_lock r t = Some q \<Longrightarrow> r \<in> set (threads_of (p_tgid q) t)"
  unfolding find_proc_lock_def threads_of_def by (auto simp: find_Some_iff image_iff) (metis nth_mem)

end
