(* ===== verification/Seccomp.thy ===== *)
theory Seccomp
  imports Proc_Table Uaccess
begin

unbundle bit_operations_syntax

section \<open>Seccomp\<close>

text \<open>
  The verdict of \<open>seccomp_check\<close> and the system call \<open>sys_seccomp\<close> of
  \<^verbatim>\<open>src/security/seccomp.rs\<close>, on the process table and the user memory. The descriptor
  that \<open>SECCOMP_GET_NOTIF_FD\<close> returns comes from \<open>sys_eventfd2\<close> and is an argument.
\<close>

definition EPERM :: int where "EPERM = 1"
definition EFAULT :: int where "EFAULT = 14"
definition EINVAL :: int where "EINVAL = 22"
definition ENOSYS :: int where "ENOSYS = 38"
definition SECCOMP_SET_MODE_STRICT :: u32 where "SECCOMP_SET_MODE_STRICT = 0"
definition SECCOMP_SET_MODE_FILTER :: u32 where "SECCOMP_SET_MODE_FILTER = 1"
definition SECCOMP_GET_ACTION_AVAIL :: u32 where "SECCOMP_GET_ACTION_AVAIL = 2"
definition SECCOMP_GET_NOTIF_FD :: u32 where "SECCOMP_GET_NOTIF_FD = 3"
definition SECCOMP_FILTER_FLAG_TSYNC :: u32 where "SECCOMP_FILTER_FLAG_TSYNC = 1"
definition SECCOMP_FILTER_FLAG_LOG :: u32 where "SECCOMP_FILTER_FLAG_LOG = 2"
definition AUDIT_ARCH_X86_64 :: u32 where "AUDIT_ARCH_X86_64 = 0xC000003E"

text \<open>\<open>read\<close>, \<open>write\<close>, \<open>rt_sigreturn\<close>, \<open>exit\<close> and \<open>exit_group\<close>.\<close>

definition STRICT_ALLOWLIST :: "nat list" where "STRICT_ALLOWLIST = [0, 1, 15, 60, 231]"

datatype SeccompVerdict = Allow | Errno int | Trap | Kill

record SeccompData =
  sd_nr :: u32
  sd_arch :: u32
  sd_ip :: u64
  sd_args :: "u64 list"

definition as_bytes :: "SeccompData \<Rightarrow> u8 list" where
  "as_bytes d = le_bytes 4 (sd_nr d) @ le_bytes 4 (sd_arch d) @ le_bytes 8 (sd_ip d)
     @ concat (map (le_bytes 8) (sd_args d))"

subsection \<open>The verdict\<close>

definition seccomp_action_rank :: "u32 \<Rightarrow> nat" where
  "seccomp_action_rank action =
     (if action = SECCOMP_RET_KILL_PROCESS then 0
      else if action = SECCOMP_RET_KILL_THREAD then 1
      else if action = SECCOMP_RET_TRAP then 2
      else if action = SECCOMP_RET_ERRNO then 3
      else if action = SECCOMP_RET_USER_NOTIF then 4
      else if action = SECCOMP_RET_TRACE then 5
      else if action = SECCOMP_RET_LOG then 6
      else if action = SECCOMP_RET_ALLOW then 7
      else 0)"

definition action_to_verdict :: "u32 \<Rightarrow> SeccompVerdict" where
  "action_to_verdict ret =
     (let action = ret AND SECCOMP_RET_ACTION_FULL in
      if action = SECCOMP_RET_KILL_PROCESS then Kill
      else if action = SECCOMP_RET_KILL_THREAD then Kill
      else if action = SECCOMP_RET_TRAP then Trap
      else if action = SECCOMP_RET_ERRNO
        then let errno = int (unat (ret AND SECCOMP_RET_DATA)) in Errno (if errno = 0 then 1 else errno)
      else if action = SECCOMP_RET_TRACE then Errno EPERM
      else if action = SECCOMP_RET_USER_NOTIF then Errno ENOSYS
      else if action = SECCOMP_RET_LOG \<or> action = SECCOMP_RET_ALLOW then Allow
      else Kill)"

text \<open>The loop over the filters, from the most recent one: the accumulator is (worst, worst_rank).\<close>

fun worst_action :: "SeccompFilter list \<Rightarrow> u8 list \<Rightarrow> u32 \<times> nat \<Rightarrow> u32 \<times> nat" where
  "worst_action [] bytes w = w"
| "worst_action (f # fs) bytes (worst, worst_rank) =
     (let ret = bpf_run (sfl_insns f) bytes;
          rank = seccomp_action_rank (ret AND SECCOMP_RET_ACTION_FULL)
      in worst_action fs bytes (if rank < worst_rank then (ret, rank) else (worst, worst_rank)))"

definition chain_verdict :: "FilterChain \<Rightarrow> nat \<Rightarrow> u64 list \<Rightarrow> u64 \<Rightarrow> SeccompVerdict" where
  "chain_verdict ch nr args saved_rip =
     (if fc_strict ch then if nr \<in> set STRICT_ALLOWLIST then Allow else Kill
      else if fc_filters ch = [] then Allow
      else let data = \<lparr>sd_nr = of_nat nr, sd_arch = AUDIT_ARCH_X86_64, sd_ip = saved_rip, sd_args = args\<rparr>;
               bytes = as_bytes data;
               (worst, _) = worst_action (rev (fc_filters ch)) bytes
                 (SECCOMP_RET_ALLOW, seccomp_action_rank SECCOMP_RET_ALLOW)
           in action_to_verdict worst)"

definition seccomp_check :: "nat \<Rightarrow> proc_table \<Rightarrow> nat \<Rightarrow> u64 list \<Rightarrow> u64 \<Rightarrow> SeccompVerdict" where
  "seccomp_check cur t nr args saved_rip =
     (if cur = 0 then Allow
      else case with_proc cur p_seccomp t of
             None \<Rightarrow> Allow
           | Some ch \<Rightarrow> chain_verdict ch nr args saved_rip)"

subsection \<open>The system call\<close>

definition INSN_SZ :: nat where "INSN_SZ = 8"

definition parse_insn :: "u8 list \<Rightarrow> SockFilter" where
  "parse_insn b = \<lparr>sf_code = of_nat (from_le_bytes (take 2 b)), sf_jt = b ! 2, sf_jf = b ! 3,
     sf_k = of_nat (from_le_bytes (take 4 (drop 4 b)))\<rparr>"

definition parse_insns :: "nat \<Rightarrow> u8 list \<Rightarrow> SockFilter list" where
  "parse_insns len raw = map (\<lambda>i. parse_insn (take INSN_SZ (drop (i * INSN_SZ) raw))) [0..<len]"

definition push_filter :: "SeccompFilter \<Rightarrow> Pcb \<Rightarrow> Pcb" where
  "push_filter f p = p\<lparr>p_seccomp := (p_seccomp p)\<lparr>fc_filters := fc_filters (p_seccomp p) @ [f]\<rparr>\<rparr>"

fun tsync_filter :: "nat \<Rightarrow> SeccompFilter \<Rightarrow> nat list \<Rightarrow> proc_table \<Rightarrow> proc_table" where
  "tsync_filter cur f [] t = t"
| "tsync_filter cur f (tid # tids) t =
     tsync_filter cur f tids (if tid \<noteq> cur then with_proc_mut tid (push_filter f) t else t)"

definition set_mode_filter :: "nat \<Rightarrow> umem \<Rightarrow> u32 \<Rightarrow> nat \<Rightarrow> proc_table \<Rightarrow> int \<times> proc_table" where
  "set_mode_filter cur um flags args_va t =
     (if args_va = 0 then (- EFAULT, t)
      else case copy_from_user um args_va 16 of
        None \<Rightarrow> (- EFAULT, t)
      | Some fprog \<Rightarrow>
          let len = from_le_bytes (take 2 fprog);
              filter_ptr = from_le_bytes (take 8 (drop 8 fprog))
          in if len = 0 \<or> len > BPF_MAXINSNS then (- EINVAL, t)
             else if filter_ptr = 0 then (- EFAULT, t)
             else case copy_from_user um filter_ptr (len * INSN_SZ) of
               None \<Rightarrow> (- EFAULT, t)
             | Some raw \<Rightarrow>
                 let insns = parse_insns len raw;
                     f = \<lparr>sfl_insns = insns, sfl_log = (flags AND SECCOMP_FILTER_FLAG_LOG \<noteq> 0)\<rparr>;
                     t1 = with_proc_mut cur (push_filter f) t;
                     t2 = (if flags AND SECCOMP_FILTER_FLAG_TSYNC \<noteq> 0
                           then tsync_filter cur f (threads_of (tgid_of cur t1) t1) t1 else t1)
                 in (0, t2))"

definition action_avail :: "u32 \<Rightarrow> bool" where
  "action_avail action \<longleftrightarrow>
     action \<in> set [SECCOMP_RET_KILL_PROCESS, SECCOMP_RET_KILL_THREAD, SECCOMP_RET_TRAP, SECCOMP_RET_ERRNO,
       SECCOMP_RET_LOG, SECCOMP_RET_ALLOW]"

definition seccomp_gate :: "nat \<Rightarrow> proc_table \<Rightarrow> bool" where
  "seccomp_gate cur t \<longleftrightarrow>
     with_proc cur (\<lambda>p. fc_strict (p_seccomp p) \<or> fc_filters (p_seccomp p) \<noteq> []) t = Some True \<or>
     with_proc cur (\<lambda>p. cap_has (p_caps p) CAP_SYS_ADMIN_nr) t = Some True \<or>
     with_proc cur p_no_new_privs t = Some True"

definition sys_seccomp ::
  "nat \<Rightarrow> umem \<Rightarrow> int \<Rightarrow> u32 \<Rightarrow> u32 \<Rightarrow> nat \<Rightarrow> proc_table \<Rightarrow> int \<times> proc_table" where
  "sys_seccomp cur um eventfd_ret operation flags args_va t =
     (if cur = 0 then (- EPERM, t)
      else if \<not> seccomp_gate cur t then (- EPERM, t)
      else if operation = SECCOMP_SET_MODE_STRICT
        then if flags \<noteq> 0 then (- EINVAL, t)
             else (0, with_proc_mut cur (\<lambda>p. p\<lparr>p_seccomp := \<lparr>fc_filters = [], fc_strict = True\<rparr>\<rparr>) t)
      else if operation = SECCOMP_SET_MODE_FILTER then set_mode_filter cur um flags args_va t
      else if operation = SECCOMP_GET_ACTION_AVAIL
        then (case copy_from_user um args_va 4 of
                None \<Rightarrow> (- EFAULT, t)
              | Some buf \<Rightarrow>
                  let action = of_nat (from_le_bytes buf) AND SECCOMP_RET_ACTION_FULL
                  in (if action_avail action then 0 else - EINVAL, t))
      else if operation = SECCOMP_GET_NOTIF_FD then (eventfd_ret, t)
      else (- EINVAL, t))"

definition inherit_seccomp :: "nat \<Rightarrow> proc_table \<Rightarrow> FilterChain" where
  "inherit_seccomp parent t = (case with_proc parent p_seccomp t of Some c \<Rightarrow> c | None \<Rightarrow> FilterChain_default)"

definition lacks_arch_check :: "SockFilter list \<Rightarrow> bool" where
  "lacks_arch_check insns \<longleftrightarrow> \<not> (\<exists>ins \<in> set insns. sf_code ins = BPF_LD OR BPF_W OR BPF_ABS \<and> sf_k ins = 4)"

subsection \<open>The most restrictive action\<close>

definition filter_rank :: "u8 list \<Rightarrow> SeccompFilter \<Rightarrow> nat" where
  "filter_rank bytes f = seccomp_action_rank (bpf_run (sfl_insns f) bytes AND SECCOMP_RET_ACTION_FULL)"

lemma action_allow_rank:
  "action_to_verdict ret = Allow \<longleftrightarrow> 6 \<le> seccomp_action_rank (ret AND SECCOMP_RET_ACTION_FULL)"
proof -
  define a where "a = ret AND SECCOMP_RET_ACTION_FULL"
  show ?thesis
    unfolding action_to_verdict_def seccomp_action_rank_def a_def [symmetric] Let_def
    by (simp add: seccomp_ret_defs)
qed

lemma worst_action_rank:
  assumes "r = seccomp_action_rank (w AND SECCOMP_RET_ACTION_FULL)"
  shows "(case worst_action fs bytes (w, r) of (w', r') \<Rightarrow>
    r' = seccomp_action_rank (w' AND SECCOMP_RET_ACTION_FULL) \<and> r' = foldl min r (map (filter_rank bytes) fs))"
  using assms
proof (induction fs arbitrary: w r)
  case (Cons f fs)
  let ?ret = "bpf_run (sfl_insns f) bytes"
  let ?w = "if filter_rank bytes f < r then ?ret else w"
  have r: "min r (filter_rank bytes f) = seccomp_action_rank (?w AND SECCOMP_RET_ACTION_FULL)"
    using Cons.prems by (auto simp: filter_rank_def)
  have "worst_action (f # fs) bytes (w, r) = worst_action fs bytes (?w, min r (filter_rank bytes f))"
    by (auto simp: filter_rank_def Let_def)
  then show ?case using Cons.IH [OF r] by simp
qed simp

lemma foldl_min_ge: "k \<le> foldl min r xs \<longleftrightarrow> k \<le> (r :: nat) \<and> (\<forall>x \<in> set xs. k \<le> x)"
  by (induction xs arbitrary: r) auto

definition check_bytes :: "nat \<Rightarrow> u64 list \<Rightarrow> u64 \<Rightarrow> u8 list" where
  "check_bytes nr args ip = as_bytes \<lparr>sd_nr = of_nat nr, sd_arch = AUDIT_ARCH_X86_64, sd_ip = ip, sd_args = args\<rparr>"

lemma chain_allow_iff:
  assumes "\<not> fc_strict ch"
  shows "chain_verdict ch nr args ip = Allow \<longleftrightarrow>
    (\<forall>f \<in> set (fc_filters ch). 6 \<le> filter_rank (check_bytes nr args ip) f)"
proof (cases "fc_filters ch = []")
  case True
  then show ?thesis using assms by (simp add: chain_verdict_def)
next
  case False
  let ?b = "check_bytes nr args ip"
  obtain w r where wr: "worst_action (rev (fc_filters ch)) ?b
      (SECCOMP_RET_ALLOW, seccomp_action_rank SECCOMP_RET_ALLOW) = (w, r)" by (metis surj_pair)
  have al: "seccomp_action_rank SECCOMP_RET_ALLOW =
      seccomp_action_rank (SECCOMP_RET_ALLOW AND SECCOMP_RET_ACTION_FULL)"
    "seccomp_action_rank SECCOMP_RET_ALLOW = 7"
    by (simp_all add: SECCOMP_RET_ACTION_FULL_def seccomp_action_rank_def seccomp_ret_defs)
  have r: "r = seccomp_action_rank (w AND SECCOMP_RET_ACTION_FULL)"
    "r = foldl min 7 (map (filter_rank ?b) (rev (fc_filters ch)))"
    using worst_action_rank [OF al(1), where fs = "rev (fc_filters ch)" and bytes = ?b] wr al(2) by auto
  have "chain_verdict ch nr args ip = action_to_verdict w"
    using assms False wr by (simp add: chain_verdict_def check_bytes_def Let_def)
  then have "chain_verdict ch nr args ip = Allow \<longleftrightarrow> 6 \<le> r"
    by (simp add: action_allow_rank r(1) [symmetric])
  also have "\<dots> \<longleftrightarrow> (\<forall>f \<in> set (fc_filters ch). 6 \<le> filter_rank ?b f)"
    unfolding r(2) foldl_min_ge by simp
  finally show ?thesis .
qed

subsection \<open>Installing filters\<close>

text \<open>\<open>t'\<close> differs from \<open>t\<close> at most in filters appended to chains.\<close>

definition more_filters :: "Pcb \<Rightarrow> Pcb \<Rightarrow> bool" where
  "more_filters q q' \<longleftrightarrow> (\<exists>fs. p_seccomp q' = (p_seccomp q)\<lparr>fc_filters := fc_filters (p_seccomp q) @ fs\<rparr>)"

definition extends :: "proc_table \<Rightarrow> proc_table \<Rightarrow> bool" where
  "extends t t' \<longleftrightarrow> (\<forall>r. rel_option more_filters (find_proc_lock r t) (find_proc_lock r t'))"

lemma more_filters_refl: "more_filters q q"
  unfolding more_filters_def by (intro exI [of _ "[]"]) simp

lemma more_filters_push: "more_filters q (push_filter f q)"
  unfolding more_filters_def by (intro exI [of _ "[f]"]) (simp add: push_filter_def)

lemma more_filters_trans:
  assumes "more_filters a b" "more_filters b c"
  shows "more_filters a c"
proof -
  from assms obtain fs gs where "p_seccomp b = (p_seccomp a)\<lparr>fc_filters := fc_filters (p_seccomp a) @ fs\<rparr>"
    "p_seccomp c = (p_seccomp b)\<lparr>fc_filters := fc_filters (p_seccomp b) @ gs\<rparr>"
    unfolding more_filters_def by blast
  then show ?thesis unfolding more_filters_def by (intro exI [of _ "fs @ gs"]) simp
qed

lemma extends_refl: "extends t t"
  by (simp add: extends_def option.rel_refl more_filters_refl)

lemma extends_trans:
  assumes "extends t t'" "extends t' t''"
  shows "extends t t''"
  unfolding extends_def
proof
  fix r
  have "rel_option more_filters (find_proc_lock r t) (find_proc_lock r t')"
    "rel_option more_filters (find_proc_lock r t') (find_proc_lock r t'')"
    using assms unfolding extends_def by blast+
  then show "rel_option more_filters (find_proc_lock r t) (find_proc_lock r t'')"
    by (cases "find_proc_lock r t"; cases "find_proc_lock r t'"; cases "find_proc_lock r t''")
      (auto intro: more_filters_trans)
qed

lemma push_filter_pid [simp]: "p_pid (push_filter f q) = p_pid q" "p_tgid (push_filter f q) = p_tgid q"
  by (simp_all add: push_filter_def)

lemma extends_push: "extends t (with_proc_mut p (push_filter f) t)"
  by (auto simp: extends_def find_with_proc_mut option.rel_map option.rel_refl more_filters_refl
      more_filters_push intro: option.rel_refl_strong)

lemma extends_tsync: "extends t (tsync_filter cur f tids t)"
proof (induction tids arbitrary: t)
  case Nil
  then show ?case by (simp add: extends_refl)
next
  case (Cons tid tids)
  have "extends t (if tid \<noteq> cur then with_proc_mut tid (push_filter f) t else t)"
    using extends_push extends_refl by simp
  then show ?case using extends_trans Cons.IH by (metis tsync_filter.simps(2))
qed

lemma extends_set_mode_filter: "extends t (snd (set_mode_filter cur um flags args_va t))"
  using extends_trans [OF extends_push extends_tsync] extends_push extends_refl
  by (auto simp: set_mode_filter_def Let_def split: option.split)

lemma seccomp_check_proc:
  "cur \<noteq> 0 \<Longrightarrow> find_proc_lock cur t = Some q \<Longrightarrow>
   seccomp_check cur t nr args ip = chain_verdict (p_seccomp q) nr args ip"
  by (simp add: seccomp_check_def with_proc_def)

lemma extends_check:
  assumes "extends t t'" "seccomp_check cur t' nr args ip = Allow"
  shows "seccomp_check cur t nr args ip = Allow"
proof (cases "find_proc_lock cur t")
  case None
  then show ?thesis by (simp add: seccomp_check_def with_proc_def)
next
  case (Some q)
  have "rel_option more_filters (find_proc_lock cur t) (find_proc_lock cur t')"
    using assms(1) by (simp add: extends_def)
  with Some obtain q' fs where q': "find_proc_lock cur t' = Some q'"
    "p_seccomp q' = (p_seccomp q)\<lparr>fc_filters := fc_filters (p_seccomp q) @ fs\<rparr>"
    by (cases "find_proc_lock cur t'") (auto simp: more_filters_def)
  show ?thesis
  proof (cases "cur = 0")
    case True
    then show ?thesis by (simp add: seccomp_check_def)
  next
    case False
    then have allow: "chain_verdict (p_seccomp q') nr args ip = Allow"
      using assms(2) q'(1) by (simp add: seccomp_check_proc)
    have "chain_verdict (p_seccomp q) nr args ip = Allow"
    proof (cases "fc_strict (p_seccomp q)")
      case True
      then show ?thesis using allow q'(2) by (simp add: chain_verdict_def)
    next
      case False
      then show ?thesis using allow q'(2) by (simp add: chain_allow_iff)
    qed
    then show ?thesis using False Some by (simp add: seccomp_check_proc)
  qed
qed

subsection \<open>Decoding programs\<close>

definition encode_insn :: "SockFilter \<Rightarrow> u8 list" where
  "encode_insn ins = le_bytes 2 (sf_code ins) @ [sf_jt ins, sf_jf ins] @ le_bytes 4 (sf_k ins)"

lemma length_encode_insn [simp]: "length (encode_insn ins) = INSN_SZ"
  by (simp add: encode_insn_def INSN_SZ_def)

lemma parse_encode_insn: "parse_insn (encode_insn ins) = ins"
proof -
  have "unat (sf_code ins) < 256 ^ 2" "unat (sf_k ins) < 256 ^ 4"
    using unsigned_less [where w = "sf_code ins"] unsigned_less [where w = "sf_k ins"] by simp_all
  then show ?thesis
    by (simp add: parse_insn_def encode_insn_def nth_append from_le_bytes_le_bytes)
qed

lemma parse_encode_insns: "parse_insns (length insns) (concat (map encode_insn insns)) = insns"
proof -
  have slice: "i < length insns \<Longrightarrow>
      take INSN_SZ (drop (i * INSN_SZ) (concat (map encode_insn insns))) = encode_insn (insns ! i)" for i
  proof (induction insns arbitrary: i)
    case (Cons ins insns)
    show ?case
    proof (cases i)
      case 0
      then show ?thesis by simp
    next
      case (Suc j)
      then show ?thesis using Cons by simp
    qed
  qed simp
  have "parse_insns (length insns) (concat (map encode_insn insns)) = map (\<lambda>i. insns ! i) [0..<length insns]"
    unfolding parse_insns_def by (rule map_cong) (simp_all add: slice parse_encode_insn)
  then show ?thesis by (simp add: map_nth)
qed

subsection \<open>Properties\<close>

text \<open>
  C7. A system call is allowed exactly when every installed filter returns an allowing action
  (\<open>ALLOW\<close> or \<open>LOG\<close>): the verdict of a chain is the one of its most restrictive filter.
\<close>

theorem seccomp_allow_iff:
  assumes "cur \<noteq> 0" "find_proc_lock cur t = Some p" "\<not> fc_strict (p_seccomp p)"
  shows "seccomp_check cur t nr args ip = Allow \<longleftrightarrow>
    (\<forall>f \<in> set (fc_filters (p_seccomp p)).
       bpf_run (sfl_insns f) (check_bytes nr args ip) AND SECCOMP_RET_ACTION_FULL
         \<in> {SECCOMP_RET_ALLOW, SECCOMP_RET_LOG})"
proof -
  have "6 \<le> seccomp_action_rank a \<longleftrightarrow> a \<in> {SECCOMP_RET_ALLOW, SECCOMP_RET_LOG}" for a
    by (auto simp: seccomp_action_rank_def seccomp_ret_defs)
  then show ?thesis
    using assms by (simp add: seccomp_check_proc chain_allow_iff filter_rank_def)
qed

definition ret_filter :: "u32 \<Rightarrow> SeccompFilter" where
  "ret_filter k = \<lparr>sfl_insns = [\<lparr>sf_code = 6, sf_jt = 0, sf_jf = 0, sf_k = k\<rparr>], sfl_log = False\<rparr>"

lemma ret_filter_run: "bpf_run (sfl_insns (ret_filter k)) bytes = k"
  by (simp add: ret_filter_def bpf_run_def bpf_loop.simps bpf_init_def bpf_step_def bpf_load_def bpf_alu_def
      bpf_jump_def bpf_code_defs Let_def BPF_MAXINSNS_def BPF_MAX_STEPS_def)

definition demo_proc :: "SeccompFilter list \<Rightarrow> Pcb" where
  "demo_proc fs = \<lparr>p_pid = 7, p_tgid = 7, p_caps = capset_empty, p_euid = 1000, p_egid = 1000,
     p_supp_groups = [], p_no_new_privs = True, p_seccomp = \<lparr>fc_filters = fs, fc_strict = False\<rparr>,
     p_rlimits = rlimit_default\<rparr>"

theorem seccomp_allow_iff_witness:
  "seccomp_check 7 [demo_proc [ret_filter SECCOMP_RET_ALLOW, ret_filter 0x00050001]] 0 [] 0 \<noteq> Allow \<and>
   seccomp_check 7 [demo_proc [ret_filter SECCOMP_RET_ALLOW, ret_filter SECCOMP_RET_LOG]] 0 [] 0 = Allow"
proof -
  have find: "find_proc_lock 7 [demo_proc fs] = Some (demo_proc fs)" for fs
    by (simp add: find_proc_lock_def demo_proc_def)
  show ?thesis
    using seccomp_allow_iff [of 7 "[demo_proc [ret_filter SECCOMP_RET_ALLOW, ret_filter 0x00050001]]", OF _ find, of 0 "[]" 0]
      seccomp_allow_iff [of 7 "[demo_proc [ret_filter SECCOMP_RET_ALLOW, ret_filter SECCOMP_RET_LOG]]", OF _ find, of 0 "[]" 0]
    by (simp add: ret_filter_run) (simp add: demo_proc_def ret_filter_run SECCOMP_RET_ACTION_FULL_def seccomp_ret_defs)
qed

text \<open>
  C8. Installing filters never loosens the sandbox of any process: if after a \<open>sys_seccomp\<close>
  call other than the strict mode some process is allowed a system call, it was allowed it
  before, thread synchronisation included.
\<close>

theorem seccomp_install_never_loosens:
  assumes "operation \<noteq> SECCOMP_SET_MODE_STRICT"
    "seccomp_check pid (snd (sys_seccomp cur um fd operation flags args_va t)) nr args ip = Allow"
  shows "seccomp_check pid t nr args ip = Allow"
proof -
  have "extends t (snd (sys_seccomp cur um fd operation flags args_va t))"
    using assms(1) extends_set_mode_filter extends_refl
    by (auto simp: sys_seccomp_def Let_def split: option.split)
  then show ?thesis using assms(2) extends_check by blast
qed

text \<open>User memory with a \<open>sock_fprog\<close> at 0x1000 that points to one instruction at 0x2000.\<close>

definition demo_umem :: "u32 \<Rightarrow> umem" where
  "demo_umem k a =
     (if 0x1000 \<le> a \<and> a < 0x1010 then Some (([1, 0, 0, 0, 0, 0, 0, 0, 0, 0x20, 0, 0, 0, 0, 0, 0] :: u8 list) ! (a - 0x1000))
      else if 0x2000 \<le> a \<and> a < 0x2008
      then Some (encode_insn \<lparr>sf_code = 6, sf_jt = 0, sf_jf = 0, sf_k = k\<rparr> ! (a - 0x2000))
      else None)"

lemma map_nth_offset: "map (\<lambda>a. xs ! (a - n)) [n..<n + length xs] = xs"
  by (rule nth_equalityI) simp_all

lemma demo_umem_fprog:
  "copy_from_user (demo_umem k) 0x1000 16 = Some [1, 0, 0, 0, 0, 0, 0, 0, 0, 0x20, 0, 0, 0, 0, 0, 0]"
  by (simp add: copy_from_user_def user_access_ok_def usize_max_def USER_ADDR_MAX_def upt_rec demo_umem_def)

lemma demo_umem_insn:
  "copy_from_user (demo_umem k) 0x2000 8 = Some (encode_insn \<lparr>sf_code = 6, sf_jt = 0, sf_jf = 0, sf_k = k\<rparr>)"
  (is "_ = Some ?e")
proof -
  have "those (map (demo_umem k) [0x2000..<0x2000 + 8]) = Some (map (\<lambda>a. ?e ! (a - 0x2000)) [0x2000..<0x2000 + 8])"
    by (rule those_map_Some) (auto simp: demo_umem_def)
  moreover have "map (\<lambda>a. ?e ! (a - 0x2000)) [0x2000..<0x2000 + 8] = ?e"
    using map_nth_offset [where xs = ?e and n = "0x2000"] by (simp only: length_encode_insn INSN_SZ_def)
  ultimately show ?thesis
    by (simp add: copy_from_user_def user_access_ok_def usize_max_def USER_ADDR_MAX_def)
qed

theorem seccomp_install_never_loosens_witness:
  "seccomp_check 7 (snd (sys_seccomp 7 (demo_umem SECCOMP_RET_ALLOW) 3 SECCOMP_SET_MODE_FILTER 0 0x1000
       [demo_proc [ret_filter SECCOMP_RET_LOG]])) 0 [] 0 = Allow \<and>
   seccomp_check 7 [demo_proc [ret_filter SECCOMP_RET_LOG]] 0 [] 0 = Allow"
proof -
  let ?t = "[demo_proc [ret_filter SECCOMP_RET_LOG]]"
  let ?r = "sys_seccomp 7 (demo_umem SECCOMP_RET_ALLOW) 3 SECCOMP_SET_MODE_FILTER 0 0x1000 ?t"
  have parse: "parse_insns 1 (encode_insn \<lparr>sf_code = 6, sf_jt = 0, sf_jf = 0, sf_k = SECCOMP_RET_ALLOW\<rparr>)
      = sfl_insns (ret_filter SECCOMP_RET_ALLOW)"
    using parse_encode_insns [of "sfl_insns (ret_filter SECCOMP_RET_ALLOW)"] by (simp add: ret_filter_def)
  have "snd ?r = [push_filter (ret_filter SECCOMP_RET_ALLOW) (demo_proc [ret_filter SECCOMP_RET_LOG])]"
    using demo_umem_insn [of SECCOMP_RET_ALLOW] parse
    by (simp add: sys_seccomp_def seccomp_gate_def with_proc_def find_proc_lock_def set_mode_filter_def
        demo_umem_fprog from_le_bytes_def INSN_SZ_def BPF_MAXINSNS_def Let_def SECCOMP_SET_MODE_FILTER_def
        SECCOMP_SET_MODE_STRICT_def) (simp add: demo_proc_def ret_filter_def)
  then have "seccomp_check 7 (snd ?r) 0 [] 0 = Allow"
    by (simp add: seccomp_check_def with_proc_def find_proc_lock_def push_filter_def demo_proc_def
        chain_allow_iff filter_rank_def ret_filter_run)
      (simp add: SECCOMP_RET_ACTION_FULL_def seccomp_action_rank_def seccomp_ret_defs)
  then show ?thesis
    using seccomp_install_never_loosens [where operation = SECCOMP_SET_MODE_FILTER and pid = 7 and cur = 7
        and um = "demo_umem SECCOMP_RET_ALLOW" and fd = 3 and flags = 0 and args_va = "0x1000" and t = ?t
        and nr = 0 and args = "[]" and ip = 0]
    by (simp add: SECCOMP_SET_MODE_FILTER_def SECCOMP_SET_MODE_STRICT_def)
qed

text \<open>
  The verdict of a filter chain does not depend on the system call: every instruction
  that reads the system call number, the architecture, the arguments or scratch memory ends
  the program with \<open>KILL_PROCESS\<close>, because the \<open>return\<close> passed to \<open>unwrap_or\<close> is evaluated
  eagerly. A filter that inspects its input therefore kills every caller.
\<close>

theorem seccomp_verdict_ignores_syscall:
  assumes "find_proc_lock cur t = Some p" "\<not> fc_strict (p_seccomp p)"
  shows "seccomp_check cur t nr args ip = seccomp_check cur t nr' args' ip'"
proof -
  have run: "worst_action fs b w = worst_action fs b' w" for fs b b' w
  proof (induction fs arbitrary: w)
    case (Cons f fs)
    obtain x r where "w = (x, r)" by (metis surj_pair)
    then show ?case using Cons bpf_run_data [of "sfl_insns f" b b'] by (simp add: Let_def)
  qed simp
  have "chain_verdict (p_seccomp p) nr args ip = chain_verdict (p_seccomp p) nr' args' ip'"
    using assms(2) run [of _ "as_bytes \<lparr>sd_nr = of_nat nr, sd_arch = AUDIT_ARCH_X86_64, sd_ip = ip, sd_args = args\<rparr>"
        _ "as_bytes \<lparr>sd_nr = of_nat nr', sd_arch = AUDIT_ARCH_X86_64, sd_ip = ip', sd_args = args'\<rparr>"]
    by (simp add: chain_verdict_def Let_def)
  then show ?thesis using assms(1) by (simp add: seccomp_check_def with_proc_def)
qed

definition load_nr_filter :: SeccompFilter where
  "load_nr_filter = \<lparr>sfl_insns = [\<lparr>sf_code = 0x20, sf_jt = 0, sf_jf = 0, sf_k = 0\<rparr>,
     \<lparr>sf_code = 6, sf_jt = 0, sf_jf = 0, sf_k = 0x7FFF0000\<rparr>], sfl_log = False\<rparr>"

theorem seccomp_verdict_ignores_syscall_witness:
  "seccomp_check 7 [demo_proc [load_nr_filter]] 0 [] 0 = Kill \<and>
   seccomp_check 7 [demo_proc [load_nr_filter]] 0 [] 0 = seccomp_check 7 [demo_proc [load_nr_filter]] 60 [1] 5"
proof -
  have f: "find_proc_lock 7 [demo_proc [load_nr_filter]] = Some (demo_proc [load_nr_filter])"
    "\<not> fc_strict (p_seccomp (demo_proc [load_nr_filter]))"
    by (simp_all add: find_proc_lock_def demo_proc_def)
  have run: "bpf_run (sfl_insns load_nr_filter) b = SECCOMP_RET_KILL_PROCESS" for b
    by (simp add: load_nr_filter_def bpf_run_def bpf_loop.simps bpf_init_def bpf_step_def bpf_load_def
        unwrap_or_return_def bpf_code_defs Let_def BPF_MAXINSNS_def BPF_MAX_STEPS_def)
  have "seccomp_check 7 [demo_proc [load_nr_filter]] 0 [] 0 = Kill"
    using f by (simp add: seccomp_check_proc)
      (simp add: demo_proc_def chain_verdict_def run Let_def seccomp_action_rank_def action_to_verdict_def
        SECCOMP_RET_ACTION_FULL_def seccomp_ret_defs)
  then show ?thesis using seccomp_verdict_ignores_syscall [OF f, where nr = 0 and args = "[]" and ip = 0
        and nr' = 60 and args' = "[1]" and ip' = 5] by simp
qed

text \<open>
  \<open>SECCOMP_SET_MODE_STRICT\<close> discards the filters of the process: afterwards every system
  call of the strict list is allowed, whatever the filters said, although a sandboxed process
  is meant to be unable to remove existing filters.
\<close>

theorem seccomp_strict_discards_filters:
  assumes "cur \<noteq> 0" "find_proc_lock cur t = Some p" "fc_filters (p_seccomp p) \<noteq> []" "nr \<in> set STRICT_ALLOWLIST"
  shows "fst (sys_seccomp cur um fd SECCOMP_SET_MODE_STRICT 0 args_va t) = 0 \<and>
    seccomp_check cur (snd (sys_seccomp cur um fd SECCOMP_SET_MODE_STRICT 0 args_va t)) nr args ip = Allow"
proof -
  have "seccomp_gate cur t" using assms(2,3) by (simp add: seccomp_gate_def with_proc_def)
  then have "sys_seccomp cur um fd SECCOMP_SET_MODE_STRICT 0 args_va t =
      (0, with_proc_mut cur (\<lambda>p. p\<lparr>p_seccomp := \<lparr>fc_filters = [], fc_strict = True\<rparr>\<rparr>) t)"
    using assms(1) by (simp add: sys_seccomp_def)
  then show ?thesis
    using assms by (simp add: seccomp_check_def with_proc_def find_with_proc_mut chain_verdict_def)
qed

theorem seccomp_strict_discards_filters_witness:
  "seccomp_check 7 [demo_proc [ret_filter SECCOMP_RET_KILL_PROCESS]] 0 [] 0 = Kill \<and>
   seccomp_check 7 (snd (sys_seccomp 7 (\<lambda>_. None) 3 SECCOMP_SET_MODE_STRICT 0 0
     [demo_proc [ret_filter SECCOMP_RET_KILL_PROCESS]])) 0 [] 0 = Allow"
proof -
  let ?p = "demo_proc [ret_filter SECCOMP_RET_KILL_PROCESS]"
  have f: "find_proc_lock 7 [?p] = Some ?p" by (simp add: find_proc_lock_def demo_proc_def)
  have "seccomp_check 7 [?p] 0 [] 0 = Kill"
    using f by (simp add: seccomp_check_proc)
      (simp add: demo_proc_def chain_verdict_def ret_filter_run Let_def seccomp_action_rank_def
        action_to_verdict_def SECCOMP_RET_ACTION_FULL_def seccomp_ret_defs)
  moreover have "fc_filters (p_seccomp ?p) \<noteq> []" "0 \<in> set STRICT_ALLOWLIST"
    by (simp_all add: demo_proc_def STRICT_ALLOWLIST_def)
  ultimately show ?thesis
    using seccomp_strict_discards_filters [OF _ f, where nr = 0 and um = "\<lambda>_. None" and fd = 3
        and args_va = 0 and args = "[]" and ip = 0] by simp
qed

definition last_filter :: "SeccompFilter \<Rightarrow> nat \<Rightarrow> proc_table \<Rightarrow> bool" where
  "last_filter f tid t \<longleftrightarrow>
     (\<exists>q. find_proc_lock tid t = Some q \<and> fc_filters (p_seccomp q) \<noteq> [] \<and> last (fc_filters (p_seccomp q)) = f)"

lemma last_filter_push: "last_filter f tid t \<Longrightarrow> last_filter f tid (with_proc_mut x (push_filter f) t)"
  by (auto simp: last_filter_def find_with_proc_mut push_filter_def)

lemma last_filter_pushed: "find_proc_lock tid t = Some q \<Longrightarrow> last_filter f tid (with_proc_mut tid (push_filter f) t)"
  by (auto simp: last_filter_def find_with_proc_mut push_filter_def)

lemma last_filter_tsync: "last_filter f tid t \<Longrightarrow> last_filter f tid (tsync_filter cur f tids t)"
  by (induction tids arbitrary: t) (simp_all add: last_filter_push)

lemma tsync_filter_all:
  assumes "tid \<in> set tids" "tid \<noteq> cur" "find_proc_lock tid t = Some q"
  shows "last_filter f tid (tsync_filter cur f tids t)"
  using assms
proof (induction tids arbitrary: t q)
  case (Cons x tids)
  show ?case
  proof (cases "x = tid")
    case True
    then show ?thesis using Cons.prems by (auto intro: last_filter_tsync last_filter_pushed)
  next
    case False
    have "\<exists>q'. find_proc_lock tid (if x \<noteq> cur then with_proc_mut x (push_filter f) t else t) = Some q'"
      using Cons.prems(3) False by (simp add: find_with_proc_mut)
    then show ?thesis using Cons.IH Cons.prems False by (metis set_ConsD tsync_filter.simps(2))
  qed
qed simp

lemma tsync_group:
  assumes "find_proc_lock cur t = Some p" "find_proc_lock tid t = Some q" "p_tgid q = p_tgid p"
    and t1: "t1 = with_proc_mut cur (push_filter f) t"
  shows "last_filter f tid (tsync_filter cur f (threads_of (tgid_of cur t1) t1) t1)"
proof (cases "tid = cur")
  case True
  then show ?thesis using last_filter_tsync last_filter_pushed assms(1) t1 by blast
next
  case False
  have g: "tgid_of cur t1 = p_tgid p"
    using assms(1) by (simp add: tgid_of_def with_proc_def t1 find_with_proc_mut)
  have "find_proc_lock tid t1 = Some q" using assms(2) False by (simp add: t1 find_with_proc_mut)
  then show ?thesis using tsync_filter_all [OF _ False] threads_of_in [of tid t1 q] assms(3) g by metis
qed

text \<open>
  C10. Installing a filter program from user memory appends exactly that program: when the
  user memory holds a \<open>sock_fprog\<close> and the byte encoding of the instructions, the call returns
  0 and the decoded program is the newest filter of the caller, and with \<open>TSYNC\<close> of every
  thread of its group.
\<close>

theorem seccomp_filter_roundtrip:
  assumes "cur \<noteq> 0" "find_proc_lock cur t = Some p" "seccomp_gate cur t"
    and "va \<noteq> 0" "copy_from_user um va 16 = Some fprog" "from_le_bytes (take 2 fprog) = length insns"
      "from_le_bytes (take 8 (drop 8 fprog)) = ptr" "ptr \<noteq> 0"
      "copy_from_user um ptr (length insns * INSN_SZ) = Some (concat (map encode_insn insns))"
      "0 < length insns" "length insns \<le> BPF_MAXINSNS"
    and "find_proc_lock tid t = Some q"
      "tid = cur \<or> flags AND SECCOMP_FILTER_FLAG_TSYNC \<noteq> 0 \<and> p_tgid q = p_tgid p"
  shows "fst (sys_seccomp cur um fd SECCOMP_SET_MODE_FILTER flags va t) = 0 \<and>
    last_filter \<lparr>sfl_insns = insns, sfl_log = (flags AND SECCOMP_FILTER_FLAG_LOG \<noteq> 0)\<rparr> tid
      (snd (sys_seccomp cur um fd SECCOMP_SET_MODE_FILTER flags va t))"
proof -
  define f where "f = \<lparr>sfl_insns = insns, sfl_log = (flags AND SECCOMP_FILTER_FLAG_LOG \<noteq> 0)\<rparr>"
  define t1 where "t1 = with_proc_mut cur (push_filter f) t"
  have "sys_seccomp cur um fd SECCOMP_SET_MODE_FILTER flags va t = set_mode_filter cur um flags va t"
    using assms(1,3) by (simp add: sys_seccomp_def SECCOMP_SET_MODE_FILTER_def SECCOMP_SET_MODE_STRICT_def)
  also have "\<dots> = (0, if flags AND SECCOMP_FILTER_FLAG_TSYNC \<noteq> 0
      then tsync_filter cur f (threads_of (tgid_of cur t1) t1) t1 else t1)"
    using assms(4-11) by (simp add: set_mode_filter_def parse_encode_insns Let_def f_def t1_def)
  finally have r: "sys_seccomp cur um fd SECCOMP_SET_MODE_FILTER flags va t = \<dots>" .
  have "last_filter f tid (if flags AND SECCOMP_FILTER_FLAG_TSYNC \<noteq> 0
      then tsync_filter cur f (threads_of (tgid_of cur t1) t1) t1 else t1)"
    using assms(13) tsync_group [OF assms(2,12) _ t1_def] tsync_group [OF assms(2,2) refl t1_def]
      last_filter_pushed [OF assms(2), of f, folded t1_def] by auto
  then show ?thesis unfolding r f_def by simp
qed

theorem seccomp_filter_roundtrip_witness:
  "last_filter (ret_filter SECCOMP_RET_LOG) 8
     (snd (sys_seccomp 7 (demo_umem SECCOMP_RET_LOG) 3 SECCOMP_SET_MODE_FILTER 1 0x1000
       [demo_proc [], (demo_proc [])\<lparr>p_pid := 8\<rparr>]))"
proof -
  let ?t = "[demo_proc [], (demo_proc [])\<lparr>p_pid := 8\<rparr>]"
  let ?is = "sfl_insns (ret_filter SECCOMP_RET_LOG)"
  have f: "find_proc_lock 7 ?t = Some (demo_proc [])" "find_proc_lock 8 ?t = Some ((demo_proc [])\<lparr>p_pid := 8\<rparr>)"
    "seccomp_gate 7 ?t"
    by (simp_all add: find_proc_lock_def demo_proc_def seccomp_gate_def with_proc_def)
  have c: "copy_from_user (demo_umem SECCOMP_RET_LOG) 0x2000 (length ?is * INSN_SZ) = Some (concat (map encode_insn ?is))"
    using demo_umem_insn [of SECCOMP_RET_LOG] by (simp add: ret_filter_def INSN_SZ_def)
  show ?thesis
    using seccomp_filter_roundtrip [OF _ f(1,3) _ demo_umem_fprog _ _ _ c _ _ f(2), where flags = 1 and fd = 3]
    by (simp add: from_le_bytes_def ret_filter_def BPF_MAXINSNS_def demo_proc_def
        SECCOMP_FILTER_FLAG_TSYNC_def SECCOMP_FILTER_FLAG_LOG_def)
qed

end
