(* ===== verification/Lsm.thy ===== *)
theory Lsm
  imports Proc_Table
begin

unbundle bit_operations_syntax

section \<open>The security module layer\<close>

text \<open>
  The hook registry of \<^verbatim>\<open>src/security/lsm.rs\<close> and the discretionary access control module of
  \<^verbatim>\<open>src/security/dac.rs\<close>. A module is a record of its 21 hooks; a module that leaves a hook
  out has the default of the trait, which allows.
\<close>

datatype LsmVerdict = LAllow | Deny int | Log

definition is_allow :: "LsmVerdict \<Rightarrow> bool" where
  "is_allow v = (case v of LAllow \<Rightarrow> True | Log \<Rightarrow> True | Deny _ \<Rightarrow> False)"

definition verdict_errno :: "LsmVerdict \<Rightarrow> int" where
  "verdict_errno v = (case v of Deny e \<Rightarrow> e | _ \<Rightarrow> 0)"

definition SOCK_RAW :: u32 where "SOCK_RAW = 3"

record LsmCtx =
  c_pid :: nat
  c_euid :: u32
  c_egid :: u32
  c_caps :: u64
  c_supp_groups :: "u32 list"
  c_inode_uid :: u32
  c_inode_gid :: u32
  c_inode_mode :: u16
  c_path :: string
  c_signo :: int
  c_arg0 :: u64
  c_arg1 :: u64
  c_prot :: u32
  c_flags :: u32
  c_ipc_mode :: u16
  c_ipc_uid :: u32
  c_ipc_gid :: u32

definition with_creds :: "nat \<Rightarrow> u32 \<Rightarrow> u32 \<Rightarrow> u64 \<Rightarrow> u32 \<Rightarrow> u32 \<Rightarrow> u16 \<Rightarrow> LsmCtx" where
  "with_creds pid euid egid caps inode_uid inode_gid inode_mode =
     \<lparr>c_pid = pid, c_euid = euid, c_egid = egid, c_caps = caps, c_supp_groups = [], c_inode_uid = inode_uid,
      c_inode_gid = inode_gid, c_inode_mode = inode_mode, c_path = '''', c_signo = 0, c_arg0 = 0, c_arg1 = 0,
      c_prot = 0, c_flags = 0, c_ipc_mode = 0, c_ipc_uid = 0, c_ipc_gid = 0\<rparr>"

definition for_current_task :: "nat \<Rightarrow> proc_table \<Rightarrow> string \<Rightarrow> u32 \<Rightarrow> u16 \<Rightarrow> LsmCtx" where
  "for_current_task cur t path inode_uid inode_mode =
     (let (euid, egid, caps, groups) =
        (if cur \<noteq> 0
         then (case with_proc cur (\<lambda>p. (p_euid p, p_egid p, effective (p_caps p), p_supp_groups p)) t of
                 Some r \<Rightarrow> r | None \<Rightarrow> (0, 0, - 1, []))
         else (0, 0, - 1, []))
      in \<lparr>c_pid = cur, c_euid = euid, c_egid = egid, c_caps = caps, c_supp_groups = groups, c_inode_uid = inode_uid,
          c_inode_gid = 0, c_inode_mode = inode_mode, c_path = path, c_signo = 0, c_arg0 = 0, c_arg1 = 0,
          c_prot = 0, c_flags = 0, c_ipc_mode = 0, c_ipc_uid = 0, c_ipc_gid = 0\<rparr>)"

datatype Hook = FileOpen | FileRead | FileWrite | FileExec | InodeCreate | InodeUnlink | InodeRename
  | InodeSetattr | InodeGetattr | MmapFile | TaskCreate | TaskExec | TaskKill | TaskSetuid | TaskSetgid
  | SocketCreate | SocketConnect | SocketBind | SocketAccept | IpcPermission | SbMount

type_synonym hook_fn = "LsmCtx \<Rightarrow> LsmVerdict"

record LsmHooks =
  h_name :: string
  h_file_open :: hook_fn
  h_file_read :: hook_fn
  h_file_write :: hook_fn
  h_file_exec :: hook_fn
  h_inode_create :: hook_fn
  h_inode_unlink :: hook_fn
  h_inode_rename :: hook_fn
  h_inode_setattr :: hook_fn
  h_inode_getattr :: hook_fn
  h_mmap_file :: hook_fn
  h_task_create :: hook_fn
  h_task_exec :: hook_fn
  h_task_kill :: hook_fn
  h_task_setuid :: hook_fn
  h_task_setgid :: hook_fn
  h_socket_create :: hook_fn
  h_socket_connect :: hook_fn
  h_socket_bind :: hook_fn
  h_socket_accept :: hook_fn
  h_ipc_permission :: hook_fn
  h_sb_mount :: hook_fn

definition lsm_default :: "string \<Rightarrow> LsmHooks" where
  "lsm_default name = \<lparr>h_name = name, h_file_open = (\<lambda>_. LAllow), h_file_read = (\<lambda>_. LAllow),
     h_file_write = (\<lambda>_. LAllow), h_file_exec = (\<lambda>_. LAllow), h_inode_create = (\<lambda>_. LAllow),
     h_inode_unlink = (\<lambda>_. LAllow), h_inode_rename = (\<lambda>_. LAllow), h_inode_setattr = (\<lambda>_. LAllow),
     h_inode_getattr = (\<lambda>_. LAllow), h_mmap_file = (\<lambda>_. LAllow), h_task_create = (\<lambda>_. LAllow),
     h_task_exec = (\<lambda>_. LAllow), h_task_kill = (\<lambda>_. LAllow), h_task_setuid = (\<lambda>_. LAllow),
     h_task_setgid = (\<lambda>_. LAllow), h_socket_create = (\<lambda>_. LAllow), h_socket_connect = (\<lambda>_. LAllow),
     h_socket_bind = (\<lambda>_. LAllow), h_socket_accept = (\<lambda>_. LAllow), h_ipc_permission = (\<lambda>_. LAllow),
     h_sb_mount = (\<lambda>_. LAllow)\<rparr>"

definition hook_of :: "Hook \<Rightarrow> LsmHooks \<Rightarrow> hook_fn" where
  "hook_of h m =
     (case h of
        FileOpen \<Rightarrow> h_file_open m | FileRead \<Rightarrow> h_file_read m | FileWrite \<Rightarrow> h_file_write m
      | FileExec \<Rightarrow> h_file_exec m | InodeCreate \<Rightarrow> h_inode_create m | InodeUnlink \<Rightarrow> h_inode_unlink m
      | InodeRename \<Rightarrow> h_inode_rename m | InodeSetattr \<Rightarrow> h_inode_setattr m
      | InodeGetattr \<Rightarrow> h_inode_getattr m | MmapFile \<Rightarrow> h_mmap_file m | TaskCreate \<Rightarrow> h_task_create m
      | TaskExec \<Rightarrow> h_task_exec m | TaskKill \<Rightarrow> h_task_kill m | TaskSetuid \<Rightarrow> h_task_setuid m
      | TaskSetgid \<Rightarrow> h_task_setgid m | SocketCreate \<Rightarrow> h_socket_create m
      | SocketConnect \<Rightarrow> h_socket_connect m | SocketBind \<Rightarrow> h_socket_bind m
      | SocketAccept \<Rightarrow> h_socket_accept m | IpcPermission \<Rightarrow> h_ipc_permission m | SbMount \<Rightarrow> h_sb_mount m)"

subsection \<open>The registry\<close>

definition MAX_LSM_MODULES :: nat where "MAX_LSM_MODULES = 8"

record LsmRegistry =
  reg_modules :: "LsmHooks option list"
  reg_count :: nat

definition registry_empty :: LsmRegistry where
  "registry_empty = \<lparr>reg_modules = replicate MAX_LSM_MODULES None, reg_count = 0\<rparr>"

definition register_lsm :: "LsmHooks \<Rightarrow> LsmRegistry \<Rightarrow> LsmRegistry" where
  "register_lsm m r =
     (if reg_count r < MAX_LSM_MODULES
      then r\<lparr>reg_modules := (reg_modules r)[reg_count r := Some m], reg_count := reg_count r + 1\<rparr>
      else r)"

fun dispatch_from :: "LsmRegistry \<Rightarrow> Hook \<Rightarrow> LsmCtx \<Rightarrow> nat list \<Rightarrow> LsmVerdict" where
  "dispatch_from r h ctx [] = LAllow"
| "dispatch_from r h ctx (i # is) =
     (case reg_modules r ! i of
        Some m \<Rightarrow> (case hook_of h m ctx of Deny e \<Rightarrow> Deny e | _ \<Rightarrow> dispatch_from r h ctx is)
      | None \<Rightarrow> dispatch_from r h ctx is)"

definition dispatch :: "LsmRegistry \<Rightarrow> Hook \<Rightarrow> LsmCtx \<Rightarrow> LsmVerdict" where
  "dispatch r h ctx = dispatch_from r h ctx [0..<reg_count r]"

definition lsm_dispatch :: "LsmRegistry \<Rightarrow> Hook \<Rightarrow> LsmCtx \<Rightarrow> int + unit" where
  "lsm_dispatch r h ctx =
     (let v = dispatch r h ctx in if is_allow v then Inr () else Inl (verdict_errno v))"

subsection \<open>Discretionary access control\<close>

definition CAP_DAC_OVERRIDE :: u64 where "CAP_DAC_OVERRIDE = push_bit 1 1"
definition CAP_DAC_READ_SEARCH :: u64 where "CAP_DAC_READ_SEARCH = push_bit 2 1"
definition CAP_FOWNER :: u64 where "CAP_FOWNER = push_bit 3 1"
definition CAP_KILL :: u64 where "CAP_KILL = push_bit 5 1"
definition CAP_SETGID :: u64 where "CAP_SETGID = push_bit 6 1"
definition CAP_SETUID :: u64 where "CAP_SETUID = push_bit 7 1"
definition CAP_NET_RAW :: u64 where "CAP_NET_RAW = push_bit 13 1"
definition CAP_SYS_ADMIN :: u64 where "CAP_SYS_ADMIN = push_bit 21 1"
definition S_IRUSR :: u16 where "S_IRUSR = 0x100"
definition S_IWUSR :: u16 where "S_IWUSR = 0x080"
definition S_IXUSR :: u16 where "S_IXUSR = 0x040"
definition S_IRGRP :: u16 where "S_IRGRP = 0x020"
definition S_IWGRP :: u16 where "S_IWGRP = 0x010"
definition S_IXGRP :: u16 where "S_IXGRP = 0x008"
definition S_IROTH :: u16 where "S_IROTH = 0x004"
definition S_IWOTH :: u16 where "S_IWOTH = 0x002"
definition S_IXOTH :: u16 where "S_IXOTH = 0x001"
definition PROT_EXEC :: u32 where "PROT_EXEC = 4"

definition has_cap :: "u64 \<Rightarrow> u64 \<Rightarrow> bool" where
  "has_cap caps c \<longleftrightarrow> caps AND c \<noteq> 0"

definition in_group :: "LsmCtx \<Rightarrow> u32 \<Rightarrow> bool" where
  "in_group ctx gid \<longleftrightarrow> c_egid ctx = gid \<or> (\<exists>g \<in> set (c_supp_groups ctx). g = gid)"

definition check_read :: hook_fn where
  "check_read ctx =
     (if c_euid ctx = 0 \<or> has_cap (c_caps ctx) CAP_DAC_OVERRIDE then LAllow
      else if has_cap (c_caps ctx) CAP_DAC_READ_SEARCH then LAllow
      else let good = (if c_euid ctx = c_inode_uid ctx then c_inode_mode ctx AND S_IRUSR \<noteq> 0
                       else if in_group ctx (c_inode_gid ctx) then c_inode_mode ctx AND S_IRGRP \<noteq> 0
                       else c_inode_mode ctx AND S_IROTH \<noteq> 0)
           in if good then LAllow else Deny (- 13))"

definition check_write :: hook_fn where
  "check_write ctx =
     (if c_euid ctx = 0 \<or> has_cap (c_caps ctx) CAP_DAC_OVERRIDE then LAllow
      else let good = (if c_euid ctx = c_inode_uid ctx then c_inode_mode ctx AND S_IWUSR \<noteq> 0
                       else if in_group ctx (c_inode_gid ctx) then c_inode_mode ctx AND S_IWGRP \<noteq> 0
                       else c_inode_mode ctx AND S_IWOTH \<noteq> 0)
           in if good then LAllow else Deny (- 13))"

definition check_exec :: hook_fn where
  "check_exec ctx =
     (if c_euid ctx = 0 \<or> has_cap (c_caps ctx) CAP_DAC_OVERRIDE
      then let any_x = (c_inode_mode ctx AND (S_IXUSR OR S_IXGRP OR S_IXOTH) \<noteq> 0)
           in if any_x then LAllow else Deny (- 13)
      else let good = (if c_euid ctx = c_inode_uid ctx then c_inode_mode ctx AND S_IXUSR \<noteq> 0
                       else if in_group ctx (c_inode_gid ctx) then c_inode_mode ctx AND S_IXGRP \<noteq> 0
                       else c_inode_mode ctx AND S_IXOTH \<noteq> 0)
           in if good then LAllow else Deny (- 13))"

definition dac_inode_unlink :: hook_fn where
  "dac_inode_unlink ctx =
     (if has_cap (c_caps ctx) CAP_FOWNER then LAllow
      else let sticky = (c_inode_mode ctx AND 0x200 \<noteq> 0) in
           if sticky \<and> c_euid ctx \<noteq> c_inode_uid ctx then Deny (- 13) else check_write ctx)"

definition dac_inode_rename :: hook_fn where
  "dac_inode_rename ctx = (if has_cap (c_caps ctx) CAP_FOWNER then LAllow else check_write ctx)"

definition dac_inode_setattr :: hook_fn where
  "dac_inode_setattr ctx =
     (if c_euid ctx = c_inode_uid ctx \<or> has_cap (c_caps ctx) CAP_FOWNER then LAllow else Deny (- 1))"

definition dac_inode_getattr :: hook_fn where
  "dac_inode_getattr ctx = (if has_cap (c_caps ctx) CAP_DAC_READ_SEARCH then LAllow else check_read ctx)"

definition dac_mmap_file :: hook_fn where
  "dac_mmap_file ctx =
     (if c_prot ctx AND PROT_EXEC \<noteq> 0 then check_exec ctx
      else if c_prot ctx AND 2 \<noteq> 0 then check_write ctx
      else if c_prot ctx AND 1 \<noteq> 0 then check_read ctx
      else LAllow)"

definition dac_task_kill :: hook_fn where
  "dac_task_kill ctx =
     (let target_uid = ucast (c_arg0 ctx); signo = c_signo ctx in
      if (signo = 9 \<or> signo = 19) \<and> c_euid ctx \<noteq> target_uid \<and> \<not> has_cap (c_caps ctx) CAP_KILL then Deny (- 1)
      else if c_euid ctx = target_uid \<or> c_euid ctx = 0 \<or> has_cap (c_caps ctx) CAP_KILL then LAllow
      else Deny (- 1))"

definition dac_task_setuid :: hook_fn where
  "dac_task_setuid ctx =
     (let new_uid = ucast (c_arg0 ctx) in
      if c_euid ctx = new_uid \<or> has_cap (c_caps ctx) CAP_SETUID then LAllow else Deny (- 1))"

definition dac_task_setgid :: hook_fn where
  "dac_task_setgid ctx =
     (let new_gid = ucast (c_arg0 ctx) in
      if c_egid ctx = new_gid \<or> has_cap (c_caps ctx) CAP_SETGID then LAllow else Deny (- 1))"

definition dac_socket_create :: hook_fn where
  "dac_socket_create ctx =
     (if ucast (c_arg1 ctx) = SOCK_RAW \<and> \<not> has_cap (c_caps ctx) CAP_NET_RAW then Deny (- 1) else LAllow)"

definition dac_ipc_permission :: hook_fn where
  "dac_ipc_permission ctx =
     (if c_euid ctx = 0 \<or> has_cap (c_caps ctx) CAP_DAC_OVERRIDE then LAllow
      else let good = (if c_euid ctx = c_ipc_uid ctx then c_ipc_mode ctx AND S_IRUSR \<noteq> 0
                       else if in_group ctx (c_ipc_gid ctx) then c_ipc_mode ctx AND S_IRGRP \<noteq> 0
                       else c_ipc_mode ctx AND S_IROTH \<noteq> 0)
           in if good then LAllow else Deny (- 13))"

definition dac_sb_mount :: hook_fn where
  "dac_sb_mount ctx = (if c_euid ctx = 0 \<or> has_cap (c_caps ctx) CAP_SYS_ADMIN then LAllow else Deny (- 1))"

definition DAC_MODULE :: LsmHooks where
  "DAC_MODULE = \<lparr>h_name = ''dac'', h_file_open = check_read, h_file_read = check_read,
     h_file_write = check_write, h_file_exec = check_exec, h_inode_create = check_write,
     h_inode_unlink = dac_inode_unlink, h_inode_rename = dac_inode_rename, h_inode_setattr = dac_inode_setattr,
     h_inode_getattr = dac_inode_getattr, h_mmap_file = dac_mmap_file, h_task_create = (\<lambda>_. LAllow),
     h_task_exec = check_exec, h_task_kill = dac_task_kill, h_task_setuid = dac_task_setuid,
     h_task_setgid = dac_task_setgid, h_socket_create = dac_socket_create, h_socket_connect = (\<lambda>_. LAllow),
     h_socket_bind = (\<lambda>_. LAllow), h_socket_accept = (\<lambda>_. LAllow), h_ipc_permission = dac_ipc_permission,
     h_sb_mount = dac_sb_mount\<rparr>"

definition lsm_init :: "LsmRegistry \<Rightarrow> LsmRegistry" where
  "lsm_init r = register_lsm DAC_MODULE r"

subsection \<open>Dispatch\<close>

definition registered :: "LsmRegistry \<Rightarrow> LsmHooks list \<Rightarrow> bool" where
  "registered r ms \<longleftrightarrow> length ms \<le> MAX_LSM_MODULES \<and> reg_count r = length ms \<and>
     reg_modules r = map Some ms @ replicate (MAX_LSM_MODULES - length ms) None"

lemma registered_empty: "registered registry_empty []"
  by (simp add: registered_def registry_empty_def)

lemma registered_step:
  assumes "registered r ms"
  shows "registered (register_lsm m r) (take MAX_LSM_MODULES (ms @ [m]))"
proof (cases "length ms < MAX_LSM_MODULES")
  case True
  then have "replicate (MAX_LSM_MODULES - length ms) None
      = (None :: LsmHooks option) # replicate (MAX_LSM_MODULES - Suc (length ms)) None"
    by (metis Suc_diff_Suc replicate_Suc)
  then have "reg_modules (register_lsm m r)
      = map Some (ms @ [m]) @ replicate (MAX_LSM_MODULES - Suc (length ms)) None"
    using assms True by (simp add: registered_def register_lsm_def list_update_append)
  then show ?thesis using assms True by (simp add: registered_def register_lsm_def)
next
  case False
  then show ?thesis using assms by (simp add: registered_def register_lsm_def)
qed

lemma registered_fold: "registered r ms \<Longrightarrow> registered (fold register_lsm ns r) (take MAX_LSM_MODULES (ms @ ns))"
proof (induction ns arbitrary: r ms)
  case Nil
  then show ?case by (simp add: registered_def)
next
  case (Cons n ns)
  have "registered (fold register_lsm ns (register_lsm n r))
      (take MAX_LSM_MODULES (take MAX_LSM_MODULES (ms @ [n]) @ ns))"
    by (rule Cons.IH [OF registered_step [OF Cons.prems]])
  moreover have "take MAX_LSM_MODULES (take MAX_LSM_MODULES (ms @ [n]) @ ns) = take MAX_LSM_MODULES (ms @ n # ns)"
    by (cases "length ms < MAX_LSM_MODULES") simp_all
  ultimately show ?case by simp
qed

definition is_deny :: "LsmVerdict \<Rightarrow> bool" where
  "is_deny v = (case v of Deny _ \<Rightarrow> True | _ \<Rightarrow> False)"

definition first_deny :: "LsmVerdict list \<Rightarrow> LsmVerdict" where
  "first_deny vs = (case List.find is_deny vs of Some v \<Rightarrow> v | None \<Rightarrow> LAllow)"

lemma dispatch_from_eq:
  "\<forall>i \<in> set is. reg_modules r ! i = Some (m i) \<Longrightarrow>
   dispatch_from r h ctx is = first_deny (map (\<lambda>i. hook_of h (m i) ctx) is)"
  by (induction "is") (auto simp: first_deny_def is_deny_def split: LsmVerdict.split)

lemma dispatch_registered:
  assumes "registered r ms"
  shows "dispatch r h ctx = first_deny (map (\<lambda>m. hook_of h m ctx) ms)"
proof -
  have "\<forall>i \<in> set [0..<reg_count r]. reg_modules r ! i = Some (ms ! i)"
    using assms by (auto simp: registered_def nth_append)
  from dispatch_from_eq [OF this, of h ctx]
  have "dispatch r h ctx = first_deny (map (\<lambda>i. hook_of h (ms ! i) ctx) [0..<length ms])"
    using assms by (simp add: dispatch_def registered_def)
  also have "map (\<lambda>i. hook_of h (ms ! i) ctx) [0..<length ms] = map (\<lambda>m. hook_of h m ctx) (map ((!) ms) [0..<length ms])"
    by simp
  finally show ?thesis by (simp only: map_nth)
qed

subsection \<open>Properties\<close>

text \<open>
  Dispatch consults the registered modules in registration order and the first denial
  decides; without a denial the hook succeeds. At most eight modules are registered: a
  further registration is silently dropped and its denials have no effect.
\<close>

theorem lsm_dispatch_first_deny:
  "lsm_dispatch (fold register_lsm ms registry_empty) h ctx =
     (case List.find is_deny (map (\<lambda>m. hook_of h m ctx) (take 8 ms)) of
        Some v \<Rightarrow> Inl (verdict_errno v) | None \<Rightarrow> Inr ())"
proof -
  have "registered (fold register_lsm ms registry_empty) (take 8 ms)"
    using registered_fold [OF registered_empty, of ms] by (simp add: MAX_LSM_MODULES_def)
  from dispatch_registered [OF this, of h ctx]
  have d: "dispatch (fold register_lsm ms registry_empty) h ctx = first_deny (map (\<lambda>m. hook_of h m ctx) (take 8 ms))" .
  show ?thesis
  proof (cases "List.find is_deny (map (\<lambda>m. hook_of h m ctx) (take 8 ms))")
    case None
    then show ?thesis by (simp add: lsm_dispatch_def d first_deny_def is_allow_def)
  next
    case (Some v)
    then have "is_deny v" by (auto simp: find_Some_iff)
    then show ?thesis using Some
      by (auto simp: lsm_dispatch_def d first_deny_def is_allow_def is_deny_def split: LsmVerdict.splits)
  qed
qed

definition class_shift :: "LsmCtx \<Rightarrow> nat" where
  "class_shift ctx =
     (if c_euid ctx = c_inode_uid ctx then 6 else if in_group ctx (c_inode_gid ctx) then 3 else 0)"

lemma and_bit_u16: "n < 16 \<Longrightarrow> (m AND 2 ^ n :: u16) \<noteq> 0 \<longleftrightarrow> bit m n"
proof -
  assume n: "n < 16"
  have "m AND 2 ^ n = (if bit m n then 2 ^ n else 0)"
    by (rule bit_word_eqI) (auto simp: bit_and_iff bit_exp_iff n)
  moreover have "(2 ^ n :: u16) \<noteq> 0" using n by simp
  ultimately show ?thesis by simp
qed

lemma mode_bits:
  "(m AND S_IRUSR \<noteq> 0) = bit m 8" "(m AND S_IWUSR \<noteq> 0) = bit m 7" "(m AND S_IXUSR \<noteq> 0) = bit m 6"
  "(m AND S_IRGRP \<noteq> 0) = bit m 5" "(m AND S_IWGRP \<noteq> 0) = bit m 4" "(m AND S_IXGRP \<noteq> 0) = bit m 3"
  "(m AND S_IROTH \<noteq> 0) = bit m 2" "(m AND S_IWOTH \<noteq> 0) = bit m 1" "(m AND S_IXOTH \<noteq> 0) = bit m 0"
  using and_bit_u16 [of 8 m] and_bit_u16 [of 7 m] and_bit_u16 [of 6 m] and_bit_u16 [of 5 m] and_bit_u16 [of 4 m]
    and_bit_u16 [of 3 m] and_bit_u16 [of 2 m] and_bit_u16 [of 1 m] and_bit_u16 [of 0 m]
  by (simp_all add: S_IRUSR_def S_IWUSR_def S_IXUSR_def S_IRGRP_def S_IWGRP_def S_IXGRP_def S_IROTH_def
      S_IWOTH_def S_IXOTH_def)

text \<open>
  C13. The file checks of the DAC module are the Unix permission check: for a caller that is
  neither root nor capable, reading, writing and executing are allowed exactly by the
  corresponding bit of the one class, owner, group or other, that applies to the caller.
\<close>

theorem dac_unix_permissions:
  assumes "c_euid ctx \<noteq> 0" "\<not> has_cap (c_caps ctx) CAP_DAC_OVERRIDE" "\<not> has_cap (c_caps ctx) CAP_DAC_READ_SEARCH"
  shows "(hook_of FileRead DAC_MODULE ctx = LAllow \<longleftrightarrow> bit (c_inode_mode ctx) (class_shift ctx + 2)) \<and>
    (hook_of FileWrite DAC_MODULE ctx = LAllow \<longleftrightarrow> bit (c_inode_mode ctx) (class_shift ctx + 1)) \<and>
    (hook_of FileExec DAC_MODULE ctx = LAllow \<longleftrightarrow> bit (c_inode_mode ctx) (class_shift ctx))"
  using assms
  by (simp add: hook_of_def DAC_MODULE_def check_read_def check_write_def check_exec_def class_shift_def mode_bits numeral_2_eq_2)

theorem dac_unix_permissions_witness:
  "hook_of FileRead DAC_MODULE (with_creds 1 1000 100 0 0 100 0x1A0) = LAllow \<and>
   hook_of FileWrite DAC_MODULE (with_creds 1 1000 100 0 0 100 0x1A0) \<noteq> LAllow"
  using dac_unix_permissions [of "with_creds 1 1000 100 0 0 100 0x1A0"]
  by (simp add: with_creds_def has_cap_def class_shift_def in_group_def)

lemma has_cap_mono: "mask_le a b \<Longrightarrow> has_cap a c \<Longrightarrow> has_cap b c"
proof -
  assume "mask_le a b" "has_cap a c"
  then have "a AND b = a" "a AND c \<noteq> 0" by (auto simp: mask_le_def has_cap_def)
  then have "a AND (b AND c) \<noteq> 0" by (metis and.assoc)
  then show "has_cap b c" by (auto simp: has_cap_def)
qed

lemma exec_any_x:
  assumes "bit m 6 \<or> bit m 3 \<or> bit m 0"
  shows "(m AND (S_IXUSR OR S_IXGRP OR S_IXOTH) :: u16) \<noteq> 0"
proof
  let ?a = "m AND (S_IXUSR OR S_IXGRP OR S_IXOTH)"
  assume z: "?a = 0"
  have "m AND S_IXUSR = ?a AND S_IXUSR" "m AND S_IXGRP = ?a AND S_IXGRP" "m AND S_IXOTH = ?a AND S_IXOTH"
    by (rule bit_word_eqI, auto simp: bit_and_iff bit_or_iff)+
  then show False using assms mode_bits(3,6,9) [of m] unfolding z by simp
qed

lemma checks_mono:
  assumes "mask_le (c_caps ctx) caps"
  shows "check_read ctx = LAllow \<Longrightarrow> check_read (ctx\<lparr>c_caps := caps\<rparr>) = LAllow"
    "check_write ctx = LAllow \<Longrightarrow> check_write (ctx\<lparr>c_caps := caps\<rparr>) = LAllow"
    "check_exec ctx = LAllow \<Longrightarrow> check_exec (ctx\<lparr>c_caps := caps\<rparr>) = LAllow"
  using has_cap_mono [OF assms] exec_any_x [of "c_inode_mode ctx"]
  by (auto simp: check_read_def check_write_def check_exec_def Let_def in_group_def mode_bits split: if_splits)

text \<open>
  More capabilities never cost access: a DAC hook that allows a request allows it for the
  same request with a larger capability mask.
\<close>

theorem dac_caps_monotone:
  assumes "mask_le (c_caps ctx) caps" "hook_of h DAC_MODULE ctx = LAllow"
  shows "hook_of h DAC_MODULE (ctx\<lparr>c_caps := caps\<rparr>) = LAllow"
  using assms(2) checks_mono [OF assms(1)] has_cap_mono [OF assms(1)]
  by (cases h)
    (auto simp: hook_of_def DAC_MODULE_def dac_inode_unlink_def dac_inode_rename_def dac_inode_setattr_def
      dac_inode_getattr_def dac_mmap_file_def dac_task_kill_def dac_task_setuid_def dac_task_setgid_def
      dac_socket_create_def dac_ipc_permission_def dac_sb_mount_def in_group_def Let_def split: if_splits)

theorem dac_caps_monotone_witness:
  "hook_of FileRead DAC_MODULE (with_creds 1 1000 100 0 0 100 0x1A0) = LAllow \<and>
   hook_of FileRead DAC_MODULE ((with_creds 1 1000 100 0 0 100 0x1A0)\<lparr>c_caps := 0x80\<rparr>) = LAllow"
proof -
  have r: "hook_of FileRead DAC_MODULE (with_creds 1 1000 100 0 0 100 0x1A0) = LAllow"
    by (simp add: hook_of_def DAC_MODULE_def check_read_def with_creds_def has_cap_def in_group_def S_IRGRP_def)
  have "mask_le (c_caps (with_creds 1 1000 100 0 0 100 0x1A0)) 0x80" by (simp add: mask_le_def with_creds_def)
  from dac_caps_monotone [OF this r] r show ?thesis by blast
qed

end
