(* ===== verification/Fifo.thy ===== *)
theory Fifo
  imports Prelude
begin

section \<open>Bounded queues\<close>

text \<open>
  The contract of a bounded first-in first-out queue, which the pipe buffer and the two
  rings of an io_uring instance provide. A producer step accepts some elements, a consumer
  step takes a prefix. From the laws of single steps follows the law of runs: whatever the
  interleaving of producers and consumers, what was taken followed by what is queued is
  what was queued at the start followed by what was accepted.
\<close>

datatype ('w, 'r) fifo_op = Put 'w | Get 'r

fun fifo_run :: "('w \<Rightarrow> 's \<Rightarrow> 'a list \<times> 's) \<Rightarrow> ('r \<Rightarrow> 's \<Rightarrow> 'a list \<times> 's) \<Rightarrow> ('w, 'r) fifo_op list \<Rightarrow> 's
    \<Rightarrow> 'a list \<times> 'a list \<times> 's" where
  "fifo_run put get [] s = ([], [], s)"
| "fifo_run put get (Put w # ops) s =
     (let (xs, s1) = put w s; (ws, rs, s2) = fifo_run put get ops s1 in (xs @ ws, rs, s2))"
| "fifo_run put get (Get r # ops) s =
     (let (xs, s1) = get r s; (ws, rs, s2) = fifo_run put get ops s1 in (ws, xs @ rs, s2))"

locale fifo =
  fixes inv :: "'s \<Rightarrow> bool" and content :: "'s \<Rightarrow> 'a list" and cap :: "'s \<Rightarrow> nat"
    and put :: "'w \<Rightarrow> 's \<Rightarrow> 'a list \<times> 's" and get :: "'r \<Rightarrow> 's \<Rightarrow> 'a list \<times> 's"
  assumes put_law: "inv s \<Longrightarrow> put w s = (xs, s') \<Longrightarrow> inv s' \<and> content s' = content s @ xs \<and> cap s' = cap s"
    and get_law: "inv s \<Longrightarrow> get r s = (xs, s') \<Longrightarrow> inv s' \<and> content s = xs @ content s' \<and> cap s' = cap s"
    and bounded: "inv s \<Longrightarrow> length (content s) \<le> cap s"
begin

lemma run_law:
  "inv s \<Longrightarrow> fifo_run put get ops s = (ws, rs, s') \<Longrightarrow>
   inv s' \<and> content s @ ws = rs @ content s' \<and> cap s' = cap s"
proof (induction ops arbitrary: s ws rs s')
  case Nil
  then show ?case by simp
next
  case (Cons opr ops)
  show ?case
  proof (cases opr)
    case (Put w)
    obtain xs s1 where p: "put w s = (xs, s1)" by (metis surj_pair)
    obtain ws1 rs1 s2 where r: "fifo_run put get ops s1 = (ws1, rs1, s2)" by (metis prod_cases3)
    have eq: "ws = xs @ ws1" "rs = rs1" "s' = s2" using Cons.prems(2) Put p r by simp_all
    note l = put_law [OF Cons.prems(1) p]
    have "inv s2 \<and> content s1 @ ws1 = rs1 @ content s2 \<and> cap s2 = cap s1" using Cons.IH l r by blast
    then show ?thesis using l eq by simp
  next
    case (Get q)
    obtain xs s1 where p: "get q s = (xs, s1)" by (metis surj_pair)
    obtain ws1 rs1 s2 where r: "fifo_run put get ops s1 = (ws1, rs1, s2)" by (metis prod_cases3)
    have eq: "ws = ws1" "rs = xs @ rs1" "s' = s2" using Cons.prems(2) Get p r by simp_all
    note l = get_law [OF Cons.prems(1) p]
    have "inv s2 \<and> content s1 @ ws1 = rs1 @ content s2 \<and> cap s2 = cap s1" using Cons.IH l r by blast
    then show ?thesis using l eq by simp
  qed
qed

lemma run_bounded:
  "inv s \<Longrightarrow> fifo_run put get ops s = (ws, rs, s') \<Longrightarrow> length (content s') \<le> cap s"
  using run_law bounded by metis

end

text \<open>A ring of cells read from an index on, modulo its length.\<close>

definition ring_view :: "'a list \<Rightarrow> nat \<Rightarrow> nat \<Rightarrow> 'a list" where
  "ring_view cells head n = map (\<lambda>i. cells ! ((head + i) mod length cells)) [0..<n]"

lemma length_ring_view [simp]: "length (ring_view cells head n) = n"
  by (simp add: ring_view_def)

lemma nth_ring_view [simp]: "i < n \<Longrightarrow> ring_view cells head n ! i = cells ! ((head + i) mod length cells)"
  by (simp add: ring_view_def)

lemma ring_view_mod [simp]: "ring_view cells (head mod length cells) n = ring_view cells head n"
  by (simp add: ring_view_def mod_add_left_eq)

lemma ring_view_take: "m \<le> n \<Longrightarrow> take m (ring_view cells head n) = ring_view cells head m"
  by (rule nth_equalityI) simp_all

lemma ring_view_drop: "drop m (ring_view cells head n) = ring_view cells (head + m) (n - m)"
  by (rule nth_equalityI) (simp_all add: add.assoc)

lemma mod_add_inj:
  assumes "(h + i) mod c = (h + j) mod c" "i < c" "j < (c :: nat)"
  shows "i = j"
proof (rule ccontr)
  assume ne: "i \<noteq> j"
  have aux: False if "(h + a) mod c = (h + b) mod c" "a < b" "b < c" for a b
  proof -
    have "c dvd (h + b) - (h + a)" using that mod_eq_dvd_iff_nat [of "h + a" "h + b" c] by auto
    then have "c dvd b - a" by simp
    then show False using that by (auto dest!: dvd_imp_le)
  qed
  show False using aux [of i j] aux [of j i] assms ne by (cases "i < j") auto
qed

lemma ring_view_update:
  assumes "n < length cells"
  shows "ring_view (cells[(h + n) mod length cells := x]) h (Suc n) = ring_view cells h n @ [x]"
proof (rule nth_equalityI)
  fix i assume "i < length (ring_view (cells[(h + n) mod length cells := x]) h (Suc n))"
  then have i: "i < Suc n" by simp
  have "cells \<noteq> []" using assms by auto
  then have lt: "(h + i) mod length cells < length cells" by simp
  show "ring_view (cells[(h + n) mod length cells := x]) h (Suc n) ! i = (ring_view cells h n @ [x]) ! i"
  proof (cases "i = n")
    case True
    then show ?thesis using lt by (simp add: nth_append)
  next
    case False
    then have "(h + i) mod length cells \<noteq> (h + n) mod length cells"
      using mod_add_inj [of h i "length cells" n] i assms by auto
    then show ?thesis using False i by (simp add: nth_append)
  qed
qed simp

fun ring_write :: "'a list \<Rightarrow> nat \<Rightarrow> 'a list \<Rightarrow> 'a list" where
  "ring_write cells t [] = cells"
| "ring_write cells t (x # xs) = ring_write (cells[t mod length cells := x]) (t + 1) xs"

lemma length_ring_write [simp]: "length (ring_write cells t xs) = length cells"
  by (induction xs arbitrary: cells t) simp_all

lemma ring_view_write:
  "n + length xs \<le> length cells \<Longrightarrow>
   ring_view (ring_write cells (h + n) xs) h (n + length xs) = ring_view cells h n @ xs"
proof (induction xs arbitrary: cells n)
  case (Cons x xs)
  let ?c = "cells[(h + n) mod length cells := x]"
  have "ring_view (ring_write ?c (h + Suc n) xs) h (Suc n + length xs) = ring_view ?c h (Suc n) @ xs"
    by (rule Cons.IH) (use Cons.prems in simp)
  also have "ring_view ?c h (Suc n) = ring_view cells h n @ [x]"
    by (rule ring_view_update) (use Cons.prems in simp)
  finally show ?case by simp
qed simp

lemma ring_write_mod: "ring_write cells (t mod length cells) xs = ring_write cells t xs"
proof (induction xs arbitrary: cells t)
  case (Cons x xs)
  have "ring_write c (t mod length c + 1) xs = ring_write c (t + 1) xs" if "length c = length cells" for c
  proof -
    have "(t mod length c + 1) mod length c = (t + 1) mod length c" by (simp add: mod_simps)
    then show ?thesis using Cons.IH [of c "t mod length c + 1"] Cons.IH [of c "t + 1"] by simp
  qed
  from this [of "cells[t mod length cells := x]"] show ?case by simp
qed simp

end
