(* ===== verification/Wait_Queue.thy ===== *)
theory Wait_Queue
  imports Prelude
begin

unbundle bit_operations_syntax

section \<open>Wait queues\<close>

text \<open>
  \<^verbatim>\<open>src/sync/wait_queue.rs\<close>. Queues live in a store indexed by address, because a queue
  forwards its wakeups to other queues by pointer. \<open>wake\<close> returns the tasks for which the
  source calls \<open>scheduler::wake_pid\<close>, in order. \<open>wait\<close> is cut at its scheduling point: the part
  before \<open>block_current\<close> either returns or leaves the task registered, the part after it
  deregisters the task and computes the reason. Timers are outside the model: a deadline
  only shows as the clock value read at the end.
\<close>

type_synonym ReadyMask = u32

definition WAKE_TIMEOUT :: ReadyMask where "WAKE_TIMEOUT = push_bit 30 1"
definition WAKE_CANCEL :: ReadyMask where "WAKE_CANCEL = push_bit 31 1"

datatype WakeReason = Ready | Timeout | Cancelled

record Waiter =
  w_task :: nat
  w_interest :: ReadyMask

record Forwarder =
  f_target :: nat
  f_interest :: ReadyMask

record WaitQueue =
  wq_ready :: ReadyMask
  wq_waiters :: "Waiter list"
  wq_forwarders :: "Forwarder list"

type_synonym wq_store = "nat \<Rightarrow> WaitQueue"

definition wq_new :: WaitQueue where
  "wq_new = \<lparr>wq_ready = 0, wq_waiters = [], wq_forwarders = []\<rparr>"

definition matching :: "ReadyMask \<Rightarrow> Waiter list \<Rightarrow> nat list" where
  "matching bits ws = map w_task (filter (\<lambda>w. w_interest w AND bits \<noteq> 0) ws)"

definition set_ready :: "nat \<Rightarrow> ReadyMask \<Rightarrow> wq_store \<Rightarrow> wq_store" where
  "set_ready q bits st = st(q := (st q)\<lparr>wq_ready := wq_ready (st q) OR bits\<rparr>)"

fun forward :: "ReadyMask \<Rightarrow> Forwarder list \<Rightarrow> wq_store \<Rightarrow> nat list \<times> wq_store" where
  "forward bits [] st = ([], st)"
| "forward bits (f # fs) st =
     (if f_interest f AND bits \<noteq> 0
      then let st1 = set_ready (f_target f) bits st;
               woken = matching bits (wq_waiters (st1 (f_target f)));
               (more, st2) = forward bits fs st1
           in (woken @ more, st2)
      else forward bits fs st)"

definition wake :: "nat \<Rightarrow> ReadyMask \<Rightarrow> wq_store \<Rightarrow> nat list \<times> wq_store" where
  "wake q bits st =
     (let st1 = set_ready q bits st;
          direct = matching bits (wq_waiters (st1 q));
          (more, st2) = forward bits (wq_forwarders (st1 q)) st1
      in (direct @ more, st2))"

definition wq_clear :: "nat \<Rightarrow> ReadyMask \<Rightarrow> wq_store \<Rightarrow> wq_store" where
  "wq_clear q bits st = st(q := (st q)\<lparr>wq_ready := wq_ready (st q) AND NOT bits\<rparr>)"

definition wq_poll :: "nat \<Rightarrow> ReadyMask \<Rightarrow> wq_store \<Rightarrow> ReadyMask" where
  "wq_poll q interest st = wq_ready (st q) AND interest"

text \<open>\<open>Inl r\<close>: the call returns \<open>r\<close> without sleeping; \<open>Inr st\<close>: the task is registered and sleeps.\<close>

definition wait_begin ::
  "nat \<Rightarrow> nat \<Rightarrow> ReadyMask \<Rightarrow> bool \<Rightarrow> wq_store \<Rightarrow> WakeReason + wq_store" where
  "wait_begin q task interest cancelled st =
     (if wq_ready (st q) AND interest \<noteq> 0 then Inl Ready
      else if cancelled then Inl Cancelled
      else let w = \<lparr>w_task = task, w_interest = interest OR WAKE_TIMEOUT OR WAKE_CANCEL\<rparr>
           in Inr (st(q := (st q)\<lparr>wq_waiters := wq_waiters (st q) @ [w]\<rparr>)))"

definition wait_end ::
  "nat \<Rightarrow> nat \<Rightarrow> bool \<Rightarrow> nat option \<Rightarrow> nat \<Rightarrow> wq_store \<Rightarrow> WakeReason \<times> wq_store" where
  "wait_end q task cancelled deadline now st =
     (let st1 = st(q := (st q)\<lparr>wq_waiters := filter (\<lambda>w. w_task w \<noteq> task) (wq_waiters (st q))\<rparr>);
          reason = (if cancelled then Cancelled
                    else case deadline of Some dl \<Rightarrow> if now \<ge> dl then Timeout else Ready | None \<Rightarrow> Ready)
      in (reason, st1))"

definition register_forwarder :: "nat \<Rightarrow> nat \<Rightarrow> ReadyMask \<Rightarrow> wq_store \<Rightarrow> wq_store" where
  "register_forwarder q target interest st =
     (if \<exists>f \<in> set (wq_forwarders (st q)). f_target f = target then st
      else st(q := (st q)\<lparr>wq_forwarders := wq_forwarders (st q) @ [\<lparr>f_target = target, f_interest = interest\<rparr>]\<rparr>))"

definition remove_forwarder :: "nat \<Rightarrow> nat \<Rightarrow> wq_store \<Rightarrow> wq_store" where
  "remove_forwarder q target st =
     st(q := (st q)\<lparr>wq_forwarders := filter (\<lambda>f. f_target f \<noteq> target) (wq_forwarders (st q))\<rparr>)"

definition wake_n :: "nat \<Rightarrow> ReadyMask \<Rightarrow> nat \<Rightarrow> wq_store \<Rightarrow> nat list \<times> wq_store" where
  "wake_n q bits n st =
     (let st1 = set_ready q bits st in (take n (matching bits (wq_waiters (st1 q))), st1))"

datatype CancelReason = CNone | CSignal | CTimeout | CClosed | CExit | CExplicit

definition cancel_token :: "CancelReason \<Rightarrow> nat \<Rightarrow> wq_store \<Rightarrow> CancelReason \<times> nat list \<times> wq_store" where
  "cancel_token reason q st = (let (woken, st1) = wake q WAKE_CANCEL st in (reason, woken, st1))"

definition is_cancelled :: "CancelReason \<Rightarrow> bool" where
  "is_cancelled r \<longleftrightarrow> r \<noteq> CNone"

subsection \<open>Readiness is sticky\<close>

lemma set_ready_simps [simp]:
  "wq_waiters (set_ready q bits st r) = wq_waiters (st r)"
  "wq_forwarders (set_ready q bits st r) = wq_forwarders (st r)"
  "wq_ready (set_ready q bits st r) = (if r = q then wq_ready (st q) OR bits else wq_ready (st r))"
  by (simp_all add: set_ready_def)

lemma forward_simps:
  "forward bits fs st = (woken, st') \<Longrightarrow>
   wq_waiters (st' r) = wq_waiters (st r) \<and> wq_forwarders (st' r) = wq_forwarders (st r) \<and>
   (\<exists>more. wq_ready (st' r) = wq_ready (st r) OR more)"
proof (induction fs arbitrary: st woken)
  case Nil
  then show ?case by (auto intro: exI [of _ 0])
next
  case (Cons f fs)
  show ?case
  proof (cases "f_interest f AND bits = 0")
    case True
    then show ?thesis using Cons by simp
  next
    case False
    let ?st = "set_ready (f_target f) bits st"
    obtain ws st2 where fw: "forward bits fs ?st = (ws, st2)" by (metis surj_pair)
    then have st2: "st2 = st'" using Cons.prems False by (simp add: Let_def)
    have IH: "wq_waiters (st' r) = wq_waiters (?st r) \<and> wq_forwarders (st' r) = wq_forwarders (?st r) \<and>
        (\<exists>more. wq_ready (st' r) = wq_ready (?st r) OR more)"
      by (rule Cons.IH [OF fw [unfolded st2]])
    then obtain more where "wq_ready (st' r) = wq_ready (?st r) OR more" by blast
    then have "\<exists>m. wq_ready (st' r) = wq_ready (st r) OR m"
      by (cases "r = f_target f") (auto simp: or.assoc intro: exI [of _ "bits OR more"] exI [of _ more])
    then show ?thesis using IH by simp
  qed
qed

lemma wake_simps:
  assumes "wake q bits st = (woken, st')"
  shows "wq_waiters (st' r) = wq_waiters (st r)" "wq_forwarders (st' r) = wq_forwarders (st r)"
    "\<exists>more. wq_ready (st' q) = wq_ready (st q) OR bits OR more"
    "set (matching bits (wq_waiters (st q))) \<subseteq> set woken"
proof -
  let ?st = "set_ready q bits st"
  obtain ws st2 where fw: "forward bits (wq_forwarders (?st q)) ?st = (ws, st2)" by (metis surj_pair)
  have eq: "st' = st2" "woken = matching bits (wq_waiters (?st q)) @ ws"
    using assms fw by (simp_all add: wake_def Let_def)
  note fs = forward_simps [OF fw]
  show "wq_waiters (st' r) = wq_waiters (st r)" "wq_forwarders (st' r) = wq_forwarders (st r)"
    using fs [of r] by (simp_all add: eq)
  show "\<exists>more. wq_ready (st' q) = wq_ready (st q) OR bits OR more"
    using fs [of q] by (auto simp: eq or.assoc)
  show "set (matching bits (wq_waiters (st q))) \<subseteq> set woken" by (simp add: eq)
qed

lemma and_or_nonzero: "(a :: u32) AND i \<noteq> 0 \<Longrightarrow> (a OR b) AND i \<noteq> 0"
proof
  assume nz: "a AND i \<noteq> 0" and z: "(a OR b) AND i = 0"
  have "a AND i = a AND ((a OR b) AND i)" by (rule bit_word_eqI) (auto simp: bit_and_iff bit_or_iff)
  then show False using nz z by simp
qed

text \<open>The operations of a queue other than \<open>clear\<close>, which no caller of the repository uses.\<close>

datatype wq_op = OpWake nat ReadyMask | OpWakeN nat ReadyMask nat | OpWait nat nat ReadyMask bool
  | OpDone nat nat | OpForward nat nat ReadyMask | OpUnforward nat nat

definition wq_step :: "wq_op \<Rightarrow> wq_store \<Rightarrow> wq_store" where
  "wq_step opr st =
     (case opr of
        OpWake q bits \<Rightarrow> snd (wake q bits st)
      | OpWakeN q bits n \<Rightarrow> snd (wake_n q bits n st)
      | OpWait q task interest c \<Rightarrow> (case wait_begin q task interest c st of Inl _ \<Rightarrow> st | Inr st' \<Rightarrow> st')
      | OpDone q task \<Rightarrow> snd (wait_end q task False None 0 st)
      | OpForward q target interest \<Rightarrow> register_forwarder q target interest st
      | OpUnforward q target \<Rightarrow> remove_forwarder q target st)"

lemma ready_refl: "\<exists>more. (r :: u32) = r OR more"
  by (intro exI [of _ 0]) simp

lemma wake_ready: "\<exists>more. wq_ready (snd (wake q bits st) r) = wq_ready (st r) OR more"
proof -
  let ?st = "set_ready q bits st"
  obtain ws st2 where fw: "forward bits (wq_forwarders (?st q)) ?st = (ws, st2)" by (metis surj_pair)
  have "snd (wake q bits st) = st2" using fw by (simp add: wake_def Let_def)
  moreover obtain more where "wq_ready (st2 r) = wq_ready (?st r) OR more"
    using forward_simps [OF fw, of r] by blast
  ultimately show ?thesis
    by (cases "r = q") (auto simp: or.assoc intro: exI [of _ "bits OR more"] exI [of _ more])
qed

lemma wq_step_ready: "\<exists>more. wq_ready (wq_step opr st r) = wq_ready (st r) OR more"
proof (cases opr)
  case (OpWake q bits)
  then show ?thesis using wake_ready by (simp add: wq_step_def)
next
  case (OpWakeN q bits n)
  then show ?thesis using ready_refl by (auto simp: wq_step_def wake_n_def Let_def)
next
  case (OpWait q task interest c)
  then show ?thesis using ready_refl by (auto simp: wq_step_def wait_begin_def Let_def)
qed (use ready_refl in \<open>auto simp: wq_step_def wait_end_def register_forwarder_def remove_forwarder_def Let_def\<close>)

lemma wq_run_ready: "\<exists>more. wq_ready (fold wq_step ops st r) = wq_ready (st r) OR more"
proof (induction ops arbitrary: st)
  case Nil
  then show ?case using ready_refl by simp
next
  case (Cons a ops)
  obtain m1 m2 where "wq_ready (fold wq_step ops (wq_step a st) r) = wq_ready (wq_step a st r) OR m1"
    "wq_ready (wq_step a st r) = wq_ready (st r) OR m2"
    using Cons.IH wq_step_ready by metis
  then show ?case by (auto simp: or.assoc)
qed

subsection \<open>The race between wait and wake\<close>











subsection \<open>Properties\<close>



text \<open>
  Readiness bits are sticky: after a wake with some bit, and whatever operations other
  than \<open>clear\<close> follow, a wait for that bit returns at once without sleeping. Since nothing in
  the repository clears the bits, a loop that waits again after a first wakeup spins.
\<close>

theorem wait_after_wake_never_sleeps:
  assumes "interest AND bits \<noteq> 0"
  shows "wait_begin q task interest c (fold wq_step ops (snd (wake q bits st))) = Inl Ready"
proof -
  obtain woken st1 where w: "wake q bits st = (woken, st1)" by (metis surj_pair)
  obtain m1 where m1: "wq_ready (st1 q) = wq_ready (st q) OR bits OR m1" using wake_simps(3) [OF w] by blast
  obtain m2 where m2: "wq_ready (fold wq_step ops st1 q) = wq_ready (st1 q) OR m2" using wq_run_ready by blast
  have "bits AND interest \<noteq> 0" using assms by (simp add: and.commute)
  from and_or_nonzero [OF this, of "wq_ready (st q) OR m1 OR m2"]
  have "wq_ready (fold wq_step ops st1 q) AND interest \<noteq> 0"
    unfolding m2 m1 by (simp add: or.assoc or.commute or.left_commute)
  then show ?thesis by (simp add: wait_begin_def w)
qed

theorem wait_after_wake_never_sleeps_witness:
  "wait_begin 0 7 0x11 False (fold wq_step [OpWait 0 9 0x40 False, OpDone 0 9] (snd (wake 0 1 (\<lambda>_. wq_new)))) = Inl Ready"
  by (rule wait_after_wake_never_sleeps) simp

end
