(* ===== verification/Pipe.thy ===== *)
theory Pipe
  imports Fifo Wait_Queue Uaccess
begin

unbundle bit_operations_syntax

section \<open>Pipes\<close>

text \<open>
  \<^verbatim>\<open>src/fs/pipe.rs\<close>: the ring buffer, the table of pipe ends, reading, writing, closing,
  duplicating and polling. A pipe object is identified by the backing descriptor of its read
  end; its two wait queues are the store entries of its two backing descriptors. The blocking
  loops of \<open>pipe_read\<close> and \<open>pipe_write\<close> are cut at the wait: the outcome \<open>RWait\<close> or \<open>WWait\<close>
  says that the loop calls \<open>wait\<close> and, if that is not cancelled, goes round again, with
  \<open>read_region\<close> or \<open>write_loop\<close> on the object it holds and without a second table lookup. The tasks
  woken on the way are returned.
\<close>

definition PIPE_BUF_SIZE :: nat where "PIPE_BUF_SIZE = 65536"
definition PIPE_BUF :: nat where "PIPE_BUF = 4096"
definition PIPE_FD_BASE :: nat where "PIPE_FD_BASE = 0x80000000"
definition EAGAIN :: int where "EAGAIN = - 11"
definition EINTR :: int where "EINTR = - 4"
definition EPIPE :: int where "EPIPE = - 32"
definition EBADF :: int where "EBADF = - 9"
definition POLLIN :: u32 where "POLLIN = 0x0001"
definition POLLOUT :: u32 where "POLLOUT = 0x0004"
definition POLLERR :: u32 where "POLLERR = 0x0008"
definition POLLHUP :: u32 where "POLLHUP = 0x0010"
definition POLLNVAL :: u32 where "POLLNVAL = 0x0020"
definition POLLRDNORM :: u32 where "POLLRDNORM = 0x0040"
definition POLLWRNORM :: u32 where "POLLWRNORM = 0x0100"

lemmas poll_defs = POLLIN_def POLLOUT_def POLLERR_def POLLHUP_def POLLNVAL_def POLLRDNORM_def POLLWRNORM_def

subsection \<open>The ring buffer\<close>

record PipeInner =
  pb_buf :: "u8 list"
  pb_head :: nat
  pb_len :: nat
  pb_write_open :: u32
  pb_read_open :: u32
  pb_nonblocking :: bool

definition pipe_inner_new :: "bool \<Rightarrow> PipeInner" where
  "pipe_inner_new nonblocking = \<lparr>pb_buf = replicate PIPE_BUF_SIZE 0, pb_head = 0, pb_len = 0,
     pb_write_open = 1, pb_read_open = 1, pb_nonblocking = nonblocking\<rparr>"

definition pb_capacity :: "PipeInner \<Rightarrow> nat" where
  "pb_capacity p = length (pb_buf p)"

definition pb_space :: "PipeInner \<Rightarrow> nat" where
  "pb_space p = pb_capacity p - pb_len p"

definition pb_is_empty :: "PipeInner \<Rightarrow> bool" where
  "pb_is_empty p \<longleftrightarrow> pb_len p = 0"

definition read_bytes :: "nat \<Rightarrow> PipeInner \<Rightarrow> u8 list \<times> PipeInner" where
  "read_bytes dst_len p =
     (let n = min dst_len (pb_len p);
          bytes = map (\<lambda>i. pb_buf p ! ((pb_head p + i) mod pb_capacity p)) [0..<n]
      in (bytes, p\<lparr>pb_head := (pb_head p + n) mod pb_capacity p, pb_len := pb_len p - n\<rparr>))"

definition write_bytes :: "u8 list \<Rightarrow> PipeInner \<Rightarrow> PipeInner" where
  "write_bytes src p =
     (let tail = (pb_head p + pb_len p) mod pb_capacity p
      in p\<lparr>pb_buf := ring_write (pb_buf p) tail src, pb_len := pb_len p + length src\<rparr>)"

subsection \<open>The table of pipe ends\<close>

record pipe_sys =
  ps_obj :: "nat \<Rightarrow> PipeInner"
  ps_table :: "nat \<Rightarrow> nat option"
  ps_next :: nat
  ps_wq :: wq_store

definition is_write_end :: "nat \<Rightarrow> bool" where
  "is_write_end bfd \<longleftrightarrow> bfd AND 1 \<noteq> 0"

definition read_wq :: "nat \<Rightarrow> nat" where "read_wq i = i"
definition write_wq :: "nat \<Rightarrow> nat" where "write_wq i = i + 1"

definition set_obj :: "nat \<Rightarrow> PipeInner \<Rightarrow> pipe_sys \<Rightarrow> pipe_sys" where
  "set_obj i p s = s\<lparr>ps_obj := (ps_obj s)(i := p)\<rparr>"

definition wake_pipe :: "nat \<Rightarrow> ReadyMask \<Rightarrow> pipe_sys \<Rightarrow> nat list \<times> pipe_sys" where
  "wake_pipe q bits s = (let (woken, st) = wake q bits (ps_wq s) in (woken, s\<lparr>ps_wq := st\<rparr>))"

definition alloc_pipe_fds :: "pipe_sys \<Rightarrow> (nat \<times> nat) \<times> pipe_sys" where
  "alloc_pipe_fds s =
     (let off = ps_next s
      in ((wadd PIPE_FD_BASE off, wadd (wadd PIPE_FD_BASE off) 1), s\<lparr>ps_next := wadd off 2\<rparr>))"

text \<open>Steps 1 to 3 of \<open>sys_pipe2\<close>; the descriptor tables of the process are not modelled.\<close>

definition pipe_create :: "bool \<Rightarrow> pipe_sys \<Rightarrow> (nat \<times> nat) \<times> pipe_sys" where
  "pipe_create nonblocking s =
     (let ((r, w), s1) = alloc_pipe_fds s
      in ((r, w), s1\<lparr>ps_obj := (ps_obj s1)(r := pipe_inner_new nonblocking),
                     ps_table := (ps_table s1)(r \<mapsto> r, w \<mapsto> r),
                     ps_wq := (ps_wq s1)(read_wq r := wq_new, write_wq r := wq_new)\<rparr>))"

definition is_pipe :: "nat \<Rightarrow> pipe_sys \<Rightarrow> bool" where
  "is_pipe bfd s \<longleftrightarrow> \<not> bfd < PIPE_FD_BASE \<and> ps_table s bfd \<noteq> None"

definition pipe_ready :: "PipeInner \<Rightarrow> nat \<Rightarrow> u32 \<Rightarrow> u32" where
  "pipe_ready p bfd events =
     (if is_write_end bfd
      then (if pb_read_open p = 0 then POLLERR else 0) OR
           (if events AND (POLLOUT OR POLLWRNORM) \<noteq> 0 \<and> pb_space p > 0 then POLLOUT OR POLLWRNORM else 0)
      else (if pb_write_open p = 0 then POLLHUP OR POLLIN OR POLLRDNORM else 0) OR
           (if events AND (POLLIN OR POLLRDNORM) \<noteq> 0 \<and> pb_len p > 0 then POLLIN OR POLLRDNORM else 0))"

text \<open>\<open>backing\<close> is the result of \<open>proc_fd_backing\<close> for the descriptor polled.\<close>

definition pipe_poll :: "int \<Rightarrow> u32 \<Rightarrow> pipe_sys \<Rightarrow> u32" where
  "pipe_poll backing events s =
     (if backing < 0 then POLLNVAL
      else case ps_table s (nat backing) of
             None \<Rightarrow> POLLNVAL
           | Some i \<Rightarrow> pipe_ready (ps_obj s i) (nat backing) events)"

definition pipe_dup :: "nat \<Rightarrow> pipe_sys \<Rightarrow> pipe_sys" where
  "pipe_dup bfd s =
     (if bfd < PIPE_FD_BASE then s
      else case ps_table s bfd of
             None \<Rightarrow> s
           | Some i \<Rightarrow>
               let p = ps_obj s i in
               set_obj i (if \<not> is_write_end bfd
                          then p\<lparr>pb_read_open := saturating_add_u32 (pb_read_open p) 1\<rparr>
                          else p\<lparr>pb_write_open := saturating_add_u32 (pb_write_open p) 1\<rparr>) s)"

subsection \<open>Reading and writing\<close>

datatype rd_outcome = RDone int "u8 list" | RWait

definition read_region :: "nat \<Rightarrow> nat \<Rightarrow> pipe_sys \<Rightarrow> rd_outcome \<times> nat list \<times> pipe_sys" where
  "read_region i buf_len s =
     (let p = ps_obj s i in
      if \<not> pb_is_empty p
      then let (bytes, p') = read_bytes buf_len p;
               (woken, s') = wake_pipe (write_wq i) POLLOUT (set_obj i p' s)
           in (RDone (int (length bytes)) bytes, woken, s')
      else if pb_write_open p = 0 then (RDone 0 [], [], s)
      else if pb_nonblocking p then (RDone EAGAIN [], [], s)
      else (RWait, [], s))"

definition pipe_read :: "nat \<Rightarrow> nat \<Rightarrow> pipe_sys \<Rightarrow> rd_outcome \<times> nat list \<times> pipe_sys" where
  "pipe_read bfd buf_len s =
     (if buf_len = 0 then (RDone 0 [], [], s)
      else case ps_table s bfd of
        None \<Rightarrow> (RDone EBADF [], [], s)
      | Some i \<Rightarrow> if is_write_end bfd then (RDone EBADF [], [], s) else read_region i buf_len s)"

text \<open>What a cancelled wait makes the two calls return.\<close>

definition pipe_read_cancelled :: rd_outcome where
  "pipe_read_cancelled = RDone EINTR []"

definition pipe_write_cancelled :: "nat \<Rightarrow> int" where
  "pipe_write_cancelled written = (if written = 0 then EINTR else int written)"

text \<open>
  One region of \<open>pipe_write\<close> under the lock: a final result with a broken pipe, a chunk
  written, or nothing written for lack of space.
\<close>

datatype wr_step = Broken | Wrote nat PipeInner | NoSpace

definition write_region :: "u8 list \<Rightarrow> PipeInner \<Rightarrow> wr_step" where
  "write_region remaining p =
     (if pb_read_open p = 0 then Broken
      else let space = pb_space p in
        if space = 0 then NoSpace
        else if length remaining \<le> PIPE_BUF
        then if space \<ge> length remaining then Wrote (length remaining) (write_bytes remaining p) else NoSpace
        else let chunk = min space (length remaining)
             in Wrote chunk (write_bytes (take chunk remaining) p))"

text \<open>\<open>WDone\<close> also says whether \<open>SIGPIPE\<close> was sent to the caller.\<close>

datatype wr_outcome = WDone int bool | WWait nat "u8 list"

lemma write_region_progress:
  "remaining \<noteq> [] \<Longrightarrow> write_region remaining p = Wrote n p' \<Longrightarrow> 0 < n \<and> n \<le> length remaining"
  by (auto simp: write_region_def Let_def split: if_splits)

function write_loop :: "nat \<Rightarrow> nat \<Rightarrow> u8 list \<Rightarrow> pipe_sys \<Rightarrow> wr_outcome \<times> nat list \<times> pipe_sys" where
  "write_loop i written remaining s =
     (if remaining = [] then (WDone (int written) False, [], s)
      else case write_region remaining (ps_obj s i) of
        Broken \<Rightarrow> (WDone (if written = 0 then EPIPE else int written) True, [], s)
      | NoSpace \<Rightarrow>
          (if pb_nonblocking (ps_obj s i) then (WDone (if written = 0 then EAGAIN else int written) False, [], s)
           else (WWait written remaining, [], s))
      | Wrote n p' \<Rightarrow>
          let (woken, s1) = wake_pipe (read_wq i) POLLIN (set_obj i p' s);
              (r, more, s2) = write_loop i (written + n) (drop n remaining) s1
          in (r, woken @ more, s2))"
  by pat_completeness auto
termination
  by (relation "measure (\<lambda>(i, written, remaining, s). length remaining)")
    (auto dest: write_region_progress)

declare write_loop.simps [simp del]

definition pipe_write :: "nat \<Rightarrow> u8 list \<Rightarrow> pipe_sys \<Rightarrow> wr_outcome \<times> nat list \<times> pipe_sys" where
  "pipe_write bfd buf s =
     (if buf = [] then (WDone 0 False, [], s)
      else case ps_table s bfd of
        None \<Rightarrow> (WDone EBADF False, [], s)
      | Some i \<Rightarrow>
          if \<not> is_write_end bfd then (WDone EBADF False, [], s)
          else write_loop i 0 buf s)"

definition sys_close_pipe :: "nat \<Rightarrow> pipe_sys \<Rightarrow> nat list \<times> pipe_sys" where
  "sys_close_pipe bfd s =
     (case ps_table s bfd of
        None \<Rightarrow> ([], s)
      | Some i \<Rightarrow>
          let p = ps_obj s i;
              p' = (if \<not> is_write_end bfd
                    then p\<lparr>pb_read_open := saturating_sub_u32 (pb_read_open p) 1\<rparr>
                    else p\<lparr>pb_write_open := saturating_sub_u32 (pb_write_open p) 1\<rparr>);
              wake_read = (is_write_end bfd \<and> pb_write_open p' = 0);
              wake_write = (\<not> is_write_end bfd \<and> pb_read_open p' = 0);
              s1 = set_obj i p' s;
              (w1, s2) = (if wake_read then wake_pipe (read_wq i) POLLHUP s1 else ([], s1));
              (w2, s3) = (if wake_write then wake_pipe (write_wq i) POLLERR s2 else ([], s2))
          in (w1 @ w2, s3\<lparr>ps_table := (ps_table s3)(bfd := None)\<rparr>))"

subsection \<open>The buffer is a bounded queue\<close>

definition pipe_ok :: "PipeInner \<Rightarrow> bool" where
  "pipe_ok p \<longleftrightarrow> pb_head p < length (pb_buf p) \<and> pb_len p \<le> length (pb_buf p)"

definition pipe_content :: "PipeInner \<Rightarrow> u8 list" where
  "pipe_content p = ring_view (pb_buf p) (pb_head p) (pb_len p)"

text \<open>One region of a writer as a producer step: the bytes it accepted and the new buffer.\<close>

definition pipe_put :: "u8 list \<Rightarrow> PipeInner \<Rightarrow> u8 list \<times> PipeInner" where
  "pipe_put remaining p =
     (case write_region remaining p of Wrote n p' \<Rightarrow> (take n remaining, p') | _ \<Rightarrow> ([], p))"

lemma length_pipe_content [simp]: "length (pipe_content p) = pb_len p"
  by (simp add: pipe_content_def)

lemma pipe_content_empty: "pipe_content p = [] \<longleftrightarrow> pb_len p = 0"
  using length_pipe_content [of p] by (metis length_0_conv)

lemma pipe_ok_new: "pipe_ok (pipe_inner_new nb)"
  by (simp add: pipe_ok_def pipe_inner_new_def PIPE_BUF_SIZE_def)

lemma read_bytes_law:
  assumes "pipe_ok p" "read_bytes n p = (bytes, p')"
  shows "pipe_ok p' \<and> pipe_content p = bytes @ pipe_content p' \<and> pb_capacity p' = pb_capacity p"
proof -
  let ?m = "min n (pb_len p)"
  have b: "bytes = ring_view (pb_buf p) (pb_head p) ?m"
    and p': "p' = p\<lparr>pb_head := (pb_head p + ?m) mod length (pb_buf p), pb_len := pb_len p - ?m\<rparr>"
    using assms(2) by (auto simp: read_bytes_def pb_capacity_def ring_view_def Let_def)
  have "pipe_content p = take ?m (pipe_content p) @ drop ?m (pipe_content p)" by simp
  also have "take ?m (pipe_content p) = bytes"
    unfolding b pipe_content_def by (rule ring_view_take) simp
  also have "drop ?m (pipe_content p) = pipe_content p'"
    unfolding p' pipe_content_def by (simp add: ring_view_drop)
  finally show ?thesis using assms(1) p' by (auto simp: pipe_ok_def pb_capacity_def intro!: mod_less_divisor)
qed


lemma write_bytes_law:
  assumes "pipe_ok p" "length src \<le> pb_space p"
  shows "pipe_ok (write_bytes src p) \<and> pipe_content (write_bytes src p) = pipe_content p @ src \<and>
    pb_capacity (write_bytes src p) = pb_capacity p"
proof -
  have "pb_len p + length src \<le> length (pb_buf p)"
    using assms unfolding pipe_ok_def pb_space_def pb_capacity_def by linarith
  then show ?thesis
    using assms(1) ring_view_write [of "pb_len p" src "pb_buf p" "pb_head p"]
    by (simp add: pipe_ok_def pipe_content_def pb_capacity_def write_bytes_def ring_write_mod Let_def)
qed

lemma write_bytes_fields [simp]:
  "pb_read_open (write_bytes src p) = pb_read_open p"
  "pb_write_open (write_bytes src p) = pb_write_open p"
  "pb_nonblocking (write_bytes src p) = pb_nonblocking p"
  by (simp_all add: write_bytes_def Let_def)

lemma write_region_law:
  assumes "pipe_ok p" "write_region remaining p = Wrote n p'"
  shows "pipe_ok p' \<and> pipe_content p' = pipe_content p @ take n remaining \<and> pb_capacity p' = pb_capacity p"
  using assms write_bytes_law [OF assms(1)]
  by (auto simp: write_region_def Let_def min_def split: if_splits)

lemma pipe_put_law:
  assumes "pipe_ok p" "pipe_put remaining p = (xs, p')"
  shows "pipe_ok p' \<and> pipe_content p' = pipe_content p @ xs \<and> pb_capacity p' = pb_capacity p"
  using assms write_region_law [OF assms(1)] by (auto simp: pipe_put_def split: wr_step.splits)

lemma pipe_bounded: "pipe_ok p \<Longrightarrow> length (pipe_content p) \<le> pb_capacity p"
  by (simp add: pipe_ok_def pb_capacity_def)

interpretation pf: fifo pipe_ok pipe_content pb_capacity pipe_put read_bytes
  by unfold_locales (fact pipe_put_law read_bytes_law pipe_bounded)+

subsection \<open>The loop of a writer\<close>

lemma wake_pipe_obj [simp]: "wake_pipe q bits s = (woken, s') \<Longrightarrow> ps_obj s' = ps_obj s \<and> ps_table s' = ps_table s"
  by (auto simp: wake_pipe_def split: prod.splits)

lemma set_obj_simps [simp]:
  "ps_obj (set_obj i p s) = (ps_obj s)(i := p)" "ps_table (set_obj i p s) = ps_table s" "ps_wq (set_obj i p s) = ps_wq s"
  by (simp_all add: set_obj_def)

definition no_room :: "u8 list \<Rightarrow> PipeInner \<Rightarrow> bool" where
  "no_room rem p \<longleftrightarrow> pb_space p = 0 \<or> length rem \<le> PIPE_BUF \<and> pb_space p < length rem"

text \<open>What the loop may answer after it has put \<open>k\<close> of the \<open>remaining\<close> bytes into the pipe.\<close>

definition write_answer :: "nat \<Rightarrow> u8 list \<Rightarrow> PipeInner \<Rightarrow> nat \<Rightarrow> wr_outcome \<Rightarrow> bool" where
  "write_answer written rem p k out \<longleftrightarrow>
     (case out of
        WDone r sigpipe \<Rightarrow>
          k = length rem \<and> r = int (written + k) \<and> \<not> sigpipe \<or>
          rem \<noteq> [] \<and> pb_read_open p = 0 \<and> k = 0 \<and> r = (if written = 0 then EPIPE else int written) \<and> sigpipe \<or>
          k < length rem \<and> pb_nonblocking p \<and> pb_read_open p \<noteq> 0 \<and>
            r = (if written + k = 0 then EAGAIN else int (written + k)) \<and> \<not> sigpipe
      | WWait w rem' \<Rightarrow> k < length rem \<and> \<not> pb_nonblocking p \<and> pb_read_open p \<noteq> 0 \<and> w = written + k \<and> rem' = drop k rem)"

definition same_flags :: "PipeInner \<Rightarrow> PipeInner \<Rightarrow> bool" where
  "same_flags p q \<longleftrightarrow> pb_read_open q = pb_read_open p \<and> pb_write_open q = pb_write_open p \<and>
     pb_nonblocking q = pb_nonblocking p \<and> pb_capacity q = pb_capacity p"

lemma same_flags_trans: "same_flags p q \<Longrightarrow> same_flags q r \<Longrightarrow> same_flags p r"
  by (simp add: same_flags_def)

lemma write_region_flags: "write_region rem p = Wrote n p' \<Longrightarrow> same_flags p p'"
  by (auto simp: write_region_def same_flags_def write_bytes_def pb_capacity_def Let_def split: if_splits)

lemma write_region_cases:
  "write_region rem p = Broken \<Longrightarrow> pb_read_open p = 0"
  "write_region rem p = NoSpace \<Longrightarrow> pb_read_open p \<noteq> 0 \<and> no_room rem p"
  "write_region rem p = Wrote n p' \<Longrightarrow> pb_read_open p \<noteq> 0 \<and> (length rem \<le> PIPE_BUF \<longrightarrow> n = length rem)"
  by (auto simp: write_region_def no_room_def Let_def split: if_splits)

lemma write_answer_shift:
  assumes "write_answer (written + n) (drop n rem) q k out" "n \<le> length rem" "0 < n" "same_flags p q" "pb_read_open p \<noteq> 0"
  shows "write_answer written rem p (n + k) out"
  using assms by (auto simp: write_answer_def same_flags_def add.commute split: wr_outcome.splits)

lemma take_add_drop: "take (n + k) xs = take n xs @ take k (drop n xs)"
  by (rule take_add)

lemma write_loop_law:
  assumes "pipe_ok (ps_obj s i)" "write_loop i written rem s = (out, woken, s')"
  shows "\<exists>k \<le> length rem. pipe_ok (ps_obj s' i) \<and> pipe_content (ps_obj s' i) = pipe_content (ps_obj s i) @ take k rem \<and>
    same_flags (ps_obj s i) (ps_obj s' i) \<and> write_answer written rem (ps_obj s i) k out \<and>
    (length rem \<le> PIPE_BUF \<longrightarrow> k = 0 \<or> k = length rem) \<and>
    (\<forall>w rem'. out = WWait w rem' \<longrightarrow> no_room rem' (ps_obj s' i))"
  using assms
proof (induction i written rem s arbitrary: out woken s' rule: write_loop.induct)
  case (1 i written rem s)
  let ?p = "ps_obj s i"
  have same: "same_flags ?p ?p" by (simp add: same_flags_def)
  show ?case
  proof (cases "rem = []")
    case True
    then show ?thesis using 1(2,3) same by (auto simp: write_loop.simps write_answer_def)
  next
    case rem: False
    show ?thesis
    proof (cases "write_region rem ?p")
      case Broken
      then show ?thesis using 1(2,3) rem same write_region_cases(1) [OF Broken]
        by (intro exI [of _ 0]) (auto simp: write_loop.simps [of i written rem s] write_answer_def)
    next
      case NoSpace
      then show ?thesis using 1(2,3) rem same write_region_cases(2) [OF NoSpace]
        by (intro exI [of _ 0]) (auto simp: write_loop.simps [of i written rem s] write_answer_def split: if_splits)
    next
      case (Wrote n p')
      obtain wk s1 where wk: "wake_pipe (read_wq i) POLLIN (set_obj i p' s) = (wk, s1)" by (metis surj_pair)
      obtain o2 more s2 where rec: "write_loop i (written + n) (drop n rem) s1 = (o2, more, s2)" by (metis prod_cases3)
      have res: "out = o2" "s' = s2" using 1(3) rem Wrote wk rec by (simp_all add: write_loop.simps [of i written rem s])
      have obj: "ps_obj s1 i = p'" using wake_pipe_obj [OF wk] by simp
      note n = write_region_progress [OF rem Wrote]
      note law = write_region_law [OF 1(2) Wrote]
      have ok: "pipe_ok (ps_obj s1 i)" using law obj by simp
      obtain k where k: "k \<le> length (drop n rem)" "pipe_ok (ps_obj s2 i)"
        "pipe_content (ps_obj s2 i) = pipe_content p' @ take k (drop n rem)" "same_flags p' (ps_obj s2 i)"
        "write_answer (written + n) (drop n rem) p' k o2" "\<forall>w rem'. o2 = WWait w rem' \<longrightarrow> no_room rem' (ps_obj s2 i)"
        using "1.IH" [OF rem Wrote wk [symmetric] refl ok rec] obj by auto
      have "write_answer written rem ?p (n + k) o2"
        by (rule write_answer_shift [OF k(5)]) (use n write_region_flags [OF Wrote] write_region_cases(3) [OF Wrote] in auto)
      moreover have "pipe_content (ps_obj s2 i) = pipe_content ?p @ take (n + k) rem"
        using k(3) law by (simp add: take_add_drop)
      moreover have "n + k \<le> length rem" using k(1) n by auto
      moreover have "length rem \<le> PIPE_BUF \<longrightarrow> n + k = length rem" using write_region_cases(3) [OF Wrote] k(1) by auto
      ultimately show ?thesis
        using k(2,6) res same_flags_trans [OF write_region_flags [OF Wrote] k(4)] by blast
    qed
  qed
qed

subsection \<open>A writer and a reader that take turns\<close>


definition open_pipe :: "PipeInner \<Rightarrow> bool" where
  "open_pipe p \<longleftrightarrow> pipe_ok p \<and> pb_capacity p = PIPE_BUF_SIZE \<and> pb_read_open p \<noteq> 0 \<and> \<not> pb_nonblocking p"







subsection \<open>Ends of a pipe\<close>

lemma is_write_end_odd: "is_write_end b \<longleftrightarrow> odd b"
  unfolding is_write_end_def and_one_eq by (rule parity_cases [of b]) simp_all

lemma pipe_create_simps:
  assumes "pipe_create nb s = ((r, w), s1)"
  shows "ps_obj s1 r = pipe_inner_new nb" "ps_table s1 r = Some r" "ps_table s1 w = Some r"
  using assms by (auto simp: pipe_create_def alloc_pipe_fds_def Let_def)

lemma pipe_create_ends:
  assumes "pipe_create nb s = ((r, w), s1)" "even (ps_next s)" "ps_next s < 2 ^ 63"
  shows "w = r + 1" "\<not> is_write_end r" "is_write_end w" "PIPE_FD_BASE \<le> r"
  using assms by (auto simp: pipe_create_def alloc_pipe_fds_def wadd_def PIPE_FD_BASE_def is_write_end_odd Let_def)

lemma open_pipe_new: "open_pipe (pipe_inner_new False)" "pb_len (pipe_inner_new nb) = 0"
  using pipe_ok_new [of False] by (simp_all add: open_pipe_def pipe_inner_new_def pb_capacity_def)

lemma matching_none:
  "(\<And>x. x \<in> set ws \<Longrightarrow> w_interest x AND bits = 0) \<Longrightarrow> matching bits ws = []"
  by (simp add: matching_def)

lemma wake_pipe_unmatched:
  assumes "\<And>x. x \<in> set (wq_waiters (ps_wq s q)) \<Longrightarrow> w_interest x AND bits = 0" "wq_forwarders (ps_wq s q) = []"
  shows "fst (wake_pipe q bits s) = []"
  using assms matching_none [of "wq_waiters (ps_wq s q)" bits] by (simp add: wake_pipe_def wake_def Let_def)

definition demo_pipe :: "PipeInner \<Rightarrow> pipe_sys" where
  "demo_pipe p = \<lparr>ps_obj = (\<lambda>_. p), ps_table = [0 \<mapsto> 0, 1 \<mapsto> 0], ps_next = 2, ps_wq = (\<lambda>_. wq_new)\<rparr>"

definition demo_inner :: "bool \<Rightarrow> PipeInner" where
  "demo_inner nb = \<lparr>pb_buf = [9, 0, 0, 8], pb_head = 3, pb_len = 2, pb_write_open = 1, pb_read_open = 1, pb_nonblocking = nb\<rparr>"

subsection \<open>Properties\<close>

text \<open>
  C16. A pipe is a bounded byte stream: from a new pipe, under every interleaving of the lock
  regions of any number of writers and readers, what the writers put in is what the readers
  got followed by what is still buffered, and the buffer never holds more than its 64 KiB.
\<close>

theorem pipe_stream:
  "case fifo_run pipe_put read_bytes ops (pipe_inner_new nb) of
     (written, got, p) \<Rightarrow> written = got @ pipe_content p \<and> length (pipe_content p) \<le> PIPE_BUF_SIZE"
proof -
  obtain written got p where run: "fifo_run pipe_put read_bytes ops (pipe_inner_new nb) = (written, got, p)"
    by (metis prod_cases3)
  have "pipe_content (pipe_inner_new nb) = []" using open_pipe_new(2) pipe_content_empty by blast
  moreover have "pb_capacity (pipe_inner_new nb) = PIPE_BUF_SIZE" by (simp add: pb_capacity_def pipe_inner_new_def)
  ultimately show ?thesis
    using pf.run_law [OF pipe_ok_new run] pf.run_bounded [OF pipe_ok_new run] run by simp
qed

text \<open>
  C17. What \<open>pipe_write\<close> answers and does: some prefix of the buffer is appended to the stream.
  The call returns its length when that is everything; it returns \<open>EPIPE\<close> with \<open>SIGPIPE\<close> when
  no reader is left, \<open>EAGAIN\<close> or a short count on a full non-blocking pipe, and it waits with
  the rest on a full blocking one. A buffer of at most \<open>PIPE_BUF\<close> bytes is written whole or
  not at all.
\<close>

theorem pipe_write_delivers:
  assumes "ps_table s w = Some i" "is_write_end w" "buf \<noteq> []" "pipe_ok (ps_obj s i)"
    and "pipe_write w buf s = (out, woken, s')"
  shows "\<exists>k \<le> length buf. pipe_content (ps_obj s' i) = pipe_content (ps_obj s i) @ take k buf \<and>
    write_answer 0 buf (ps_obj s i) k out \<and> (length buf \<le> PIPE_BUF \<longrightarrow> k = 0 \<or> k = length buf)"
proof -
  have "write_loop i 0 buf s = (out, woken, s')" using assms by (simp add: pipe_write_def)
  from write_loop_law [OF assms(4) this] show ?thesis by blast
qed

theorem pipe_write_delivers_witness:
  "pipe_ok (demo_inner True) \<and>
   pipe_content (ps_obj (snd (snd (pipe_write 1 [5, 6] (demo_pipe (demo_inner True))))) 0) = [8, 9, 5, 6]"
proof -
  let ?s = "demo_pipe (demo_inner True)"
  have ok: "pipe_ok (ps_obj ?s 0)" by (simp add: demo_pipe_def demo_inner_def pipe_ok_def)
  have t: "ps_table ?s 1 = Some 0" and e: "is_write_end 1" by (simp_all add: demo_pipe_def is_write_end_def)
  have r: "pipe_write 1 [5, 6] ?s = (WDone 2 False, [], snd (snd (pipe_write 1 [5, 6] ?s)))"
    by (simp add: pipe_write_def is_write_end_def write_loop.simps write_region_def demo_pipe_def demo_inner_def pb_space_def
        pb_capacity_def PIPE_BUF_def wake_pipe_def wake_def matching_def wq_new_def set_ready_def set_obj_def Let_def)
  have c: "pipe_content (ps_obj ?s 0) = [8, 9]"
    by (simp add: demo_pipe_def demo_inner_def pipe_content_def ring_view_def upt_rec)
  have "ps_obj ?s 0 = demo_inner True" by (simp add: demo_pipe_def)
  then show ?thesis
    using pipe_write_delivers [OF t e _ ok r] c ok by (auto simp: write_answer_def EAGAIN_def EPIPE_def PIPE_BUF_def)
qed


text \<open>
  Polling tells the truth about both ends: \<open>POLLIN\<close> on the read end means exactly that a
  read neither waits nor fails with \<open>EAGAIN\<close>, and \<open>POLLERR\<close> on the write end means exactly
  that a write fails with \<open>EPIPE\<close> and raises \<open>SIGPIPE\<close>.
\<close>

theorem pipe_poll_exact:
  assumes "ps_table s b = Some i" "pipe_ok (ps_obj s i)" "0 < n" "buf \<noteq> []"
  shows "if is_write_end b
    then pipe_poll (int b) POLLOUT s AND POLLERR \<noteq> 0 \<longleftrightarrow> fst (pipe_write b buf s) = WDone EPIPE True
    else pipe_poll (int b) POLLIN s AND POLLIN \<noteq> 0 \<longleftrightarrow> fst (pipe_read b n s) \<notin> {RWait, RDone EAGAIN []}"
proof (cases "is_write_end b")
  case True
  have "fst (write_loop i 0 buf s) = WDone EPIPE True \<longleftrightarrow> pb_read_open (ps_obj s i) = 0"
  proof -
    obtain out woken s' where wl: "write_loop i 0 buf s = (out, woken, s')" by (metis prod_cases3)
    from write_loop_law [OF assms(2) wl] obtain k where "write_answer 0 buf (ps_obj s i) k out" by blast
    moreover have "pb_read_open (ps_obj s i) = 0 \<Longrightarrow> out = WDone EPIPE True"
      using wl assms(4) by (simp add: write_loop.simps write_region_def)
    ultimately show ?thesis using wl by (auto simp: write_answer_def)
  qed
  moreover have "pipe_poll (int b) POLLOUT s AND POLLERR \<noteq> 0 \<longleftrightarrow> pb_read_open (ps_obj s i) = 0"
    using assms(1) True by (simp add: pipe_poll_def pipe_ready_def poll_defs)
  ultimately show ?thesis using True assms by (simp add: pipe_write_def)
next
  case False
  have "pipe_poll (int b) POLLIN s AND POLLIN \<noteq> 0 \<longleftrightarrow> pb_write_open (ps_obj s i) = 0 \<or> pb_len (ps_obj s i) \<noteq> 0"
    using assms(1) False by (simp add: pipe_poll_def pipe_ready_def poll_defs)
  moreover have "fst (read_region i n s) \<notin> {RWait, RDone EAGAIN []} \<longleftrightarrow>
      pb_write_open (ps_obj s i) = 0 \<or> pb_len (ps_obj s i) \<noteq> 0"
    by (auto simp: read_region_def pb_is_empty_def EAGAIN_def Let_def split: prod.splits)
  ultimately show ?thesis using False assms by (simp add: pipe_read_def)
qed

theorem pipe_poll_exact_witness:
  "pipe_poll 0 POLLIN (demo_pipe (demo_inner False)) AND POLLIN \<noteq> 0 \<and>
   fst (pipe_read 0 1 (demo_pipe (demo_inner False))) \<notin> {RWait, RDone EAGAIN []}"
proof -
  let ?s = "demo_pipe (demo_inner False)"
  have t: "ps_table ?s 0 = Some 0" and e: "\<not> is_write_end 0" by (simp_all add: demo_pipe_def is_write_end_def)
  have ok: "pipe_ok (ps_obj ?s 0)" by (simp add: demo_pipe_def demo_inner_def pipe_ok_def)
  have "pipe_poll 0 POLLIN ?s AND POLLIN \<noteq> 0"
    by (simp add: pipe_poll_def pipe_ready_def demo_pipe_def demo_inner_def is_write_end_def poll_defs)
  then show ?thesis using pipe_poll_exact [OF t ok, of 1 "[0]"] e by simp
qed

text \<open>
  Closing the last read end does not wake a writer that is blocked in \<open>pipe_write\<close>: it is
  registered for \<open>POLLOUT\<close> and the close publishes only \<open>POLLERR\<close>. No task is woken, although
  the writer's next look at the pipe would have given \<open>EPIPE\<close>.
\<close>

theorem blocked_writer_not_woken_by_close:
  assumes "ps_table s r = Some i" "\<not> is_write_end r" "pb_read_open (ps_obj s i) = 1"
    and "\<forall>x \<in> set (wq_waiters (ps_wq s (write_wq i))). w_interest x = POLLOUT OR WAKE_TIMEOUT OR WAKE_CANCEL"
    and "wq_forwarders (ps_wq s (write_wq i)) = []" "rem \<noteq> []"
  shows "fst (sys_close_pipe r s) = [] \<and>
    fst (write_loop i 0 rem (snd (sys_close_pipe r s))) = WDone EPIPE True"
proof -
  let ?p = "(ps_obj s i)\<lparr>pb_read_open := 0\<rparr>"
  have sub: "saturating_sub_u32 1 1 = 0" by (simp add: saturating_sub_u32_def)
  obtain wk s1 where w: "wake_pipe (write_wq i) POLLERR (set_obj i ?p s) = (wk, s1)" by (metis surj_pair)
  have "(POLLOUT OR WAKE_TIMEOUT OR WAKE_CANCEL) AND POLLERR = 0"
    by (simp add: poll_defs WAKE_TIMEOUT_def WAKE_CANCEL_def)
  then have "fst (wake_pipe (write_wq i) POLLERR (set_obj i ?p s)) = []"
    using assms(4,5) by (intro wake_pipe_unmatched) auto
  then have wk: "wk = []" using w by simp
  have close: "sys_close_pipe r s = ([], s1\<lparr>ps_table := (ps_table s1)(r := None)\<rparr>)"
    using assms(1-3) w wk sub by (simp add: sys_close_pipe_def)
  have "ps_obj s1 i = ?p" using wake_pipe_obj [OF w] by simp
  then show ?thesis using close assms(6) by (simp add: write_loop.simps write_region_def)
qed

definition blocked_writer_demo :: pipe_sys where
  "blocked_writer_demo = (demo_pipe (demo_inner False))\<lparr>ps_wq := (\<lambda>_. wq_new)(1 := wq_new\<lparr>wq_waiters :=
     [\<lparr>w_task = 7, w_interest = POLLOUT OR WAKE_TIMEOUT OR WAKE_CANCEL\<rparr>]\<rparr>)\<rparr>"

theorem blocked_writer_not_woken_by_close_witness:
  "wait_begin 1 7 POLLOUT False (ps_wq (demo_pipe (demo_inner False))) = Inr (ps_wq blocked_writer_demo) \<and>
   fst (sys_close_pipe 0 blocked_writer_demo) = []"
proof -
  let ?s = blocked_writer_demo
  have "fst (sys_close_pipe 0 ?s) = []"
    using blocked_writer_not_woken_by_close [of ?s 0 0 "[1]"]
    by (simp add: blocked_writer_demo_def demo_pipe_def demo_inner_def is_write_end_def write_wq_def wq_new_def)
  then show ?thesis
    by (simp add: blocked_writer_demo_def demo_pipe_def wait_begin_def wq_new_def or.assoc)
qed

text \<open>
  A duplicated end does not survive the first close: after \<open>pipe_dup\<close> on the write end and
  one close, writing through the remaining descriptor fails with \<open>EBADF\<close>, and even when that
  one is closed too the reader never sees the end of file but waits for ever.
\<close>

theorem dup_close_loses_end:
  assumes "pipe_create False s = ((r, w), s1)" "even (ps_next s)" "ps_next s < 2 ^ 63"
    and "s2 = snd (sys_close_pipe w (pipe_dup w s1))" "s3 = snd (sys_close_pipe w s2)" "buf \<noteq> []" "0 < n"
  shows "fst (pipe_write w buf s2) = WDone EBADF False \<and> fst (pipe_read r n s3) = RWait"
proof -
  note e = pipe_create_ends [OF assms(1-3)] and c = pipe_create_simps [OF assms(1)]
  let ?p = "pipe_inner_new False"
  have n1: "pb_write_open ?p = 1" by (simp add: pipe_inner_new_def)
  have "w \<ge> PIPE_FD_BASE" using e by simp
  then have dup: "pipe_dup w s1 = set_obj r (?p\<lparr>pb_write_open := 2\<rparr>) s1"
    using c e n1 by (simp add: pipe_dup_def saturating_add_u32_def)
  have same: "?p\<lparr>pb_write_open := 1\<rparr> = ?p" by (simp add: pipe_inner_new_def)
  have sub: "saturating_sub_u32 2 1 = 1" by (simp add: saturating_sub_u32_def)
  have close: "s2 = (set_obj r ?p s1)\<lparr>ps_table := (ps_table s1)(w := None)\<rparr>"
    using c e n1 sub dup assms(4) by (simp add: sys_close_pipe_def set_obj_def same)
  have "s3 = s2" using close assms(5) by (simp add: sys_close_pipe_def)
  moreover have "ps_table s2 r = Some r" "ps_table s2 w = None" "ps_obj s2 r = ?p" using close c e by simp_all
  ultimately show ?thesis
    using e assms(6,7)
    by (simp add: pipe_write_def pipe_read_def read_region_def pb_is_empty_def pipe_inner_new_def Let_def)
qed

theorem dup_close_loses_end_witness:
  "case pipe_create False (demo_pipe (demo_inner False)) of
     ((r, w), s1) \<Rightarrow> fst (pipe_write w [1] (snd (sys_close_pipe w (pipe_dup w s1)))) = WDone EBADF False"
proof -
  let ?s = "demo_pipe (demo_inner False)"
  obtain r w s1 where c: "pipe_create False ?s = ((r, w), s1)" by (metis surj_pair)
  have "even (ps_next ?s)" "ps_next ?s < 2 ^ 63" by (simp_all add: demo_pipe_def)
  from dup_close_loses_end [OF c this refl refl, of "[1]" 1] c show ?thesis by simp
qed

end
