(* ===== verification/Proc_Fd.thy ===== *)
theory Proc_Fd
  imports Pipe Proc_Table
begin

unbundle bit_operations_syntax

section \<open>Descriptors of processes\<close>

text \<open>
  The store of scheme descriptors (\<^verbatim>\<open>src/fs/scheme_fd.rs\<close>), the descriptor tables of processes
  (\<^verbatim>\<open>src/fs/process_fd.rs\<close>) and \<open>sys_pipe2\<close> with the scheme adapter of pipes
  (\<^verbatim>\<open>src/fs/pipe.rs\<close>). The world holds the tables, the pipes and the schemes; the subsystems
  that own the other backing descriptors are an opaque state with the operations of
  \<open>other_ops\<close>: \<open>oo_early\<close> says that one of those asked before the pipes (devices to timers)
  claims the descriptor, \<open>oo_socket\<close> that a socket does, and \<open>oo_close\<close>, \<open>oo_dup\<close> close and
  duplicate it in the subsystem that claims it. \<open>fw_woken\<close> collects the tasks woken.
\<close>

subsection \<open>Schemes\<close>

datatype SchemeError = NoSuchScheme | NotFound | PermissionDenied | InvalidArg | WouldBlock | Io | Unreachable
  | Other | Interrupted

text \<open>
  \<open>Interrupted\<close> is used by \<^verbatim>\<open>pipe.rs\<close>, but \<^verbatim>\<open>scheme-api\<close> does not declare it and the
  translation to error numbers has no arm for it.
\<close>

fun scheme_error_to_errno :: "SchemeError \<Rightarrow> int option" where
  "scheme_error_to_errno NoSuchScheme = Some (- 2)"
| "scheme_error_to_errno NotFound = Some (- 2)"
| "scheme_error_to_errno PermissionDenied = Some (- 13)"
| "scheme_error_to_errno InvalidArg = Some (- 22)"
| "scheme_error_to_errno WouldBlock = Some (- 11)"
| "scheme_error_to_errno Io = Some (- 5)"
| "scheme_error_to_errno Unreachable = Some (- 5)"
| "scheme_error_to_errno Other = Some (- 5)"
| "scheme_error_to_errno Interrupted = None"

datatype Scheme = PipeScheme nat | OtherScheme nat

record SchemeFdStore =
  ss_counter :: nat
  ss_free :: "nat list"
  ss_map :: "nat \<Rightarrow> (Scheme \<times> u64) option"

definition scheme_store_init :: SchemeFdStore where
  "scheme_store_init = \<lparr>ss_counter = 0x80000000, ss_free = [], ss_map = (\<lambda>_. None)\<rparr>"

definition alloc_scheme_backing_fd :: "SchemeFdStore \<Rightarrow> nat \<times> SchemeFdStore" where
  "alloc_scheme_backing_fd ss =
     (if ss_free ss \<noteq> [] then (last (ss_free ss), ss\<lparr>ss_free := butlast (ss_free ss)\<rparr>)
      else (ss_counter ss, ss\<lparr>ss_counter := wadd (ss_counter ss) 1\<rparr>))"

definition free_scheme_backing_fd :: "nat \<Rightarrow> SchemeFdStore \<Rightarrow> SchemeFdStore" where
  "free_scheme_backing_fd fd ss = ss\<lparr>ss_free := ss_free ss @ [fd]\<rparr>"

definition scheme_fd_register :: "nat \<Rightarrow> Scheme \<Rightarrow> u64 \<Rightarrow> SchemeFdStore \<Rightarrow> SchemeFdStore" where
  "scheme_fd_register bfd sch fid ss = ss\<lparr>ss_map := (ss_map ss)(bfd \<mapsto> (sch, fid))\<rparr>"

definition is_scheme_fd :: "nat \<Rightarrow> SchemeFdStore \<Rightarrow> bool" where
  "is_scheme_fd bfd ss \<longleftrightarrow> ss_map ss bfd \<noteq> None"

definition bfd_from_fid :: "nat \<Rightarrow> u64 \<Rightarrow> nat" where
  "bfd_from_fid ring_bfd fid = wadd ring_bfd (unat (fid AND 1))"

subsection \<open>The world\<close>

record FdEntry =
  fe_backing_fd :: nat
  fe_path :: "string option"
  fe_cloexec :: bool
  fe_nonblock :: bool
  fe_fl_flags :: u32

type_synonym ProcFdTable = "(nat, FdEntry) btree"

record 'o fd_world =
  fw_tables :: "nat \<Rightarrow> ProcFdTable option"
  fw_pipes :: pipe_sys
  fw_schemes :: SchemeFdStore
  fw_woken :: "nat list"
  fw_other :: 'o

record 'o other_ops =
  oo_early :: "nat \<Rightarrow> 'o \<Rightarrow> bool"
  oo_socket :: "nat \<Rightarrow> 'o \<Rightarrow> bool"
  oo_close :: "nat \<Rightarrow> 'o \<Rightarrow> 'o"
  oo_dup :: "nat \<Rightarrow> 'o \<Rightarrow> nat \<times> 'o"
  oo_close_scheme :: "nat \<Rightarrow> u64 \<Rightarrow> 'o \<Rightarrow> 'o"
  oo_close_fd_meta :: "nat \<Rightarrow> 'o \<Rightarrow> 'o"

definition close_pipe_end :: "nat \<Rightarrow> 'o fd_world \<Rightarrow> 'o fd_world" where
  "close_pipe_end bfd w =
     (let (woken, ps) = sys_close_pipe bfd (fw_pipes w) in w\<lparr>fw_pipes := ps, fw_woken := fw_woken w @ woken\<rparr>)"

definition scheme_fd_close :: "'o other_ops \<Rightarrow> nat \<Rightarrow> 'o fd_world \<Rightarrow> 'o fd_world" where
  "scheme_fd_close oo bfd w =
     (case ss_map (fw_schemes w) bfd of
        None \<Rightarrow> w
      | Some (sch, fid) \<Rightarrow>
          let w1 = w\<lparr>fw_schemes := (fw_schemes w)\<lparr>ss_map := (ss_map (fw_schemes w))(bfd := None)\<rparr>\<rparr>;
              w2 = (case sch of
                      PipeScheme ring_bfd \<Rightarrow> close_pipe_end (bfd_from_fid ring_bfd fid) w1
                    | OtherScheme n \<Rightarrow> w1\<lparr>fw_other := oo_close_scheme oo n fid (fw_other w1)\<rparr>)
          in w2\<lparr>fw_schemes := free_scheme_backing_fd bfd (fw_schemes w2)\<rparr>)"

definition close_backing :: "'o other_ops \<Rightarrow> nat \<Rightarrow> 'o fd_world \<Rightarrow> 'o fd_world" where
  "close_backing oo bfd w =
     (if oo_early oo bfd (fw_other w) then w\<lparr>fw_other := oo_close oo bfd (fw_other w)\<rparr>
      else if is_pipe bfd (fw_pipes w) then close_pipe_end bfd w
      else if oo_socket oo bfd (fw_other w) then w\<lparr>fw_other := oo_close oo bfd (fw_other w)\<rparr>
      else if is_scheme_fd bfd (fw_schemes w) then scheme_fd_close oo bfd w
      else w\<lparr>fw_other := oo_close oo bfd (fw_other w)\<rparr>)"

definition dup_backing :: "'o other_ops \<Rightarrow> nat \<Rightarrow> 'o fd_world \<Rightarrow> nat \<times> 'o fd_world" where
  "dup_backing oo bfd w =
     (if is_pipe bfd (fw_pipes w) then (bfd, w\<lparr>fw_pipes := pipe_dup bfd (fw_pipes w)\<rparr>)
      else let (r, oth) = oo_dup oo bfd (fw_other w) in (r, w\<lparr>fw_other := oth\<rparr>))"

subsection \<open>Tables\<close>

definition O_APPEND :: u32 where "O_APPEND = 0x400"
definition O_NONBLOCK :: u32 where "O_NONBLOCK = 0x800"
definition O_CLOEXEC_FLAG :: u32 where "O_CLOEXEC_FLAG = 0x80000"

definition FdEntry_new :: "nat \<Rightarrow> string option \<Rightarrow> u32 \<Rightarrow> FdEntry" where
  "FdEntry_new bfd path flags =
     (let fl = (if flags AND 3 = 0 then 0 else if flags AND 3 = 1 then 1 else 2);
          fl = (if flags AND O_APPEND \<noteq> 0 then fl OR 0x400 else fl)
      in \<lparr>fe_backing_fd = bfd, fe_path = path, fe_cloexec = (flags AND O_CLOEXEC_FLAG \<noteq> 0),
          fe_nonblock = (flags AND O_NONBLOCK \<noteq> 0), fe_fl_flags = fl\<rparr>)"

lemma finite_dom_bt_get: "finite (dom (bt_get xs))"
  by (simp add: finite_dom_map_of)

function alloc_fd :: "ProcFdTable \<Rightarrow> nat \<Rightarrow> nat" where
  "alloc_fd t n = (if bt_get t n \<noteq> None then alloc_fd t (n + 1) else n)"
  by pat_completeness auto
termination
proof (relation "measure (\<lambda>(t, n). card (dom (bt_get t) \<inter> {n..}))")
  fix t :: ProcFdTable and n
  assume "bt_get t n \<noteq> None"
  then have "n \<in> dom (bt_get t) \<inter> {n..}" "n \<notin> dom (bt_get t) \<inter> {n + 1..}" by auto
  moreover have "dom (bt_get t) \<inter> {n + 1..} \<subseteq> dom (bt_get t) \<inter> {n..}" by auto
  ultimately have "dom (bt_get t) \<inter> {n + 1..} \<subset> dom (bt_get t) \<inter> {n..}" by blast
  then show "((t, n + 1), t, n) \<in> measure (\<lambda>(t, n). card (dom (bt_get t) \<inter> {n..}))"
    using psubset_card_mono [of "dom (bt_get t) \<inter> {n..}" "dom (bt_get t) \<inter> {n + 1..}"] finite_dom_bt_get [of t]
    by auto
qed simp

declare alloc_fd.simps [simp del]

definition set_table :: "nat \<Rightarrow> ProcFdTable \<Rightarrow> 'o fd_world \<Rightarrow> 'o fd_world" where
  "set_table p t w = w\<lparr>fw_tables := (fw_tables w)(p \<mapsto> t)\<rparr>"

definition table_or_new :: "nat \<Rightarrow> 'o fd_world \<Rightarrow> ProcFdTable" where
  "table_or_new p w = (case fw_tables w p of Some t \<Rightarrow> t | None \<Rightarrow> [])"

definition std_entry :: "nat \<Rightarrow> u32 \<Rightarrow> FdEntry" where
  "std_entry bfd fl = \<lparr>fe_backing_fd = bfd, fe_path = None, fe_cloexec = False, fe_nonblock = False, fe_fl_flags = fl\<rparr>"

definition proc_fd_alloc :: "nat \<Rightarrow> nat \<Rightarrow> nat \<Rightarrow> nat \<Rightarrow> 'o fd_world \<Rightarrow> 'o fd_world" where
  "proc_fd_alloc p stdin_bfd stdout_bfd stderr_bfd w =
     set_table p (bt_insert 2 (std_entry stderr_bfd 1) (bt_insert 1 (std_entry stdout_bfd 1)
       (bt_insert 0 (std_entry stdin_bfd 0) []))) w"

text \<open>The entries of the parent in key order; the standard descriptors are shared without duplication.\<close>

fun fork_entries :: "'o other_ops \<Rightarrow> ProcFdTable \<Rightarrow> 'o fd_world \<Rightarrow> ProcFdTable \<times> 'o fd_world" where
  "fork_entries oo [] w = ([], w)"
| "fork_entries oo ((fd, e) # es) w =
     (let (bfd, w1) = (if fd \<le> 2 then (fe_backing_fd e, w) else dup_backing oo (fe_backing_fd e) w);
          (t, w2) = fork_entries oo es w1
      in (bt_insert fd (e\<lparr>fe_backing_fd := bfd\<rparr>) t, w2))"

definition proc_fd_fork :: "'o other_ops \<Rightarrow> nat \<Rightarrow> nat \<Rightarrow> 'o fd_world \<Rightarrow> 'o fd_world" where
  "proc_fd_fork oo parent child w =
     (case fw_tables w parent of
        None \<Rightarrow> w
      | Some t \<Rightarrow> let (t', w1) = fork_entries oo t w in set_table child t' w1)"

fun close_entries :: "'o other_ops \<Rightarrow> nat \<Rightarrow> (nat \<times> nat) list \<Rightarrow> 'o fd_world \<Rightarrow> 'o fd_world" where
  "close_entries oo p [] w = w"
| "close_entries oo p ((fd, bfd) # fds) w =
     (let w1 = close_backing oo bfd w;
          w2 = (case fw_tables w1 p of Some t \<Rightarrow> set_table p (bt_remove fd t) w1 | None \<Rightarrow> w1)
      in close_entries oo p fds w2)"

definition proc_fd_close_on_exec :: "'o other_ops \<Rightarrow> nat \<Rightarrow> 'o fd_world \<Rightarrow> 'o fd_world" where
  "proc_fd_close_on_exec oo p w =
     (case fw_tables w p of
        None \<Rightarrow> w
      | Some t \<Rightarrow> close_entries oo p (map (\<lambda>(fd, e). (fd, fe_backing_fd e)) (filter (\<lambda>(fd, e). fe_cloexec e) t)) w)"

definition proc_fd_free :: "'o other_ops \<Rightarrow> nat \<Rightarrow> 'o fd_world \<Rightarrow> 'o fd_world" where
  "proc_fd_free oo p w =
     (case fw_tables w p of
        None \<Rightarrow> w
      | Some t \<Rightarrow> fold (\<lambda>(fd, e). close_backing oo (fe_backing_fd e)) t (w\<lparr>fw_tables := (fw_tables w)(p := None)\<rparr>))"

definition proc_fd_get :: "nat \<Rightarrow> nat \<Rightarrow> 'o fd_world \<Rightarrow> FdEntry option" where
  "proc_fd_get p fd w = (case fw_tables w p of None \<Rightarrow> None | Some t \<Rightarrow> bt_get t fd)"

definition proc_fd_backing :: "nat \<Rightarrow> nat \<Rightarrow> 'o fd_world \<Rightarrow> int" where
  "proc_fd_backing p fd w = (case proc_fd_get p fd w of Some e \<Rightarrow> int (fe_backing_fd e) | None \<Rightarrow> - 9)"

definition proc_fd_close :: "'o other_ops \<Rightarrow> nat \<Rightarrow> nat \<Rightarrow> 'o fd_world \<Rightarrow> int \<times> 'o fd_world" where
  "proc_fd_close oo p fd w =
     (case fw_tables w p of
        None \<Rightarrow> (- 9, w)
      | Some t \<Rightarrow>
          (case bt_get t fd of
             None \<Rightarrow> (- 9, w)
           | Some e \<Rightarrow>
               let w1 = set_table p (bt_remove fd t) w;
                   w2 = (if fd > 2 then close_backing oo (fe_backing_fd e) w1 else w1)
               in (0, w2\<lparr>fw_other := oo_close_fd_meta oo (fe_backing_fd e) (fw_other w2)\<rparr>)))"

definition proc_fd_dup2 :: "'o other_ops \<Rightarrow> nat \<Rightarrow> nat \<Rightarrow> nat \<Rightarrow> 'o fd_world \<Rightarrow> int \<times> 'o fd_world" where
  "proc_fd_dup2 oo p old_fd new_fd w =
     (if old_fd = new_fd then (int old_fd, w)
      else case proc_fd_get p old_fd w of
        None \<Rightarrow> (- 9, w)
      | Some e \<Rightarrow>
          let (bfd, w1) = dup_backing oo (fe_backing_fd e) w;
              w2 = snd (proc_fd_close oo p new_fd w1);
              e' = e\<lparr>fe_backing_fd := bfd, fe_cloexec := False\<rparr>
          in (int new_fd, set_table p (bt_insert new_fd e' (table_or_new p w2)) w2))"

definition update_entry :: "nat \<Rightarrow> nat \<Rightarrow> (FdEntry \<Rightarrow> FdEntry) \<Rightarrow> 'o fd_world \<Rightarrow> 'o fd_world" where
  "update_entry p fd f w = (case fw_tables w p of None \<Rightarrow> w | Some t \<Rightarrow> set_table p (bt_modify fd f t) w)"

definition proc_fd_set_cloexec :: "nat \<Rightarrow> nat \<Rightarrow> bool \<Rightarrow> 'o fd_world \<Rightarrow> 'o fd_world" where
  "proc_fd_set_cloexec p fd val = update_entry p fd (\<lambda>e. e\<lparr>fe_cloexec := val\<rparr>)"

definition proc_fd_set_nonblock :: "nat \<Rightarrow> nat \<Rightarrow> bool \<Rightarrow> 'o fd_world \<Rightarrow> 'o fd_world" where
  "proc_fd_set_nonblock p fd val = update_entry p fd (\<lambda>e. e\<lparr>fe_nonblock := val\<rparr>)"

definition proc_fd_getfl :: "nat \<Rightarrow> nat \<Rightarrow> 'o fd_world \<Rightarrow> u32" where
  "proc_fd_getfl p fd w = (case proc_fd_get p fd w of Some e \<Rightarrow> fe_fl_flags e | None \<Rightarrow> 2)"

definition proc_fd_setfl :: "nat \<Rightarrow> nat \<Rightarrow> u32 \<Rightarrow> 'o fd_world \<Rightarrow> 'o fd_world" where
  "proc_fd_setfl p fd flags =
     update_entry p fd (\<lambda>e. e\<lparr>fe_fl_flags := flags, fe_nonblock := (flags AND 0x800 \<noteq> 0)\<rparr>)"

definition proc_fd_path :: "nat \<Rightarrow> nat \<Rightarrow> 'o fd_world \<Rightarrow> string option" where
  "proc_fd_path p fd w = (case proc_fd_get p fd w of Some e \<Rightarrow> fe_path e | None \<Rightarrow> None)"

definition proc_fd_list :: "nat \<Rightarrow> 'o fd_world \<Rightarrow> nat list" where
  "proc_fd_list p w = (case fw_tables w p of Some t \<Rightarrow> map fst t | None \<Rightarrow> [])"

definition proc_fd_install ::
  "nat \<Rightarrow> nat \<Rightarrow> string option \<Rightarrow> u32 \<Rightarrow> nat option \<Rightarrow> 'o fd_world \<Rightarrow> nat \<times> 'o fd_world" where
  "proc_fd_install p bfd path flags preferred w =
     (let e = FdEntry_new bfd path flags;
          t = table_or_new p w;
          fd = (case preferred of Some n \<Rightarrow> n | None \<Rightarrow> alloc_fd t 3)
      in (fd, set_table p (bt_insert fd e t) w))"

subsection \<open>Reading and writing through a descriptor\<close>

text \<open>
  \<open>PipeScheme::read\<close> and \<open>write\<close> followed by the translation of the error in \<open>scheme_fd_read\<close>
  and \<open>scheme_fd_write\<close>, for the results that are not cancelled waits.
\<close>

definition pipe_scheme_error :: "int \<Rightarrow> SchemeError" where
  "pipe_scheme_error n = (if n = - 4 then Interrupted else Io)"

definition pipe_scheme_write_error :: "int \<Rightarrow> SchemeError" where
  "pipe_scheme_write_error n = (if n = - 4 then Interrupted else if n = - 32 then Other else Io)"

definition scheme_read_result :: "rd_outcome \<Rightarrow> rd_outcome option" where
  "scheme_read_result r =
     (case r of
        RDone n bytes \<Rightarrow>
          if n \<ge> 0 then Some (RDone n bytes)
          else map_option (\<lambda>e. RDone e bytes) (scheme_error_to_errno (pipe_scheme_error n))
      | RWait \<Rightarrow> Some RWait)"

text \<open>
  The choice that \<open>sys_read\<close> makes for a backing descriptor; \<open>None\<close> is a subsystem outside
  the model, or an error number that does not exist.
\<close>

definition read_backing :: "'o other_ops \<Rightarrow> nat \<Rightarrow> nat \<Rightarrow> 'o fd_world \<Rightarrow> rd_outcome option" where
  "read_backing oo bfd n w =
     (if oo_early oo bfd (fw_other w) then None
      else if is_pipe bfd (fw_pipes w) then Some (fst (pipe_read bfd n (fw_pipes w)))
      else if oo_socket oo bfd (fw_other w) then None
      else case ss_map (fw_schemes w) bfd of
             Some (PipeScheme ring_bfd, fid) \<Rightarrow>
               scheme_read_result (fst (pipe_read (bfd_from_fid ring_bfd fid) n (fw_pipes w)))
           | _ \<Rightarrow> None)"

subsection \<open>Creating a pipe\<close>

definition pipe_fd_bytes :: "nat \<Rightarrow> nat \<Rightarrow> u8 list" where
  "pipe_fd_bytes read_fd write_fd = le_bytes 4 (of_nat read_fd :: u32) @ le_bytes 4 (of_nat write_fd :: u32)"

definition sys_pipe2 ::
  "'o other_ops \<Rightarrow> nat \<Rightarrow> proc_table \<Rightarrow> nat \<Rightarrow> u32 \<Rightarrow> umem \<times> 'o fd_world \<Rightarrow> int \<times> umem \<times> 'o fd_world" where
  "sys_pipe2 oo cur pt pipefd_va flags = (\<lambda>(um, w).
     if flags AND NOT (O_CLOEXEC_FLAG OR O_NONBLOCK OR 0x4000) \<noteq> 0 then (- 22, um, w)
     else if \<not> validate_user_ptr pipefd_va 8 then (- 14, um, w)
     else let nonblocking = (flags AND O_NONBLOCK \<noteq> 0);
              cloexec = (flags AND O_CLOEXEC_FLAG \<noteq> 0);
              ((read_bfd, write_bfd), ps) = pipe_create nonblocking (fw_pipes w);
              (srd, ss1) = alloc_scheme_backing_fd (fw_schemes w);
              (swr, ss2) = alloc_scheme_backing_fd ss1;
              ss3 = scheme_fd_register srd (PipeScheme read_bfd) 0 ss2;
              ss4 = scheme_fd_register swr (PipeScheme read_bfd) 1 ss3;
              w1 = w\<lparr>fw_pipes := ps, fw_schemes := ss4\<rparr>;
              soft = fst (getrlimit_for cur cur RLIMIT_NOFILE pt)
          in if of_nat (length (proc_fd_list cur w1) + 2) > soft
             then let w2 = w1\<lparr>fw_pipes := ps\<lparr>ps_table := (ps_table ps)(read_bfd := None, write_bfd := None)\<rparr>\<rparr>
                  in (- 24, um, scheme_fd_close oo swr (scheme_fd_close oo srd w2))
             else let rd_flags = (if cloexec then O_CLOEXEC_FLAG else 0);
                      wr_flags = 1 OR (if cloexec then O_CLOEXEC_FLAG else 0);
                      (read_fd, w2) = proc_fd_install cur srd None rd_flags None w1;
                      (write_fd, w3) = proc_fd_install cur swr None wr_flags None w2
                  in case copy_to_user um pipefd_va (pipe_fd_bytes read_fd write_fd) of
                       None \<Rightarrow> (- 14, um, snd (proc_fd_close oo cur write_fd (snd (proc_fd_close oo cur read_fd w3))))
                     | Some um' \<Rightarrow> (0, um', w3))"

definition sys_pipe ::
  "'o other_ops \<Rightarrow> nat \<Rightarrow> proc_table \<Rightarrow> nat \<Rightarrow> umem \<times> 'o fd_world \<Rightarrow> int \<times> umem \<times> 'o fd_world" where
  "sys_pipe oo cur pt pipefd_va = sys_pipe2 oo cur pt pipefd_va 0"

subsection \<open>Lemmas on the tables\<close>

lemma alloc_fd_lowest:
  "n \<le> alloc_fd t n \<and> bt_get t (alloc_fd t n) = None \<and> (\<forall>m. n \<le> m \<longrightarrow> m < alloc_fd t n \<longrightarrow> bt_get t m \<noteq> None)"
proof (induction t n rule: alloc_fd.induct)
  case (1 t n)
  show ?case
  proof (cases "bt_get t n")
    case None
    then have "alloc_fd t n = n" by (simp add: alloc_fd.simps)
    then show ?thesis using None by simp
  next
    case (Some e)
    then have eq: "alloc_fd t n = alloc_fd t (n + 1)" by (simp add: alloc_fd.simps [of t n])
    have "m = n \<or> n + 1 \<le> m" if "n \<le> m" for m using that by auto
    then show ?thesis unfolding eq using 1 Some by fastforce
  qed
qed

lemma fw_tables_close [simp]:
  "fw_tables (close_pipe_end bfd w) = fw_tables w"
  "fw_tables (scheme_fd_close oo bfd w) = fw_tables w"
  "fw_tables (close_backing oo bfd w) = fw_tables w"
proof -
  show pe: "fw_tables (close_pipe_end bfd w) = fw_tables w" for bfd and w :: "'o fd_world"
    by (simp add: close_pipe_end_def split: prod.split)
  show sc: "fw_tables (scheme_fd_close oo bfd w) = fw_tables w"
    by (simp add: scheme_fd_close_def pe Let_def split: option.split prod.split Scheme.split)
  show "fw_tables (close_backing oo bfd w) = fw_tables w"
    by (simp add: close_backing_def pe sc)
qed

lemma fw_tables_dup [simp]: "fw_tables (snd (dup_backing oo bfd w)) = fw_tables w"
  by (simp add: dup_backing_def split: prod.split)

lemma fw_tables_set [simp]: "fw_tables (set_table p t w) = (fw_tables w)(p \<mapsto> t)"
  by (simp add: set_table_def)

lemma close_entries_get:
  "fw_tables w p = Some t \<Longrightarrow>
   \<exists>t'. fw_tables (close_entries oo p fds w) p = Some t' \<and>
     (\<forall>fd. bt_get t' fd = (if fd \<in> fst ` set fds then None else bt_get t fd))"
proof (induction oo p fds w arbitrary: t rule: close_entries.induct)
  case (2 oo p fd bfd fds w)
  let ?w1 = "close_backing oo bfd w"
  have w1: "fw_tables ?w1 p = Some t" using 2(2) by simp
  have "fw_tables (set_table p (bt_remove fd t) ?w1) p = Some (bt_remove fd t)" by simp
  from "2.IH" [OF refl _ this] w1 obtain t' where
    t': "fw_tables (close_entries oo p fds (set_table p (bt_remove fd t) ?w1)) p = Some t'"
      "\<forall>f. bt_get t' f = (if f \<in> fst ` set fds then None else bt_get (bt_remove fd t) f)" by auto
  then show ?case using w1 by (auto simp: btree_simps)
qed simp

text \<open>What survives an exec: exactly the entries without the close-on-exec flag.\<close>

definition exec_keeps :: "FdEntry option \<Rightarrow> FdEntry option" where
  "exec_keeps e = (case e of Some e \<Rightarrow> if fe_cloexec e then None else Some e | None \<Rightarrow> None)"

lemma close_on_exec_get:
  assumes "fw_tables w p = Some t" "bt_wf t"
  shows "proc_fd_get p fd (proc_fd_close_on_exec oo p w) = exec_keeps (bt_get t fd)"
proof -
  let ?fds = "map (\<lambda>(fd, e). (fd, fe_backing_fd e)) (filter (\<lambda>(fd, e). fe_cloexec e) t)"
  have d: "distinct (map fst t)" by (rule bt_wf_distinct [OF assms(2)])
  have mem: "fd \<in> fst ` set ?fds \<longleftrightarrow> (\<exists>e. bt_get t fd = Some e \<and> fe_cloexec e)"
    using d by (force simp: image_iff)
  obtain t' where t': "fw_tables (close_entries oo p ?fds w) p = Some t'"
      "bt_get t' fd = (if fd \<in> fst ` set ?fds then None else bt_get t fd)"
    using close_entries_get [OF assms(1), of oo ?fds] by blast
  have "proc_fd_get p fd (proc_fd_close_on_exec oo p w) = bt_get t' fd"
    using t'(1) assms(1) by (simp add: proc_fd_get_def proc_fd_close_on_exec_def)
  also have "\<dots> = exec_keeps (bt_get t fd)" unfolding t'(2) mem by (cases "bt_get t fd") (simp_all add: exec_keeps_def)
  finally show ?thesis .
qed

lemma fork_entries_get:
  assumes "fork_entries oo es w = (t, w')"
  shows "(\<forall>fd. map_option (fe_backing_fd_update (\<lambda>_. 0)) (bt_get t fd)
      = map_option (fe_backing_fd_update (\<lambda>_. 0)) (bt_get es fd)) \<and> bt_wf t \<and> fw_tables w' = fw_tables w"
  using assms
proof (induction oo es w arbitrary: t w' rule: fork_entries.induct)
  case (1 oo w)
  then show ?case by (simp add: bt_wf_def)
next
  case (2 oo fd e es w)
  obtain bfd w1 where d: "(if fd \<le> 2 then (fe_backing_fd e, w) else dup_backing oo (fe_backing_fd e) w) = (bfd, w1)"
    by (metis surj_pair)
  obtain t1 w2 where f: "fork_entries oo es w1 = (t1, w2)" by (metis surj_pair)
  have tw: "fw_tables w1 = fw_tables w" using d by (metis fw_tables_dup prod.inject snd_conv)
  have "t = bt_insert fd (e\<lparr>fe_backing_fd := bfd\<rparr>) t1" "w' = w2" using 2(2) d f by simp_all
  then show ?case using "2.IH" [OF d [symmetric] refl f] tw by (auto simp: btree_simps bt_wf_insert)
qed

subsection \<open>Properties\<close>

text \<open>
  C19. Across fork and exec, the child of a process holds exactly the descriptors of its parent
  that are not marked close-on-exec, under the same numbers and with the same path and
  flags; the parent's table does not change.
\<close>

theorem fork_exec_descriptors:
  assumes "fw_tables w parent = Some t" "child \<noteq> parent"
    and "w' = proc_fd_close_on_exec oo child (proc_fd_fork oo parent child w)"
  shows "map_option (\<lambda>e. (fe_path e, fe_nonblock e, fe_fl_flags e)) (proc_fd_get child fd w') =
      map_option (\<lambda>e. (fe_path e, fe_nonblock e, fe_fl_flags e)) (exec_keeps (proc_fd_get parent fd w)) \<and>
    proc_fd_get parent fd (proc_fd_fork oo parent child w) = proc_fd_get parent fd w"
proof -
  obtain t1 w1 where f: "fork_entries oo t w = (t1, w1)" by (metis surj_pair)
  note g = fork_entries_get [OF f]
  have fork: "proc_fd_fork oo parent child w = set_table child t1 w1" using assms(1) f by (simp add: proc_fd_fork_def)
  have "proc_fd_get child fd w' = exec_keeps (bt_get t1 fd)"
    unfolding assms(3) fork by (rule close_on_exec_get) (use g in simp_all)
  moreover have "map_option (fe_backing_fd_update (\<lambda>_. 0)) (bt_get t1 fd) =
      map_option (fe_backing_fd_update (\<lambda>_. 0)) (bt_get t fd)" using g by blast
  then have "map_option (\<lambda>e. (fe_path e, fe_nonblock e, fe_fl_flags e)) (exec_keeps (bt_get t1 fd)) =
      map_option (\<lambda>e. (fe_path e, fe_nonblock e, fe_fl_flags e)) (exec_keeps (bt_get t fd))"
    by (cases "bt_get t1 fd"; cases "bt_get t fd")
      (auto simp: exec_keeps_def dest: arg_cong [where f = fe_cloexec] arg_cong [where f = fe_path]
        arg_cong [where f = fe_nonblock] arg_cong [where f = fe_fl_flags])
  ultimately show ?thesis
    using assms(1,2) g fork by (simp add: proc_fd_get_def)
qed

definition no_other :: "unit other_ops" where
  "no_other = \<lparr>oo_early = (\<lambda>_ _. False), oo_socket = (\<lambda>_ _. False), oo_close = (\<lambda>_ u. u), oo_dup = (\<lambda>b u. (b, u)),
     oo_close_scheme = (\<lambda>_ _ u. u), oo_close_fd_meta = (\<lambda>_ u. u)\<rparr>"

definition demo_world :: "unit fd_world" where
  "demo_world = \<lparr>fw_tables = [1 \<mapsto> [(3, FdEntry_new 40 None 0), (5, FdEntry_new 41 None 0x80000)]],
     fw_pipes = demo_pipe (demo_inner False), fw_schemes = scheme_store_init, fw_woken = [], fw_other = ()\<rparr>"

theorem fork_exec_descriptors_witness:
  "proc_fd_get 2 5 (proc_fd_close_on_exec no_other 2 (proc_fd_fork no_other 1 2 demo_world)) = None \<and>
   proc_fd_get 2 3 (proc_fd_close_on_exec no_other 2 (proc_fd_fork no_other 1 2 demo_world)) \<noteq> None"
proof -
  have t: "fw_tables demo_world 1 = Some [(3, FdEntry_new 40 None 0), (5, FdEntry_new 41 None 0x80000)]"
    by (simp add: demo_world_def)
  have "exec_keeps (proc_fd_get 1 5 demo_world) = None" "exec_keeps (proc_fd_get 1 3 demo_world) \<noteq> None"
    by (simp_all add: exec_keeps_def proc_fd_get_def demo_world_def FdEntry_new_def O_CLOEXEC_FLAG_def Let_def)
  then show ?thesis
    using fork_exec_descriptors [OF t, of 2 _ no_other 5] fork_exec_descriptors [OF t, of 2 _ no_other 3] by auto
qed

subsection \<open>A new pipe\<close>

lemma table_or_new_set [simp]: "table_or_new p (set_table p t w) = t"
  by (simp add: table_or_new_def)

lemma proc_fd_get_table: "proc_fd_get p fd w = bt_get (table_or_new p w) fd"
  by (simp add: proc_fd_get_def table_or_new_def split: option.split)

lemma proc_fd_install_get:
  assumes "proc_fd_install p bfd path flags None w = (fd, w')"
  shows "3 \<le> fd" "proc_fd_get p fd w = None" "\<forall>m. 3 \<le> m \<longrightarrow> m < fd \<longrightarrow> proc_fd_get p m w \<noteq> None"
    "proc_fd_get p q w' = (if q = fd then Some (FdEntry_new bfd path flags) else proc_fd_get p q w)"
    "fw_pipes w' = fw_pipes w" "fw_schemes w' = fw_schemes w" "fw_other w' = fw_other w"
  using assms alloc_fd_lowest [of 3 "table_or_new p w"]
  by (auto simp: proc_fd_install_def proc_fd_get_table btree_simps set_table_def table_or_new_def Let_def)

text \<open>The steps of a successful \<open>sys_pipe2\<close>.\<close>

lemma sys_pipe2_success:
  assumes "sys_pipe2 oo cur pt va flags (um, w) = (0, um', w')"
  obtains r x ps srd ss1 swr ss2 rfd w2 wfd where
    "pipe_create (flags AND O_NONBLOCK \<noteq> 0) (fw_pipes w) = ((r, x), ps)"
    "alloc_scheme_backing_fd (fw_schemes w) = (srd, ss1)" "alloc_scheme_backing_fd ss1 = (swr, ss2)"
    "proc_fd_install cur srd None (if flags AND O_CLOEXEC_FLAG \<noteq> 0 then O_CLOEXEC_FLAG else 0) None
       (w\<lparr>fw_pipes := ps, fw_schemes := scheme_fd_register swr (PipeScheme r) 1 (scheme_fd_register srd (PipeScheme r) 0 ss2)\<rparr>)
       = (rfd, w2)"
    "proc_fd_install cur swr None (1 OR (if flags AND O_CLOEXEC_FLAG \<noteq> 0 then O_CLOEXEC_FLAG else 0)) None w2 = (wfd, w')"
    "copy_to_user um va (pipe_fd_bytes rfd wfd) = Some um'"
  using assms by (auto simp: sys_pipe2_def Let_def split: if_splits prod.splits option.splits)

lemma length_pipe_fd_bytes [simp]: "length (pipe_fd_bytes r x) = 8"
  by (simp add: pipe_fd_bytes_def le_bytes_def)

text \<open>
  A successful \<open>pipe2\<close> gives the caller the two lowest free descriptor numbers from 3 on,
  the smaller one for reading, stores both in user memory, marks them close-on-exec exactly
  when that was asked for, and changes no other descriptor.
\<close>

theorem pipe2_installs_lowest:
  assumes "sys_pipe2 oo cur pt va flags (um, w) = (0, um', w')"
  shows "\<exists>r x. copy_from_user um' va 8 = Some (pipe_fd_bytes r x) \<and> 3 \<le> r \<and> r < x \<and>
    proc_fd_get cur r w = None \<and> proc_fd_get cur x w = None \<and>
    (\<forall>m. 3 \<le> m \<longrightarrow> m < x \<longrightarrow> m \<noteq> r \<longrightarrow> proc_fd_get cur m w \<noteq> None) \<and>
    map_option fe_cloexec (proc_fd_get cur r w') = Some (flags AND O_CLOEXEC_FLAG \<noteq> 0) \<and>
    map_option fe_cloexec (proc_fd_get cur x w') = Some (flags AND O_CLOEXEC_FLAG \<noteq> 0) \<and>
    (\<forall>m. m \<noteq> r \<longrightarrow> m \<noteq> x \<longrightarrow> proc_fd_get cur m w' = proc_fd_get cur m w)"
  using assms
proof (rule sys_pipe2_success)
  fix r x ps srd ss1 swr ss2 rfd w2 wfd
  let ?w1 = "w\<lparr>fw_pipes := ps, fw_schemes := scheme_fd_register swr (PipeScheme r) 1 (scheme_fd_register srd (PipeScheme r) 0 ss2)\<rparr>"
  assume i1: "proc_fd_install cur srd None (if flags AND O_CLOEXEC_FLAG \<noteq> 0 then O_CLOEXEC_FLAG else 0) None ?w1 = (rfd, w2)"
    and i2: "proc_fd_install cur swr None (1 OR (if flags AND O_CLOEXEC_FLAG \<noteq> 0 then O_CLOEXEC_FLAG else 0)) None w2 = (wfd, w')"
    and c: "copy_to_user um va (pipe_fd_bytes rfd wfd) = Some um'"
  have g: "proc_fd_get cur m ?w1 = proc_fd_get cur m w" for m by (simp add: proc_fd_get_def)
  note a = proc_fd_install_get [OF i1, unfolded g] and b = proc_fd_install_get [OF i2]
  have ne: "wfd \<noteq> rfd" using b(2) a(4) by auto
  have lt: "rfd < wfd"
  proof (rule ccontr)
    assume "\<not> rfd < wfd"
    then have "proc_fd_get cur wfd w \<noteq> None" using a(3) b(1) ne by auto
    then show False using b(2) a(4) ne by simp
  qed
  have free: "proc_fd_get cur wfd w = None" using b(2) a(4) ne by simp
  have used: "\<forall>m. 3 \<le> m \<longrightarrow> m < wfd \<longrightarrow> m \<noteq> rfd \<longrightarrow> proc_fd_get cur m w \<noteq> None" using b(3) a(4) by metis
  have other: "\<forall>m. m \<noteq> rfd \<longrightarrow> m \<noteq> wfd \<longrightarrow> proc_fd_get cur m w' = proc_fd_get cur m w" using b(4) a(4) by simp
  have ce: "map_option fe_cloexec (proc_fd_get cur rfd w') = Some (flags AND O_CLOEXEC_FLAG \<noteq> 0)"
    "map_option fe_cloexec (proc_fd_get cur wfd w') = Some (flags AND O_CLOEXEC_FLAG \<noteq> 0)"
    using b(4) a(4) ne by (simp_all add: FdEntry_new_def O_CLOEXEC_FLAG_def Let_def)
  have "copy_from_user um' va 8 = Some (pipe_fd_bytes rfd wfd)" using copy_to_from_user [OF c] by simp
  then show ?thesis using a(1,2) lt free used other ce by blast
qed

definition pipe2_demo :: "u32 \<Rightarrow> nat \<Rightarrow> int \<times> umem \<times> unit fd_world" where
  "pipe2_demo flags extra = sys_pipe2 no_other 1 [] 0x1000 flags
     (\<lambda>_. Some 0, demo_world\<lparr>fw_pipes := (demo_pipe (demo_inner False))\<lparr>ps_next := 0\<rparr>,
        fw_schemes := scheme_store_init\<lparr>ss_counter := 0x80000000 + extra\<rparr>\<rparr>)"

lemma pipe2_demo_ok: "fst (pipe2_demo 0x80000 extra) = 0"
proof -
  have u: "validate_user_ptr 0x1000 8"
    by (simp add: validate_user_ptr_def user_access_ok_def usize_max_def USER_ADDR_MAX_def)
  have l: "\<not> RLIM_INFINITY < x" for x by (simp add: RLIM_INFINITY_def)
  have c: "copy_to_user (\<lambda>_. Some 0) 0x1000 (pipe_fd_bytes a b) = None \<longleftrightarrow> False" for a b
  proof -
    have "pipe_fd_bytes a b \<noteq> []" using length_pipe_fd_bytes [of a b] by (metis list.size(3) zero_neq_numeral)
    then show ?thesis by (simp add: copy_to_user_def user_access_ok_def usize_max_def USER_ADDR_MAX_def list_all_iff)
  qed
  have r: "getrlimit_for cur p res [] = (RLIM_INFINITY, RLIM_INFINITY)" for cur p res
    by (simp add: getrlimit_for_def with_proc_def find_proc_lock_def)
  show ?thesis
    using u l
    by (simp add: pipe2_demo_def sys_pipe2_def r c O_CLOEXEC_FLAG_def O_NONBLOCK_def Let_def split: prod.split option.split)
qed

theorem pipe2_installs_lowest_witness:
  "\<exists>um' w'. pipe2_demo 0x80000 0 = (0, um', w') \<and> map_option fe_cloexec (proc_fd_get 1 4 w') = Some True"
proof -
  obtain um' w' where d: "pipe2_demo 0x80000 0 = (0, um', w')" using pipe2_demo_ok [of 0] by (metis prod_cases3 fst_conv)
  from pipe2_installs_lowest [OF d [unfolded pipe2_demo_def]] obtain r x where
    rx: "3 \<le> r" "r < x" "proc_fd_get 1 r demo_world = None"
      "\<forall>m. 3 \<le> m \<longrightarrow> m < x \<longrightarrow> m \<noteq> r \<longrightarrow> proc_fd_get 1 m demo_world \<noteq> None"
      "map_option fe_cloexec (proc_fd_get 1 r w') = Some True"
    by (auto simp: proc_fd_get_def O_CLOEXEC_FLAG_def)
  have dw: "proc_fd_get 1 3 demo_world \<noteq> None" "proc_fd_get 1 4 demo_world = None"
    by (simp_all add: proc_fd_get_def demo_world_def)
  have "r \<noteq> 3" using rx(3) dw(1) by auto
  moreover have "\<not> (4 < x \<and> 4 \<noteq> r)" using rx(4) [rule_format, of 4] dw(2) by auto
  ultimately have "r = 4" using rx(1,2) by linarith
  then show ?thesis using d rx(5) by auto
qed

lemma alloc_scheme_fresh:
  assumes "ss_free ss = []" "alloc_scheme_backing_fd ss = (fd, ss1)"
  shows "fd = ss_counter ss" "ss_free ss1 = []" "ss_counter ss1 = wadd (ss_counter ss) 1"
  using assms by (auto simp: alloc_scheme_backing_fd_def)

lemma pipe_create_fds:
  assumes "pipe_create nb s = ((r, x), s1)" "ps_next s < 2 ^ 63"
  shows "r = PIPE_FD_BASE + ps_next s" "x = PIPE_FD_BASE + ps_next s + 1"
  using assms by (auto simp: pipe_create_def alloc_pipe_fds_def wadd_def PIPE_FD_BASE_def Let_def)

text \<open>
  The numbers of scheme descriptors and of pipe ends overlap, and reads ask the pipes
  first: right after \<open>pipe2\<close>, when as many scheme descriptors as pipe ends were handed out
  before, a read of the new read descriptor finds the empty pipe (it waits, or fails with
  \<open>EAGAIN\<close>); when one more scheme descriptor was, the read is sent to the write end of the
  pipe and fails with \<open>EBADF\<close>.
\<close>

theorem pipe2_read_routing:
  assumes "sys_pipe2 oo cur pt va flags (um, w) = (0, um', w')"
    and "even (ps_next (fw_pipes w))" "ps_next (fw_pipes w) < 2 ^ 63" "ss_free (fw_schemes w) = []"
    and "ss_counter (fw_schemes w) = PIPE_FD_BASE + ps_next (fw_pipes w) + d" "d \<le> 1"
    and "\<forall>b. \<not> oo_early oo b (fw_other w)" "0 < n"
  shows "\<exists>r x b. copy_from_user um' va 8 = Some (pipe_fd_bytes r x) \<and> proc_fd_backing cur r w' = int b \<and>
    read_backing oo b n w' =
      Some (if d = 0 then (if flags AND O_NONBLOCK \<noteq> 0 then RDone EAGAIN [] else RWait) else RDone EBADF [])"
  using assms(1)
proof (rule sys_pipe2_success)
  fix r x ps srd ss1 swr ss2 rfd w2 wfd
  let ?nb = "flags AND O_NONBLOCK \<noteq> 0"
  let ?w1 = "w\<lparr>fw_pipes := ps, fw_schemes := scheme_fd_register swr (PipeScheme r) 1 (scheme_fd_register srd (PipeScheme r) 0 ss2)\<rparr>"
  assume p: "pipe_create ?nb (fw_pipes w) = ((r, x), ps)"
    and s1: "alloc_scheme_backing_fd (fw_schemes w) = (srd, ss1)"
    and i1: "proc_fd_install cur srd None (if flags AND O_CLOEXEC_FLAG \<noteq> 0 then O_CLOEXEC_FLAG else 0) None ?w1 = (rfd, w2)"
    and i2: "proc_fd_install cur swr None (1 OR (if flags AND O_CLOEXEC_FLAG \<noteq> 0 then O_CLOEXEC_FLAG else 0)) None w2 = (wfd, w')"
    and c: "copy_to_user um va (pipe_fd_bytes rfd wfd) = Some um'"
  note f = pipe_create_fds [OF p assms(3)] and e = pipe_create_ends [OF p assms(2,3)] and q = pipe_create_simps [OF p]
  note a = proc_fd_install_get [OF i1] and b = proc_fd_install_get [OF i2]
  have srd: "srd = r + d" using alloc_scheme_fresh(1) [OF assms(4) s1] assms(5) f by simp
  have ps: "fw_pipes w' = ps" "fw_other w' = fw_other w" using a(5,7) b(5,7) by simp_all
  have "wfd \<noteq> rfd" using a(4) b(2) by auto
  then have "proc_fd_backing cur rfd w' = int srd"
    using a(4) b(4) by (simp add: proc_fd_backing_def FdEntry_new_def Let_def)
  moreover have "read_backing oo srd n w' =
      Some (if d = 0 then (if ?nb then RDone EAGAIN [] else RWait) else RDone EBADF [])"
  proof (cases "d = 0")
    case True
    then show ?thesis
      using srd ps q e assms(7,8)
      by (auto simp: read_backing_def is_pipe_def pipe_read_def read_region_def pipe_inner_new_def pb_is_empty_def Let_def)
  next
    case False
    then have "srd = x" using srd assms(6) e(1) by simp
    then show ?thesis using False ps q e assms(7,8) by (auto simp: read_backing_def is_pipe_def pipe_read_def)
  qed
  moreover have "copy_from_user um' va 8 = Some (pipe_fd_bytes rfd wfd)" using copy_to_from_user [OF c] by simp
  ultimately show ?thesis by blast
qed

theorem pipe2_read_routing_witness:
  "\<exists>um' w' r x b. pipe2_demo 0x80000 1 = (0, um', w') \<and> copy_from_user um' 0x1000 8 = Some (pipe_fd_bytes r x) \<and>
     proc_fd_backing 1 r w' = int b \<and> read_backing no_other b 10 w' = Some (RDone EBADF [])"
proof -
  obtain um' w' where d: "pipe2_demo 0x80000 1 = (0, um', w')" using pipe2_demo_ok [of 1] by (metis prod_cases3 fst_conv)
  have "\<exists>r x b. copy_from_user um' 0x1000 8 = Some (pipe_fd_bytes r x) \<and> proc_fd_backing 1 r w' = int b \<and>
      read_backing no_other b 10 w' = Some (if (1::nat) = 0 then
        (if (0x80000::u32) AND O_NONBLOCK \<noteq> 0 then RDone EAGAIN [] else RWait) else RDone EBADF [])"
    by (rule pipe2_read_routing [OF d [unfolded pipe2_demo_def]])
      (simp_all add: demo_pipe_def scheme_store_init_def PIPE_FD_BASE_def no_other_def)
  then show ?thesis using d by auto
qed

end
