(* ===== verification/Io_Uring.thy ===== *)
theory Io_Uring
  imports Fifo Wait_Queue Uaccess Pmm_Safety
begin

unbundle bit_operations_syntax

section \<open>io_uring\<close>

text \<open>
  \<^verbatim>\<open>src/io_uring/ring.rs\<close> and \<^verbatim>\<open>src/io_uring/syscall.rs\<close>: the submission and completion rings,
  the table of rings, and the \<open>enter\<close> and \<open>register\<close> calls. The two pages of a ring are
  modelled as the typed objects the kernel sees in them: the header words and the arrays,
  which the layout lemma places without overlap inside a page. The user shares these pages,
  so nothing is assumed of the header words, unless a statement says so. Pages come from the
  physical memory manager. The executor of an operation is an argument (\<open>dispatch\<close>), as is the
  flag \<open>IORING_ENTER_GETEVENTS\<close>, which the sources use but do not declare. The completion queue
  of the ring in a slot is the wait queue of that number.
\<close>

type_synonym i32 = "32 word"

definition MAX_ENTRIES :: u32 where "MAX_ENTRIES = 4096"
definition MAX_RINGS :: nat where "MAX_RINGS = 1024"
definition SQE_SIZE :: nat where "SQE_SIZE = 64"
definition CQE_SIZE :: nat where "CQE_SIZE = 16"
definition RING_HDR_SIZE :: nat where "RING_HDR_SIZE = 64"
definition CQ_READY :: ReadyMask where "CQ_READY = 0x0001"
definition IORING_FEAT_NODROP :: u32 where "IORING_FEAT_NODROP = push_bit 1 1"
definition IORING_FEAT_SUBMIT_STABLE :: u32 where "IORING_FEAT_SUBMIT_STABLE = push_bit 2 1"
definition IORING_FEAT_RW_CUR_POS :: u32 where "IORING_FEAT_RW_CUR_POS = push_bit 3 1"
definition IORING_FEAT_FAST_POLL :: u32 where "IORING_FEAT_FAST_POLL = push_bit 5 1"

record IoUringSqe =
  sqe_opcode :: u8
  sqe_flags :: u8
  sqe_ioprio :: u16
  sqe_fd :: i32
  sqe_off_or_addr2 :: u64
  sqe_addr_or_splice_fd_in :: u64
  sqe_len :: u32
  sqe_op_flags :: u32
  sqe_user_data :: u64
  sqe_buf_index :: u16
  sqe_personality :: u16
  sqe_splice_fd_in :: i32
  sqe_pad :: "u64 \<times> u64"

definition sqe_default :: IoUringSqe where
  "sqe_default = \<lparr>sqe_opcode = 0, sqe_flags = 0, sqe_ioprio = 0, sqe_fd = 0, sqe_off_or_addr2 = 0,
     sqe_addr_or_splice_fd_in = 0, sqe_len = 0, sqe_op_flags = 0, sqe_user_data = 0, sqe_buf_index = 0,
     sqe_personality = 0, sqe_splice_fd_in = 0, sqe_pad = (0, 0)\<rparr>"

record IoUringCqe =
  cqe_user_data :: u64
  cqe_res :: i32
  cqe_flags :: u32

record IoUringRing =
  ir_pid :: u32
  ir_fd :: nat
  ir_entries :: u32
  ir_sq_pa :: nat
  ir_cq_pa :: nat
  ir_reg_bufs :: "(nat \<times> nat) list"
  ir_reg_fds :: "i32 list"
  ir_sq_head :: u32
  ir_sq_tail :: u32
  ir_sq_dropped :: u32
  ir_sq_array :: "u32 list"
  ir_sqes :: "IoUringSqe list"
  ir_cq_head :: u32
  ir_cq_tail :: u32
  ir_cq_overflow :: u32
  ir_cqes :: "IoUringCqe list"

subsection \<open>The rings\<close>

definition ring_mask :: "IoUringRing \<Rightarrow> u32" where
  "ring_mask r = ir_entries r - 1"

definition cq_available :: "IoUringRing \<Rightarrow> u32" where
  "cq_available r = ir_cq_tail r - ir_cq_head r"

definition push_sqe :: "IoUringSqe \<Rightarrow> IoUringRing \<Rightarrow> bool \<times> IoUringRing" where
  "push_sqe sqe r =
     (let tail = ir_sq_tail r; head = ir_sq_head r in
      if tail - head \<ge> ir_entries r then (False, r\<lparr>ir_sq_dropped := ir_sq_dropped r + 1\<rparr>)
      else let slot = unat (tail AND ring_mask r)
           in (True, r\<lparr>ir_sqes := (ir_sqes r)[slot := sqe], ir_sq_array := (ir_sq_array r)[slot := of_nat slot],
                       ir_sq_tail := tail + 1\<rparr>))"

fun drain_loop :: "nat \<Rightarrow> u32 \<Rightarrow> IoUringRing \<Rightarrow> IoUringSqe list \<times> IoUringRing" where
  "drain_loop 0 at r = ([], r)"
| "drain_loop (Suc n) at r =
     (let slot = unat (ir_sq_array r ! unat (at AND ring_mask r)) in
      if slot < unat (ir_entries r)
      then let (out, r') = drain_loop n (at + 1) r in (ir_sqes r ! slot # out, r')
      else let (out, r') = drain_loop n (at + 1) (r\<lparr>ir_sq_dropped := ir_sq_dropped r + 1\<rparr>)
           in (sqe_default\<lparr>sqe_opcode := 0\<rparr> # out, r'))"

definition drain_sq :: "IoUringRing \<Rightarrow> IoUringSqe list \<times> IoUringRing" where
  "drain_sq r =
     (let head = ir_sq_head r; tail = ir_sq_tail r; count = unat (tail - head) in
      if count = 0 then ([], r)
      else if count > unat (ir_entries r)
      then ([], r\<lparr>ir_sq_dropped := ir_sq_dropped r + 1, ir_sq_head := tail\<rparr>)
      else let (out, r') = drain_loop count head r in (out, r'\<lparr>ir_sq_head := tail\<rparr>))"

text \<open>\<open>post_cqe\<close> on the ring, and with the wake that follows.\<close>

definition post_ring :: "u64 \<Rightarrow> i32 \<Rightarrow> u32 \<Rightarrow> IoUringRing \<Rightarrow> bool \<times> IoUringRing" where
  "post_ring user_data res flags r =
     (let tail = ir_cq_tail r; head = ir_cq_head r in
      if tail - head \<ge> ir_entries r then (False, r\<lparr>ir_cq_overflow := ir_cq_overflow r + 1\<rparr>)
      else (True, r\<lparr>ir_cqes := (ir_cqes r)[unat (tail AND ring_mask r) :=
                      \<lparr>cqe_user_data = user_data, cqe_res = res, cqe_flags = flags\<rparr>],
                    ir_cq_tail := tail + 1\<rparr>))"

definition post_cqe ::
  "nat \<Rightarrow> u64 \<Rightarrow> i32 \<Rightarrow> u32 \<Rightarrow> IoUringRing \<times> wq_store \<Rightarrow> bool \<times> nat list \<times> IoUringRing \<times> wq_store" where
  "post_cqe cq_wq user_data res flags = (\<lambda>(r, st).
     let (ok, r') = post_ring user_data res flags r in
     if ok then let (woken, st') = wake cq_wq CQ_READY st in (True, woken, r', st') else (False, [], r', st))"

record IoUringParams =
  ip_sq_entries :: u32
  ip_cq_entries :: u32
  ip_features :: u32
  ip_sq_off :: "u32 list"
  ip_cq_off :: "u32 list"

text \<open>The offsets are those of head, tail, mask, entries, flags or overflow, and the rest in order.\<close>

definition build_params :: "IoUringRing \<Rightarrow> IoUringParams" where
  "build_params r = \<lparr>ip_sq_entries = ir_entries r, ip_cq_entries = ir_entries r,
     ip_features = IORING_FEAT_NODROP OR IORING_FEAT_SUBMIT_STABLE OR IORING_FEAT_RW_CUR_POS OR IORING_FEAT_FAST_POLL,
     ip_sq_off = [0, 4, 8, 12, 16, 20, of_nat RING_HDR_SIZE], ip_cq_off = [0, 4, 8, 12, 16, of_nat RING_HDR_SIZE]\<rparr>"

subsection \<open>The table of rings\<close>

record 'k uring_world =
  uw_rings :: "IoUringRing option list option"
  uw_pmm :: pmm
  uw_wq :: wq_store
  uw_other :: 'k

definition ring_table_new :: "IoUringRing option list" where
  "ring_table_new = replicate MAX_RINGS None"

definition uring_init :: "'k uring_world \<Rightarrow> 'k uring_world" where
  "uring_init w = w\<lparr>uw_rings := Some ring_table_new\<rparr>"

definition position :: "('a \<Rightarrow> bool) \<Rightarrow> 'a list \<Rightarrow> nat option" where
  "position P xs = (let n = length (takeWhile (\<lambda>x. \<not> P x) xs) in if n < length xs then Some n else None)"

definition next_power_of_two :: "u32 \<Rightarrow> u32" where
  "next_power_of_two n = of_nat (2 ^ length (takeWhile (\<lambda>k. 2 ^ k < unat n) [0..<32]))"

definition clamp :: "u32 \<Rightarrow> u32 \<Rightarrow> u32 \<Rightarrow> u32" where
  "clamp lo hi x = (if x < lo then lo else if x > hi then hi else x)"

definition new_ring :: "u32 \<Rightarrow> u32 \<Rightarrow> nat \<Rightarrow> nat \<Rightarrow> IoUringRing" where
  "new_ring p entries sq_pa cq_pa = \<lparr>ir_pid = p, ir_fd = 0, ir_entries = entries, ir_sq_pa = sq_pa, ir_cq_pa = cq_pa,
     ir_reg_bufs = [], ir_reg_fds = [], ir_sq_head = 0, ir_sq_tail = 0, ir_sq_dropped = 0,
     ir_sq_array = replicate (unat entries) 0, ir_sqes = replicate (unat entries) sqe_default,
     ir_cq_head = 0, ir_cq_tail = 0, ir_cq_overflow = 0,
     ir_cqes = replicate (unat entries) \<lparr>cqe_user_data = 0, cqe_res = 0, cqe_flags = 0\<rparr>\<rparr>"

definition drop_ring :: "platform \<Rightarrow> IoUringRing \<Rightarrow> pmm \<Rightarrow> pmm panicky" where
  "drop_ring E r s =
     Option.bind (if ir_sq_pa r \<noteq> 0 then free_page E (ir_sq_pa r) s else Some s)
       (\<lambda>s1. if ir_cq_pa r \<noteq> 0 then free_page E (ir_cq_pa r) s1 else Some s1)"

definition ring_entries_for :: "u32 \<Rightarrow> u32" where
  "ring_entries_for entries = clamp 1 MAX_ENTRIES (next_power_of_two entries)"

definition alloc_ring ::
  "platform \<Rightarrow> u32 \<Rightarrow> u32 \<Rightarrow> 'k uring_world \<Rightarrow> (nat result \<times> 'k uring_world) panicky" where
  "alloc_ring E p n w =
     (let entries = ring_entries_for n;
          sq_needed = RING_HDR_SIZE + unat entries * 4 + unat entries * SQE_SIZE;
          cq_needed = RING_HDR_SIZE + unat entries * CQE_SIZE
      in if sq_needed > PAGE_SIZE \<or> cq_needed > PAGE_SIZE then Some (Inl (- 22), w)
         else case alloc_page E (uw_pmm w) of
           (None, s1) \<Rightarrow> Some (Inl (- 12), w\<lparr>uw_pmm := s1\<rparr>)
         | (Some sq_pa, s1) \<Rightarrow>
             (case alloc_page E s1 of
                (None, s2) \<Rightarrow> map_option (\<lambda>s3. (Inl (- 12), w\<lparr>uw_pmm := s3\<rparr>)) (free_page E sq_pa s2)
              | (Some cq_pa, s2) \<Rightarrow>
                  let r = new_ring p entries sq_pa cq_pa in
                  (case uw_rings w of
                     None \<Rightarrow> map_option (\<lambda>s3. (Inl (- 5), w\<lparr>uw_pmm := s3\<rparr>)) (drop_ring E r s2)
                   | Some t \<Rightarrow>
                       (case position Option.is_none t of
                          None \<Rightarrow> map_option (\<lambda>s3. (Inl (- 24), w\<lparr>uw_pmm := s3\<rparr>)) (drop_ring E r s2)
                        | Some slot \<Rightarrow> Some (Inr slot, w\<lparr>uw_rings := Some (t[slot := Some r]), uw_pmm := s2,
                                                        uw_wq := (uw_wq w)(slot := wq_new)\<rparr>)))))"

definition free_ring :: "platform \<Rightarrow> nat \<Rightarrow> 'k uring_world \<Rightarrow> 'k uring_world panicky" where
  "free_ring E idx w =
     (case uw_rings w of
        None \<Rightarrow> Some w
      | Some t \<Rightarrow>
          if idx < length t
          then case t ! idx of
                 None \<Rightarrow> Some w
               | Some r \<Rightarrow> map_option (\<lambda>s. w\<lparr>uw_rings := Some (t[idx := None]), uw_pmm := s\<rparr>) (drop_ring E r (uw_pmm w))
          else Some w)"

definition with_ring :: "nat \<Rightarrow> (IoUringRing \<Rightarrow> 'a) \<Rightarrow> 'k uring_world \<Rightarrow> 'a option" where
  "with_ring idx f w =
     (case uw_rings w of
        None \<Rightarrow> None
      | Some t \<Rightarrow> if idx < length t then map_option f (t ! idx) else None)"

text \<open>The update of the ring in a slot, for the closures that change it; \<open>None\<close> when there is none.\<close>

definition with_ring_mut :: "nat \<Rightarrow> (IoUringRing \<Rightarrow> 'a \<times> IoUringRing) \<Rightarrow> 'k uring_world \<Rightarrow> 'a option \<times> 'k uring_world" where
  "with_ring_mut idx f w =
     (case uw_rings w of
        None \<Rightarrow> (None, w)
      | Some t \<Rightarrow>
          (case with_ring idx f w of
             None \<Rightarrow> (None, w)
           | Some (a, r) \<Rightarrow> (Some a, w\<lparr>uw_rings := Some (t[idx := Some r])\<rparr>)))"

definition ring_idx_for_fd :: "u32 \<Rightarrow> nat \<Rightarrow> 'k uring_world \<Rightarrow> nat option" where
  "ring_idx_for_fd p fd w =
     (case uw_rings w of
        None \<Rightarrow> None
      | Some t \<Rightarrow> position (\<lambda>x. case x of Some r \<Rightarrow> ir_pid r = p \<and> ir_fd r = fd | None \<Rightarrow> False) t)"

definition io_uring_close :: "platform \<Rightarrow> u32 \<Rightarrow> nat \<Rightarrow> 'k uring_world \<Rightarrow> 'k uring_world panicky" where
  "io_uring_close E cur fd w = (case ring_idx_for_fd cur fd w of Some idx \<Rightarrow> free_ring E idx w | None \<Rightarrow> Some w)"

subsection \<open>Submission\<close>

type_synonym 'k dispatcher = "IoUringSqe \<Rightarrow> nat \<Rightarrow> 'k uring_world \<Rightarrow> (i32 \<times> u32) \<times> 'k uring_world"

definition post_at :: "nat \<Rightarrow> u64 \<Rightarrow> i32 \<Rightarrow> u32 \<Rightarrow> 'k uring_world \<Rightarrow> nat list \<times> 'k uring_world" where
  "post_at idx user_data res flags w =
     (let (out, w1) = with_ring_mut idx (\<lambda>r. let (ok, woken, r', st) = post_cqe idx user_data res flags (r, uw_wq w)
                                            in ((woken, st), r')) w
      in case out of None \<Rightarrow> ([], w1) | Some (woken, st) \<Rightarrow> (woken, w1\<lparr>uw_wq := st\<rparr>))"

definition post_cqe_from_irq :: "nat \<Rightarrow> u64 \<Rightarrow> i32 \<Rightarrow> u32 \<Rightarrow> 'k uring_world \<Rightarrow> bool \<times> nat list \<times> 'k uring_world" where
  "post_cqe_from_irq idx user_data res flags w =
     (let ok = (case with_ring idx (\<lambda>r. fst (post_ring user_data res flags r)) w of Some b \<Rightarrow> b | None \<Rightarrow> False);
          (woken, w') = post_at idx user_data res flags w
      in (ok, woken, w'))"

fun submit_loop :: "'k dispatcher \<Rightarrow> nat \<Rightarrow> IoUringSqe list \<Rightarrow> 'k uring_world \<Rightarrow> nat \<times> nat list \<times> 'k uring_world" where
  "submit_loop dispatch idx [] w = (0, [], w)"
| "submit_loop dispatch idx (sqe # sqes) w =
     (let ((res, flags), w1) = dispatch sqe idx w;
          (woken, w2) = post_at idx (sqe_user_data sqe) res flags w1;
          (n, more, w3) = submit_loop dispatch idx sqes w2
      in (n + 1, woken @ more, w3))"

text \<open>\<open>EWait n\<close>: the call sleeps on the completion queue, having submitted \<open>n\<close>.\<close>

datatype enter_outcome = EDone int | EWait nat

definition enter_check :: "nat \<Rightarrow> u32 \<Rightarrow> nat \<Rightarrow> 'k uring_world \<Rightarrow> enter_outcome" where
  "enter_check idx min_complete submitted w =
     (let available = (case with_ring idx cq_available w of Some n \<Rightarrow> n | None \<Rightarrow> 0)
      in if available \<ge> min_complete then EDone (int submitted) else EWait submitted)"

definition enter_resume :: "nat \<Rightarrow> u32 \<Rightarrow> nat \<Rightarrow> WakeReason \<Rightarrow> 'k uring_world \<Rightarrow> enter_outcome" where
  "enter_resume idx min_complete submitted reason w =
     (case reason of
        Cancelled \<Rightarrow> EDone (- 4)
      | Timeout \<Rightarrow> EDone (int submitted)
      | Ready \<Rightarrow> enter_check idx min_complete submitted w)"

definition sys_io_uring_enter ::
  "'k dispatcher \<Rightarrow> u32 \<Rightarrow> u32 \<Rightarrow> nat \<Rightarrow> u32 \<Rightarrow> u32 \<Rightarrow> u32 \<Rightarrow> 'k uring_world
     \<Rightarrow> enter_outcome \<times> nat list \<times> 'k uring_world" where
  "sys_io_uring_enter dispatch getevents cur fd to_submit min_complete flags w =
     (case ring_idx_for_fd cur fd w of
        None \<Rightarrow> (EDone (- 9), [], w)
      | Some idx \<Rightarrow>
          let (out, w1) = with_ring_mut idx drain_sq w;
              sqes = (case out of Some xs \<Rightarrow> xs | None \<Rightarrow> []);
              submit_count = min (unat to_submit) (length sqes);
              (submitted, woken, w2) = submit_loop dispatch idx (take submit_count sqes) w1
          in if flags AND getevents \<noteq> 0 \<and> min_complete > 0
             then case with_ring idx (\<lambda>r. ()) w2 of
                    None \<Rightarrow> (EDone (- 9), woken, w2)
                  | Some _ \<Rightarrow> (enter_check idx min_complete submitted w2, woken, w2)
             else (EDone (int submitted), woken, w2))"

subsection \<open>Registration\<close>

definition IORING_REGISTER_BUFFERS :: u32 where "IORING_REGISTER_BUFFERS = 0"
definition IORING_UNREGISTER_BUFFERS :: u32 where "IORING_UNREGISTER_BUFFERS = 1"
definition IORING_REGISTER_FILES :: u32 where "IORING_REGISTER_FILES = 2"
definition IORING_UNREGISTER_FILES :: u32 where "IORING_UNREGISTER_FILES = 3"
definition IORING_REGISTER_EVENTFD :: u32 where "IORING_REGISTER_EVENTFD = 4"
definition IORING_UNREGISTER_EVENTFD :: u32 where "IORING_UNREGISTER_EVENTFD = 5"
definition IORING_REGISTER_FILES_UPDATE :: u32 where "IORING_REGISTER_FILES_UPDATE = 6"
definition IORING_REGISTER_IOWQ_AFF :: u32 where "IORING_REGISTER_IOWQ_AFF = 7"
definition IORING_UNREGISTER_IOWQ_AFF :: u32 where "IORING_UNREGISTER_IOWQ_AFF = 8"
definition IORING_REGISTER_IOWQ_MAX_WORKERS :: u32 where "IORING_REGISTER_IOWQ_MAX_WORKERS = 9"

definition read_usize :: "u8 list \<Rightarrow> nat \<Rightarrow> nat" where
  "read_usize buf off = from_le_bytes (take 8 (drop off buf))"

definition read_u32 :: "u8 list \<Rightarrow> nat \<Rightarrow> u32" where
  "read_u32 buf off = of_nat (from_le_bytes (take 4 (drop off buf)))"

definition set_file :: "nat \<Rightarrow> i32 \<Rightarrow> i32 list \<Rightarrow> i32 list" where
  "set_file slot fd fds =
     (if slot < length fds then fds[slot := fd]
      else (fds @ replicate (slot + 1 - length fds) (- 1))[slot := fd])"

definition update_ring :: "nat \<Rightarrow> int \<Rightarrow> (IoUringRing \<Rightarrow> IoUringRing) \<Rightarrow> 'k uring_world \<Rightarrow> int \<times> 'k uring_world" where
  "update_ring idx ret f w =
     (let (out, w1) = with_ring_mut idx (\<lambda>r. (ret, f r)) w in (case out of Some n \<Rightarrow> n | None \<Rightarrow> - 9, w1))"

definition sys_io_uring_register ::
  "umem \<Rightarrow> u32 \<Rightarrow> nat \<Rightarrow> u32 \<Rightarrow> nat \<Rightarrow> u32 \<Rightarrow> 'k uring_world \<Rightarrow> int \<times> 'k uring_world" where
  "sys_io_uring_register um cur fd opcode arg_va nr_args w =
     (case ring_idx_for_fd cur fd w of
        None \<Rightarrow> (- 9, w)
      | Some idx \<Rightarrow>
          let nr = unat nr_args in
          if opcode = IORING_REGISTER_BUFFERS then
            (if arg_va = 0 \<or> nr = 0 then (- 22, w)
             else case copy_from_user um arg_va (nr * 16) of
               None \<Rightarrow> (- 14, w)
             | Some buf \<Rightarrow> update_ring idx 0
                 (\<lambda>r. r\<lparr>ir_reg_bufs := map (\<lambda>i. (read_usize buf (i * 16), read_usize buf (i * 16 + 8))) [0..<nr]\<rparr>) w)
          else if opcode = IORING_UNREGISTER_BUFFERS then update_ring idx 0 (\<lambda>r. r\<lparr>ir_reg_bufs := []\<rparr>) w
          else if opcode = IORING_REGISTER_FILES then
            (if arg_va = 0 \<or> nr = 0 then (- 22, w)
             else case copy_from_user um arg_va (nr * 4) of
               None \<Rightarrow> (- 14, w)
             | Some bytes \<Rightarrow> update_ring idx 0 (\<lambda>r. r\<lparr>ir_reg_fds := map (\<lambda>i. read_u32 bytes (i * 4)) [0..<nr]\<rparr>) w)
          else if opcode = IORING_UNREGISTER_FILES then update_ring idx 0 (\<lambda>r. r\<lparr>ir_reg_fds := []\<rparr>) w
          else if opcode = IORING_REGISTER_EVENTFD then
            (if arg_va = 0 then (- 22, w)
             else case copy_from_user um arg_va 4 of None \<Rightarrow> (- 14, w) | Some _ \<Rightarrow> (0, w))
          else if opcode = IORING_UNREGISTER_EVENTFD then (0, w)
          else if opcode = IORING_REGISTER_FILES_UPDATE then
            (if arg_va = 0 \<or> nr = 0 then (- 22, w)
             else case copy_from_user um arg_va (8 + nr * 4) of
               None \<Rightarrow> (- 14, w)
             | Some raw \<Rightarrow>
                 let off = unat (read_u32 raw 0) in
                 update_ring idx (int nr)
                   (\<lambda>r. r\<lparr>ir_reg_fds := fold (\<lambda>i. set_file (off + i) (read_u32 raw (8 + i * 4))) [0..<nr] (ir_reg_fds r)\<rparr>) w)
          else if opcode = IORING_REGISTER_IOWQ_AFF \<or> opcode = IORING_UNREGISTER_IOWQ_AFF \<or>
            opcode = IORING_REGISTER_IOWQ_MAX_WORKERS then (0, w)
          else (- 22, w))"

subsection \<open>Indices of a ring\<close>

text \<open>A ring has a power of two of entries, and its arrays have that many.\<close>

definition ring_ok :: "nat \<Rightarrow> IoUringRing \<Rightarrow> bool" where
  "ring_ok k r \<longleftrightarrow> k \<le> 12 \<and> unat (ir_entries r) = 2 ^ k \<and> length (ir_sq_array r) = 2 ^ k \<and>
     length (ir_sqes r) = 2 ^ k \<and> length (ir_cqes r) = 2 ^ k"

lemma unat_mask_index:
  assumes "k < 32" "unat (e :: u32) = 2 ^ k"
  shows "unat (x AND (e - 1)) = unat x mod 2 ^ k"
proof -
  have "e = of_nat (unat e)" by simp
  also have "\<dots> = 2 ^ k" unfolding assms(2) by simp
  finally have "e - 1 = mask k" by (simp add: mask_eq_exp_minus_1)
  then show ?thesis using assms(1) by (simp add: take_bit_eq_mask [symmetric] take_bit_nat_def unsigned_take_bit_eq)
qed

lemma unat_add_mod:
  assumes "k \<le> 32"
  shows "unat ((h :: u32) + of_nat i) mod 2 ^ k = (unat h + i) mod 2 ^ k"
proof -
  have "unat (h + of_nat i) = (unat h + i) mod 2 ^ 32"
    by (simp add: unat_word_ariths unat_of_nat mod_add_right_eq)
  moreover have "(2 :: nat) ^ k dvd 2 ^ 32" by (rule le_imp_power_dvd [OF assms])
  ultimately show ?thesis by (simp add: mod_mod_cancel)
qed

lemma unat_of_nat_u32: "x < 2 ^ 32 \<Longrightarrow> unat (of_nat x :: u32) = x"
  by (simp add: unat_of_nat)

lemma ring_entries_pow2: "\<exists>k \<le> 12. unat (ring_entries_for n) = 2 ^ k"
proof -
  define m where "m = length (takeWhile (\<lambda>k. 2 ^ k < unat n) [0..<32])"
  have "m \<le> 32" unfolding m_def by (metis diff_zero length_takeWhile_le length_upt)
  then consider "m \<le> 12" | "12 < m" "m < 32" | "m = 32" by linarith
  then show ?thesis
  proof cases
    case 1
    then have "(2 :: nat) ^ m \<le> 2 ^ 12" by (intro power_increasing) simp_all
    then have "unat (of_nat (2 ^ m) :: u32) = 2 ^ m" by (intro unat_of_nat_u32) simp
    then have "unat (next_power_of_two n) = 2 ^ m" by (simp only: next_power_of_two_def m_def)
    moreover have "(2 :: nat) ^ m \<noteq> 0" by simp
    ultimately have "ring_entries_for n = next_power_of_two n"
      using \<open>2 ^ m \<le> 2 ^ 12\<close> by (simp add: ring_entries_for_def clamp_def MAX_ENTRIES_def word_less_nat_alt)
    then show ?thesis using 1 \<open>unat (next_power_of_two n) = 2 ^ m\<close> by auto
  next
    case 2
    then have "(2 :: nat) ^ 13 \<le> 2 ^ m" "(2 :: nat) ^ m < 2 ^ 32"
      by (intro power_increasing power_strict_increasing; simp)+
    moreover from this have "unat (of_nat (2 ^ m) :: u32) = 2 ^ m" by (intro unat_of_nat_u32)
    then have "unat (next_power_of_two n) = 2 ^ m" by (simp only: next_power_of_two_def m_def)
    ultimately have "ring_entries_for n = MAX_ENTRIES"
      by (simp add: ring_entries_for_def clamp_def MAX_ENTRIES_def word_less_nat_alt)
    then show ?thesis by (auto simp: MAX_ENTRIES_def intro!: exI [of _ 12])
  next
    case 3
    then have "next_power_of_two n = 0" by (simp add: next_power_of_two_def m_def)
    then have "ring_entries_for n = 1" by (simp add: ring_entries_for_def clamp_def)
    then show ?thesis by (auto intro!: exI [of _ 0])
  qed
qed

lemma ring_view_congr: "h mod length c = h' mod length c \<Longrightarrow> ring_view c h n = ring_view c h' n"
  by (metis ring_view_mod)

lemma ring_view_Suc: "ring_view c h (Suc n) = c ! (h mod length c) # ring_view c (h + 1) n"
proof -
  have "ring_view c h (Suc n) = take 1 (ring_view c h (Suc n)) @ drop 1 (ring_view c h (Suc n))" by simp
  also have "take 1 (ring_view c h (Suc n)) = ring_view c h 1" by (rule ring_view_take) simp
  also have "drop 1 (ring_view c h (Suc n)) = ring_view c (h + 1) n" by (simp add: ring_view_drop)
  finally show ?thesis by (simp add: ring_view_def)
qed

subsection \<open>The submission ring is a bounded queue\<close>

definition sq_count :: "IoUringRing \<Rightarrow> nat" where
  "sq_count r = unat (ir_sq_tail r - ir_sq_head r)"

definition sq_ok :: "nat \<Rightarrow> IoUringRing \<Rightarrow> bool" where
  "sq_ok k r \<longleftrightarrow> ring_ok k r \<and> sq_count r \<le> 2 ^ k \<and>
     (\<forall>i < sq_count r. ir_sq_array r ! ((unat (ir_sq_head r) + i) mod 2 ^ k) = of_nat ((unat (ir_sq_head r) + i) mod 2 ^ k))"

definition sq_content :: "IoUringRing \<Rightarrow> IoUringSqe list" where
  "sq_content r = ring_view (ir_sqes r) (unat (ir_sq_head r)) (sq_count r)"

definition sq_put :: "IoUringSqe \<Rightarrow> IoUringRing \<Rightarrow> IoUringSqe list \<times> IoUringRing" where
  "sq_put sqe r = (let (ok, r') = push_sqe sqe r in (if ok then [sqe] else [], r'))"

definition sq_get :: "unit \<Rightarrow> IoUringRing \<Rightarrow> IoUringSqe list \<times> IoUringRing" where
  "sq_get u r = drain_sq r"

definition ring_cap :: "IoUringRing \<Rightarrow> nat" where
  "ring_cap r = unat (ir_entries r)"

lemma pow12_less: "k \<le> 12 \<Longrightarrow> (2 :: nat) ^ k \<le> 4096"
  using power_increasing [of k 12 "2 :: nat"] by simp

lemma unat_of_nat_index: "k \<le> 12 \<Longrightarrow> x \<le> 2 ^ k \<Longrightarrow> unat (of_nat x :: u32) = x"
  by (rule unat_of_nat_u32) (use pow12_less [of k] in simp)

lemma unat_Suc_u32: "unat (d :: u32) + 1 < 2 ^ 32 \<Longrightarrow> unat (d + 1) = Suc (unat d)"
  by (simp add: unat_word_ariths)

lemma count_Suc:
  assumes "unat (t - h :: u32) < 2 ^ k" "k \<le> 12"
  shows "unat (t + 1 - h) = Suc (unat (t - h))"
proof -
  have eq: "t + 1 - h = (t - h) + 1" by simp
  show ?thesis unfolding eq by (rule unat_Suc_u32) (use assms pow12_less [OF assms(2)] in simp)
qed

lemma tail_index:
  assumes "k \<le> 12"
  shows "unat (t :: u32) mod 2 ^ k = (unat h + unat (t - h)) mod 2 ^ k"
proof -
  have "t = h + of_nat (unat (t - h))" by simp
  then show ?thesis using unat_add_mod [of k h "unat (t - h)"] assms by simp
qed

lemma push_sqe_law:
  assumes "sq_ok k r" "sq_put sqe r = (xs, r')"
  shows "sq_ok k r' \<and> sq_content r' = sq_content r @ xs \<and> ring_cap r' = ring_cap r"
proof (cases "ir_sq_tail r - ir_sq_head r \<ge> ir_entries r")
  case True
  then show ?thesis using assms
    by (auto simp: sq_put_def push_sqe_def sq_ok_def ring_ok_def sq_content_def sq_count_def ring_cap_def Let_def)
next
  case False
  let ?h = "unat (ir_sq_head r)" and ?n = "sq_count r"
  have k: "k \<le> 12" and e: "unat (ir_entries r) = 2 ^ k" using assms(1) by (auto simp: sq_ok_def ring_ok_def)
  have n: "?n < 2 ^ k" using False e by (simp add: sq_count_def word_le_nat_alt)
  define slot where "slot = (?h + ?n) mod 2 ^ k"
  have slot: "unat (ir_sq_tail r AND ring_mask r) = slot"
    using unat_mask_index [of k "ir_entries r" "ir_sq_tail r"] e k tail_index [OF k, of "ir_sq_tail r" "ir_sq_head r"]
    by (simp add: ring_mask_def slot_def sq_count_def)
  have r': "r' = r\<lparr>ir_sqes := (ir_sqes r)[slot := sqe], ir_sq_array := (ir_sq_array r)[slot := of_nat slot],
      ir_sq_tail := ir_sq_tail r + 1\<rparr>" and xs: "xs = [sqe]"
    using assms(2) False slot by (simp_all add: sq_put_def push_sqe_def Let_def)
  have cnt: "sq_count r' = Suc ?n" using count_Suc [OF _ k] n r' by (simp add: sq_count_def)
  have len: "length (ir_sqes r) = 2 ^ k" using assms(1) by (simp add: sq_ok_def ring_ok_def)
  have content: "sq_content r' = sq_content r @ [sqe]"
    using ring_view_update [of ?n "ir_sqes r" ?h sqe] n len cnt r' by (simp add: sq_content_def slot_def)
  have arr: "ir_sq_array r' ! ((?h + i) mod 2 ^ k) = of_nat ((?h + i) mod 2 ^ k)" if i: "i < Suc ?n" for i
  proof (cases "i = ?n")
    case True
    then show ?thesis using r' assms(1) by (simp add: slot_def sq_ok_def ring_ok_def)
  next
    case ne: False
    then have "(?h + i) mod 2 ^ k \<noteq> slot" using mod_add_inj [of ?h i "2 ^ k" ?n] i n by (auto simp: slot_def)
    then show ?thesis using r' assms(1) i ne by (simp add: sq_ok_def)
  qed
  show ?thesis
    using content xs arr cnt n assms(1) r' by (auto simp: sq_ok_def ring_ok_def ring_cap_def)
qed

lemma drain_loop_view:
  assumes "ring_ok k r"
    and "\<And>i. i < n \<Longrightarrow> ir_sq_array r ! ((unat at + i) mod 2 ^ k) = of_nat ((unat at + i) mod 2 ^ k)"
  shows "drain_loop n at r = (ring_view (ir_sqes r) (unat at) n, r)"
  using assms(2)
proof (induction n arbitrary: at)
  case 0
  then show ?case by (simp add: ring_view_def)
next
  case (Suc n)
  have k: "k \<le> 12" and e: "unat (ir_entries r) = 2 ^ k" and len: "length (ir_sqes r) = 2 ^ k"
    using assms(1) by (auto simp: ring_ok_def)
  have next_mod: "unat (at + 1) mod 2 ^ k = (unat at + 1) mod 2 ^ k" using unat_add_mod [of k at 1] k by simp
  have "ir_sq_array r ! ((unat (at + 1) + i) mod 2 ^ k) = of_nat ((unat (at + 1) + i) mod 2 ^ k)" if "i < n" for i
  proof -
    have "(unat (at + 1) + i) mod 2 ^ k = (unat at + Suc i) mod 2 ^ k"
      using next_mod by (metis add.assoc mod_add_left_eq plus_1_eq_Suc)
    then show ?thesis using Suc.prems [of "Suc i"] that by simp
  qed
  then have IH: "drain_loop n (at + 1) r = (ring_view (ir_sqes r) (unat (at + 1)) n, r)" by (rule Suc.IH)
  have idx: "unat (at AND ring_mask r) = unat at mod 2 ^ k"
    using unat_mask_index [of k "ir_entries r" at] e k by (simp add: ring_mask_def)
  have lt: "unat at mod 2 ^ k < 2 ^ k" by simp
  have "unat (of_nat (unat at mod 2 ^ k) :: u32) = unat at mod 2 ^ k"
    by (rule unat_of_nat_index [OF k]) (use lt in simp)
  then have "drain_loop (Suc n) at r = (ir_sqes r ! (unat at mod 2 ^ k) # ring_view (ir_sqes r) (unat (at + 1)) n, r)"
    using Suc.prems [of 0] idx IH e lt by simp
  moreover have "ring_view (ir_sqes r) (unat (at + 1)) n = ring_view (ir_sqes r) (unat at + 1) n"
    by (rule ring_view_congr) (use next_mod len in simp)
  ultimately show ?case by (simp add: ring_view_Suc len)
qed

lemma drain_sq_eq:
  assumes "sq_ok k r"
  shows "drain_sq r = (sq_content r, r\<lparr>ir_sq_head := ir_sq_tail r\<rparr>)"
proof (cases "sq_count r = 0")
  case True
  then have "ir_sq_head r = ir_sq_tail r" by (simp add: sq_count_def unat_eq_0)
  then show ?thesis using True by (simp add: drain_sq_def sq_count_def sq_content_def ring_view_def)
next
  case False
  have e: "unat (ir_entries r) = 2 ^ k" and le: "sq_count r \<le> 2 ^ k" and ok: "ring_ok k r"
    using assms by (auto simp: sq_ok_def ring_ok_def)
  have "drain_loop (sq_count r) (ir_sq_head r) r = (sq_content r, r)"
    unfolding sq_content_def by (rule drain_loop_view [OF ok]) (use assms in \<open>simp add: sq_ok_def\<close>)
  then show ?thesis using False e le by (simp add: drain_sq_def sq_count_def)
qed

lemma drain_sq_law:
  assumes "sq_ok k r" "sq_get u r = (xs, r')"
  shows "sq_ok k r' \<and> sq_content r = xs @ sq_content r' \<and> ring_cap r' = ring_cap r"
  using assms drain_sq_eq [OF assms(1)]
  by (auto simp: sq_get_def sq_ok_def ring_ok_def sq_count_def sq_content_def ring_cap_def ring_view_def)

lemma sq_bounded: "sq_ok k r \<Longrightarrow> length (sq_content r) \<le> ring_cap r"
  by (simp add: sq_ok_def ring_ok_def sq_content_def ring_cap_def)

interpretation sqf: fifo "sq_ok k" sq_content ring_cap sq_put sq_get for k
  by unfold_locales (fact push_sqe_law drain_sq_law sq_bounded)+

subsection \<open>The completion ring is a bounded queue\<close>

text \<open>
  The consumer is the user, who reads entries from the head on and then advances it;
  \<open>reap\<close> is that protocol.
\<close>

definition cq_count :: "IoUringRing \<Rightarrow> nat" where
  "cq_count r = unat (cq_available r)"

definition cq_ok :: "nat \<Rightarrow> IoUringRing \<Rightarrow> bool" where
  "cq_ok k r \<longleftrightarrow> ring_ok k r \<and> cq_count r \<le> 2 ^ k"

definition cq_content :: "IoUringRing \<Rightarrow> IoUringCqe list" where
  "cq_content r = ring_view (ir_cqes r) (unat (ir_cq_head r)) (cq_count r)"

definition cq_put :: "IoUringCqe \<Rightarrow> IoUringRing \<Rightarrow> IoUringCqe list \<times> IoUringRing" where
  "cq_put c r = (let (ok, r') = post_ring (cqe_user_data c) (cqe_res c) (cqe_flags c) r in (if ok then [c] else [], r'))"

definition reap :: "nat \<Rightarrow> IoUringRing \<Rightarrow> IoUringCqe list \<times> IoUringRing" where
  "reap n r =
     (let m = min n (cq_count r)
      in (map (\<lambda>i. ir_cqes r ! unat ((ir_cq_head r + of_nat i) AND ring_mask r)) [0..<m],
          r\<lparr>ir_cq_head := ir_cq_head r + of_nat m\<rparr>))"

lemma cqe_eta: "\<lparr>cqe_user_data = cqe_user_data c, cqe_res = cqe_res c, cqe_flags = cqe_flags c\<rparr> = c"
  by simp

lemma post_ring_law:
  assumes "cq_ok k r" "cq_put c r = (xs, r')"
  shows "cq_ok k r' \<and> cq_content r' = cq_content r @ xs \<and> ring_cap r' = ring_cap r"
proof (cases "ir_cq_tail r - ir_cq_head r \<ge> ir_entries r")
  case True
  then show ?thesis using assms
    by (auto simp: cq_put_def post_ring_def cq_ok_def ring_ok_def cq_content_def cq_count_def cq_available_def ring_cap_def Let_def)
next
  case False
  let ?h = "unat (ir_cq_head r)" and ?n = "cq_count r"
  have k: "k \<le> 12" and e: "unat (ir_entries r) = 2 ^ k" and len: "length (ir_cqes r) = 2 ^ k"
    using assms(1) by (auto simp: cq_ok_def ring_ok_def)
  have n: "?n < 2 ^ k" using False e by (simp add: cq_count_def cq_available_def word_le_nat_alt)
  have slot: "unat (ir_cq_tail r AND ring_mask r) = (?h + ?n) mod 2 ^ k"
    using unat_mask_index [of k "ir_entries r" "ir_cq_tail r"] e k tail_index [OF k, of "ir_cq_tail r" "ir_cq_head r"]
    by (simp add: ring_mask_def cq_count_def cq_available_def)
  have r': "r' = r\<lparr>ir_cqes := (ir_cqes r)[(?h + ?n) mod 2 ^ k := c], ir_cq_tail := ir_cq_tail r + 1\<rparr>" and xs: "xs = [c]"
    using assms(2) False slot by (auto simp: cq_put_def post_ring_def cqe_eta Let_def)
  have cnt: "cq_count r' = Suc ?n" using count_Suc [OF _ k] n r' by (simp add: cq_count_def cq_available_def)
  have "cq_content r' = cq_content r @ [c]"
    using ring_view_update [of ?n "ir_cqes r" ?h c] n len cnt r' by (simp add: cq_content_def)
  then show ?thesis using xs cnt n assms(1) r' by (auto simp: cq_ok_def ring_ok_def ring_cap_def)
qed

lemma reap_law:
  assumes "cq_ok k r" "reap n r = (xs, r')"
  shows "cq_ok k r' \<and> cq_content r = xs @ cq_content r' \<and> ring_cap r' = ring_cap r"
proof -
  let ?h = "unat (ir_cq_head r)" and ?c = "cq_count r"
  define m where "m = min n ?c"
  have k: "k \<le> 12" and e: "unat (ir_entries r) = 2 ^ k" and len: "length (ir_cqes r) = 2 ^ k" and c: "?c \<le> 2 ^ k"
    using assms(1) by (auto simp: cq_ok_def ring_ok_def)
  have m: "m \<le> ?c" "m \<le> 2 ^ k" using c by (simp_all add: m_def)
  have mm: "unat (of_nat m :: u32) = m" by (rule unat_of_nat_index [OF k m(2)])
  have r': "r' = r\<lparr>ir_cq_head := ir_cq_head r + of_nat m\<rparr>" using assms(2) by (auto simp: reap_def m_def Let_def)
  have idx: "unat ((ir_cq_head r + of_nat i) AND ring_mask r) = (?h + i) mod 2 ^ k" for i
    using unat_mask_index [of k "ir_entries r" "ir_cq_head r + of_nat i"] e k unat_add_mod [of k "ir_cq_head r" i]
    by (simp add: ring_mask_def)
  have xs: "xs = ring_view (ir_cqes r) ?h m"
    using assms(2) by (auto simp: reap_def m_def [symmetric] idx ring_view_def len Let_def)
  have cnt: "cq_count r' = ?c - m"
  proof -
    have "cq_available r' = cq_available r - of_nat m" using r' by (simp add: cq_available_def)
    moreover have "of_nat m \<le> cq_available r" using m(1) mm by (simp add: cq_count_def word_le_nat_alt)
    ultimately show ?thesis using mm by (simp add: cq_count_def unat_sub)
  qed
  have "ring_view (ir_cqes r) (unat (ir_cq_head r + of_nat m)) (?c - m) = ring_view (ir_cqes r) (?h + m) (?c - m)"
    by (rule ring_view_congr) (use unat_add_mod [of k "ir_cq_head r" m] k len in simp)
  then have "cq_content r' = drop m (cq_content r)" using r' cnt by (simp add: cq_content_def ring_view_drop)
  moreover have "xs = take m (cq_content r)" using xs m(1) by (simp add: cq_content_def ring_view_take)
  ultimately show ?thesis using assms(1) r' cnt c by (auto simp: cq_ok_def ring_ok_def ring_cap_def)
qed

lemma cq_bounded: "cq_ok k r \<Longrightarrow> length (cq_content r) \<le> ring_cap r"
  by (simp add: cq_ok_def ring_ok_def cq_content_def ring_cap_def)

interpretation cqf: fifo "cq_ok k" cq_content ring_cap cq_put reap for k
  by unfold_locales (fact post_ring_law reap_law cq_bounded)+

subsection \<open>New rings\<close>

lemma ring_ok_new: "k \<le> 12 \<Longrightarrow> unat n = 2 ^ k \<Longrightarrow> ring_ok k (new_ring p n a b)"
  by (simp add: ring_ok_def new_ring_def)

lemma ring_new_ok:
  assumes "k \<le> 12" "unat n = 2 ^ k"
  shows "sq_ok k (new_ring p n a b)" "cq_ok k (new_ring p n a b)"
    "sq_content (new_ring p n a b) = []" "cq_content (new_ring p n a b) = []" "ring_cap (new_ring p n a b) = 2 ^ k"
  using ring_ok_new [OF assms] assms(2)
  by (simp_all add: sq_ok_def cq_ok_def sq_count_def cq_count_def cq_available_def sq_content_def cq_content_def
      ring_cap_def ring_view_def new_ring_def)

text \<open>The largest ring that fits a page has 32 entries.\<close>

lemma sq_page_entries:
  assumes "RING_HDR_SIZE + unat (ring_entries_for n) * 4 + unat (ring_entries_for n) * SQE_SIZE \<le> PAGE_SIZE"
  shows "unat (ring_entries_for n) \<le> 32"
proof -
  obtain k where k: "unat (ring_entries_for n) = 2 ^ k" using ring_entries_pow2 [of n] by blast
  have "k < 6"
  proof (rule ccontr)
    assume "\<not> k < 6"
    then have "(2 :: nat) ^ 6 \<le> 2 ^ k" by (intro power_increasing) simp_all
    then show False using assms k by (simp add: RING_HDR_SIZE_def SQE_SIZE_def PAGE_SIZE_def)
  qed
  then have "(2 :: nat) ^ k \<le> 2 ^ 5" by (intro power_increasing) simp_all
  then show ?thesis using k by simp
qed

definition align_sqe :: "nat \<Rightarrow> nat" where
  "align_sqe base = (base + SQE_SIZE - 1) AND usize_not (SQE_SIZE - 1)"

definition sq_array_base :: "IoUringRing \<Rightarrow> nat" where
  "sq_array_base r = ir_sq_pa r + RING_HDR_SIZE"

definition sqe_array_base :: "IoUringRing \<Rightarrow> nat" where
  "sqe_array_base r = align_sqe (ir_sq_pa r + RING_HDR_SIZE + unat (ir_entries r) * 4)"

definition cqe_array_base :: "IoUringRing \<Rightarrow> nat" where
  "cqe_array_base r = ir_cq_pa r + RING_HDR_SIZE"

lemma align_sqe_bounds:
  assumes "x < 2 ^ 63"
  shows "x \<le> align_sqe x" "align_sqe x < x + 64" "64 dvd align_sqe x"
proof -
  have a: "align_sqe x = (x + 63) div 64 * 64"
    using and_usize_not_mask [of "x + 63" 6] assms by (simp add: align_sqe_def SQE_SIZE_def add.commute)
  show "x \<le> align_sqe x" "align_sqe x < x + 64" unfolding a by linarith+
  show "64 dvd align_sqe x" unfolding a by simp
qed

lemma drain_loop_safe:
  "length (fst (drain_loop n at r)) = n \<and>
   (length (ir_sqes r) = unat (ir_entries r) \<longrightarrow> set (fst (drain_loop n at r)) \<subseteq> insert sqe_default (set (ir_sqes r))) \<and>
   (\<exists>d. snd (drain_loop n at r) = r\<lparr>ir_sq_dropped := d\<rparr>)"
proof (induction n arbitrary: at r)
  case 0
  then show ?case by (auto intro: exI [of _ "ir_sq_dropped r"])
next
  case (Suc n)
  have nop: "sqe_default\<lparr>sqe_opcode := 0\<rparr> = sqe_default" by (simp add: sqe_default_def)
  let ?r = "r\<lparr>ir_sq_dropped := ir_sq_dropped r + 1\<rparr>"
  show ?case using Suc.IH [of "at + 1" r] Suc.IH [of "at + 1" ?r]
    by (auto simp: Let_def nop split: prod.split)
qed

subsection \<open>Pages of rings\<close>

definition slot_pages :: "IoUringRing option \<Rightarrow> nat set" where
  "slot_pages x = (case x of Some r \<Rightarrow> {ir_sq_pa r, ir_cq_pa r} | None \<Rightarrow> {})"

definition pages_ok :: "IoUringRing option list \<Rightarrow> nat set \<Rightarrow> bool" where
  "pages_ok t F \<longleftrightarrow>
     (\<forall>i < length t. slot_pages (t ! i) \<inter> F = {} \<and> (\<forall>r. t ! i = Some r \<longrightarrow> ir_sq_pa r \<noteq> ir_cq_pa r)) \<and>
     (\<forall>i < length t. \<forall>j < length t. i \<noteq> j \<longrightarrow> slot_pages (t ! i) \<inter> slot_pages (t ! j) = {})"

definition uring_mem :: "platform \<Rightarrow> 'k uring_world \<Rightarrow> bool" where
  "uring_mem E w \<longleftrightarrow> (\<exists>F. pmm_frames E (uw_pmm w) F \<and> (case uw_rings w of Some t \<Rightarrow> pages_ok t F | None \<Rightarrow> True))"

lemma pages_ok_mono: "pages_ok t F \<Longrightarrow> F' \<subseteq> F \<Longrightarrow> pages_ok t F'"
  unfolding pages_ok_def by (meson disjoint_iff subsetD)

lemma pages_ok_add:
  assumes "pages_ok t F" "i < length t" "t ! i = None" "ir_sq_pa r \<in> F" "ir_cq_pa r \<in> F" "ir_sq_pa r \<noteq> ir_cq_pa r"
  shows "pages_ok (t[i := Some r]) (F - {ir_sq_pa r, ir_cq_pa r})"
  using assms unfolding pages_ok_def slot_pages_def by (auto simp: nth_list_update split: option.splits)

lemma pages_ok_remove:
  assumes "pages_ok t F" "i < length t" "t ! i = Some r" "F' \<subseteq> F \<union> {ir_sq_pa r, ir_cq_pa r}"
  shows "pages_ok (t[i := None]) F'"
proof -
  have A: "slot_pages (t ! j) \<inter> F' = {}" if "j < length t" "j \<noteq> i" for j
  proof -
    have "slot_pages (t ! j) \<inter> F = {}" "slot_pages (t ! j) \<inter> slot_pages (t ! i) = {}"
      using assms(1,2) that unfolding pages_ok_def by blast+
    then show ?thesis using assms(3,4) by (auto simp: slot_pages_def)
  qed
  have B: "slot_pages (t[i := None] ! j) = (if j = i then {} else slot_pages (t ! j))" if "j < length t" for j
    using that by (simp add: nth_list_update slot_pages_def)
  show ?thesis
    unfolding pages_ok_def length_list_update
  proof (intro conjI allI impI)
    fix j assume j: "j < length t"
    show "slot_pages (t[i := None] ! j) \<inter> F' = {}" using A [OF j] B [OF j] by (cases "j = i") simp_all
    fix q assume "t[i := None] ! j = Some q"
    then have "t ! j = Some q" using j by (cases "i = j") simp_all
    then show "ir_sq_pa q \<noteq> ir_cq_pa q" using assms(1) j unfolding pages_ok_def by blast
  next
    fix j l assume "j < length t" "l < length t" "j \<noteq> l"
    moreover from this have "slot_pages (t ! j) \<inter> slot_pages (t ! l) = {}" using assms(1) unfolding pages_ok_def by blast
    ultimately show "slot_pages (t[i := None] ! j) \<inter> slot_pages (t[i := None] ! l) = {}" using B by simp
  qed
qed

lemma position_none:
  assumes "position Option.is_none t = Some i"
  shows "i < length t" "t ! i = None"
proof -
  let ?n = "length (takeWhile (\<lambda>x. \<not> Option.is_none x) t)"
  have i: "i = ?n" "?n < length t" using assms by (auto simp: position_def Let_def split: if_splits)
  then show "i < length t" by simp
  show "t ! i = None" using nth_length_takeWhile [of "\<lambda>x. \<not> Option.is_none x" t] i by (simp add: is_none_code(1) Option.is_none_def)
qed

lemma drop_ring_frames:
  assumes "pmm_frames E s F" "drop_ring E r s = Some s'" "ir_sq_pa r \<notin> F" "ir_cq_pa r \<notin> F" "ir_sq_pa r \<noteq> ir_cq_pa r"
  shows "\<exists>F'. pmm_frames E s' F' \<and> F' \<subseteq> F \<union> {ir_sq_pa r, ir_cq_pa r}"
proof -
  obtain s1 where s1: "(if ir_sq_pa r \<noteq> 0 then free_page E (ir_sq_pa r) s else Some s) = Some s1"
    and s2: "(if ir_cq_pa r \<noteq> 0 then free_page E (ir_cq_pa r) s1 else Some s1) = Some s'"
    using assms(2) by (auto simp: drop_ring_def bind_eq_Some_conv)
  have "\<exists>F1. pmm_frames E s1 F1 \<and> F1 \<subseteq> insert (ir_sq_pa r) F"
    using s1 assms(1) pg.release_some [OF assms(1,3)] by (auto split: if_splits)
  then obtain F1 where F1: "pmm_frames E s1 F1" "F1 \<subseteq> insert (ir_sq_pa r) F" by blast
  have "ir_cq_pa r \<notin> F1" using F1(2) assms(4,5) by auto
  then have "\<exists>F2. pmm_frames E s' F2 \<and> F2 \<subseteq> insert (ir_cq_pa r) F1"
    using s2 F1(1) pg.release_some [OF F1(1)] by (auto split: if_splits)
  then show ?thesis using F1(2) by blast
qed

lemma uring_memI: "pmm_frames E (uw_pmm w) F \<Longrightarrow> (\<And>t. uw_rings w = Some t \<Longrightarrow> pages_ok t F) \<Longrightarrow> uring_mem E w"
  unfolding uring_mem_def by (auto split: option.split)

lemma uring_memE:
  assumes "uring_mem E w"
  obtains F where "pmm_frames E (uw_pmm w) F" "\<And>t. uw_rings w = Some t \<Longrightarrow> pages_ok t F"
proof -
  obtain F where F: "pmm_frames E (uw_pmm w) F" "case uw_rings w of Some t \<Rightarrow> pages_ok t F | None \<Rightarrow> True"
    using assms unfolding uring_mem_def by blast
  show thesis by (rule that [OF F(1)]) (use F(2) in simp)
qed

text \<open>Dropping a ring whose pages were free before it was made gives back at most those.\<close>

lemma drop_new_ring_mem:
  assumes "pmm_frames E s F'" "F' = F - {a, b}" "a \<in> F" "b \<in> F" "a \<noteq> b" "drop_ring E (new_ring p n a b) s = Some s3"
    "\<And>t. uw_rings w = Some t \<Longrightarrow> pages_ok t F"
  shows "uring_mem E (w\<lparr>uw_pmm := s3\<rparr>)"
proof -
  have "\<exists>F3. pmm_frames E s3 F3 \<and> F3 \<subseteq> F' \<union> {a, b}"
    using drop_ring_frames [OF assms(1,6)] assms(2,5) by (simp add: new_ring_def)
  then obtain F3 where F3: "pmm_frames E s3 F3" "F3 \<subseteq> F' \<union> {a, b}" by blast
  have "F3 \<subseteq> F" using F3(2) assms(2-4) by blast
  then show ?thesis using F3(1) assms(7) pages_ok_mono by (intro uring_memI [of _ _ F3]) auto
qed

lemma alloc_ring_mem:
  assumes "uring_mem E w" "alloc_ring E p n w = Some (res, w')"
  shows "uring_mem E w'"
proof -
  obtain F where F: "pmm_frames E (uw_pmm w) F" and ok: "\<And>t. uw_rings w = Some t \<Longrightarrow> pages_ok t F"
    using uring_memE [OF assms(1)] by metis
  let ?e = "ring_entries_for n"
  show ?thesis
  proof (cases "RING_HDR_SIZE + unat ?e * 4 + unat ?e * SQE_SIZE > PAGE_SIZE \<or> RING_HDR_SIZE + unat ?e * CQE_SIZE > PAGE_SIZE")
    case True
    then show ?thesis using assms by (auto simp: alloc_ring_def Let_def)
  next
    case fits: False
    obtain sqo s1 where a1: "alloc_page E (uw_pmm w) = (sqo, s1)" by (metis surj_pair)
    show ?thesis
    proof (cases sqo)
      case None
      have "pmm_frames E s1 F" using pg.alloc_none [OF F] a1 None by simp
      then show ?thesis using assms(2) fits a1 None ok by (auto simp: alloc_ring_def Let_def intro: uring_memI)
    next
      case (Some a)
      have a: "a \<in> F" "pmm_frames E s1 (F - {a})" using pg.alloc_some [OF F] a1 Some by simp_all
      obtain cqo s2 where a2: "alloc_page E s1 = (cqo, s2)" by (metis surj_pair)
      show ?thesis
      proof (cases cqo)
        case None
        have s2: "pmm_frames E s2 (F - {a})" using pg.alloc_none [OF a(2)] a2 None by simp
        obtain s3 where s3: "free_page E a s2 = Some s3" "w' = w\<lparr>uw_pmm := s3\<rparr>"
          using assms(2) fits a1 Some a2 None by (auto simp: alloc_ring_def Let_def)
        obtain F3 where F3: "pmm_frames E s3 F3" "F3 \<subseteq> insert a (F - {a})" using pg.release_some [OF s2 _ s3(1)] by auto
        have "F3 \<subseteq> F" using F3(2) a(1) by blast
        then show ?thesis using F3(1) s3(2) ok pages_ok_mono by (auto intro!: uring_memI [of _ _ F3])
      next
        case cq: (Some b)
        have b: "b \<in> F" "a \<noteq> b" "pmm_frames E s2 (F - {a} - {b})" using pg.alloc_some [OF a(2)] a2 cq by auto
        have F2: "F - {a} - {b} = F - {a, b}" by blast
        note dropped = drop_new_ring_mem [OF b(3) F2 a(1) b(1,2), of p ?e _ w, OF _ ok]
        show ?thesis
        proof (cases "uw_rings w")
          case None
          then show ?thesis using assms(2) fits a1 Some a2 cq dropped by (auto simp: alloc_ring_def Let_def)
        next
          case t: (Some t)
          show ?thesis
          proof (cases "position Option.is_none t")
            case None
            then show ?thesis using assms(2) fits a1 Some a2 cq dropped t by (auto simp: alloc_ring_def Let_def)
          next
            case slot: (Some i)
            let ?r = "new_ring p ?e a b"
            have "pages_ok (t[i := Some ?r]) (F - {a, b})"
              using pages_ok_add [OF ok [OF t] position_none [OF slot], of ?r] a(1) b(1,2) by (simp add: new_ring_def)
            moreover have "w' = w\<lparr>uw_rings := Some (t[i := Some ?r]), uw_pmm := s2, uw_wq := (uw_wq w)(i := wq_new)\<rparr>"
              using assms(2) fits a1 Some a2 cq t slot by (simp add: alloc_ring_def Let_def)
            ultimately show ?thesis using b(3) unfolding F2 by (intro uring_memI [of _ _ "F - {a, b}"]) simp_all
          qed
        qed
      qed
    qed
  qed
qed

lemma free_ring_mem:
  assumes "uring_mem E w" "free_ring E idx w = Some w'"
  shows "uring_mem E w'"
proof (cases "\<exists>t r. uw_rings w = Some t \<and> idx < length t \<and> t ! idx = Some r")
  case False
  then have "w' = w" using assms(2) by (auto simp: free_ring_def split: option.splits if_splits)
  then show ?thesis using assms(1) by simp
next
  case True
  then obtain t r where t: "uw_rings w = Some t" "idx < length t" "t ! idx = Some r" by blast
  obtain F where F: "pmm_frames E (uw_pmm w) F" "\<And>t. uw_rings w = Some t \<Longrightarrow> pages_ok t F"
    using uring_memE [OF assms(1)] by metis
  have ok: "pages_ok t F" by (rule F(2) [OF t(1)])
  have out: "slot_pages (t ! idx) \<inter> F = {}" "ir_sq_pa r \<noteq> ir_cq_pa r" using ok t(2,3) unfolding pages_ok_def by blast+
  have "ir_sq_pa r \<notin> F" "ir_cq_pa r \<notin> F" using out(1) t(3) by (auto simp: slot_pages_def)
  moreover obtain s where s: "drop_ring E r (uw_pmm w) = Some s" "w' = w\<lparr>uw_rings := Some (t[idx := None]), uw_pmm := s\<rparr>"
    using assms(2) t by (auto simp: free_ring_def)
  ultimately obtain F' where "pmm_frames E s F'" "F' \<subseteq> F \<union> {ir_sq_pa r, ir_cq_pa r}"
    using drop_ring_frames [OF F(1) s(1) _ _ out(2)] by blast
  then show ?thesis using pages_ok_remove [OF ok t(2,3)] s(2) by (auto intro!: uring_memI [of _ _ F'])
qed

text \<open>
  The rings after any sequence of \<open>alloc_ring\<close>, \<open>free_ring\<close> and allocations of pages by other
  parts of the kernel, from the initialised table.
\<close>

inductive uring_reach :: "platform \<Rightarrow> 'k uring_world \<Rightarrow> 'k uring_world \<Rightarrow> bool" for E w0 where
  ring_start: "uring_reach E w0 (uring_init w0)"
| ring_alloc: "uring_reach E w0 w \<Longrightarrow> alloc_ring E p n w = Some (res, w') \<Longrightarrow> uring_reach E w0 w'"
| ring_free: "uring_reach E w0 w \<Longrightarrow> free_ring E idx w = Some w' \<Longrightarrow> uring_reach E w0 w'"
| ring_other: "uring_reach E w0 w \<Longrightarrow> alloc_page E (uw_pmm w) = (pa, s) \<Longrightarrow> uring_reach E w0 (w\<lparr>uw_pmm := s\<rparr>)"

lemma uring_init_mem: "pmm_frames E (uw_pmm w0) F \<Longrightarrow> uring_mem E (uring_init w0)"
  by (intro uring_memI [of _ _ F])
    (auto simp: uring_init_def pages_ok_def ring_table_new_def slot_pages_def)

lemma uring_reach_mem:
  assumes "uring_reach E w0 w" "pmm_frames E (uw_pmm w0) F0"
  shows "uring_mem E w"
  using assms(1)
proof (induction rule: uring_reach.induct)
  case ring_start
  show ?case by (rule uring_init_mem [OF assms(2)])
next
  case (ring_other w pa s)
  obtain F where F: "pmm_frames E (uw_pmm w) F" "\<And>t. uw_rings w = Some t \<Longrightarrow> pages_ok t F"
    using uring_memE [OF ring_other.IH] by metis
  show ?case
  proof (cases pa)
    case None
    then have "pmm_frames E s F" using pg.alloc_none [OF F(1)] ring_other.hyps(2) by simp
    then show ?thesis using F(2) by (intro uring_memI [of _ _ F]) simp_all
  next
    case (Some a)
    then have "pmm_frames E s (F - {a})" using pg.alloc_some [OF F(1)] ring_other.hyps(2) by simp
    moreover have "pages_ok t (F - {a})" if "uw_rings w = Some t" for t using pages_ok_mono [OF F(2) [OF that]] by blast
    ultimately show ?thesis by (intro uring_memI [of _ _ "F - {a}"]) simp_all
  qed
qed (use alloc_ring_mem free_ring_mem in blast)+

subsection \<open>Submitting\<close>

definition user_data_of :: "IoUringRing \<Rightarrow> u64 list" where
  "user_data_of r = map cqe_user_data (cq_content r)"

definition ring_at :: "nat \<Rightarrow> 'k uring_world \<Rightarrow> IoUringRing option" where
  "ring_at idx w = with_ring idx (\<lambda>r. r) w"

lemma ring_atE:
  assumes "ring_at idx w = Some r"
  obtains t where "uw_rings w = Some t" "idx < length t" "t ! idx = Some r"
  using assms by (auto simp: ring_at_def with_ring_def split: option.splits if_splits)

lemma ring_at_cong: "uw_rings w' = uw_rings w \<Longrightarrow> ring_at idx w' = ring_at idx w"
  by (simp add: ring_at_def with_ring_def)

lemma with_ring_mut_at:
  assumes "ring_at idx w = Some r" "f r = (a, r')"
  shows "fst (with_ring_mut idx f w) = Some a" "ring_at idx (snd (with_ring_mut idx f w)) = Some r'"
    "uw_wq (snd (with_ring_mut idx f w)) = uw_wq w"
proof -
  obtain t where t: "uw_rings w = Some t" "idx < length t" "t ! idx = Some r" by (rule ring_atE [OF assms(1)])
  then have "with_ring_mut idx f w = (Some a, w\<lparr>uw_rings := Some (t[idx := Some r'])\<rparr>)"
    using assms(2) by (simp add: with_ring_mut_def with_ring_def)
  then show "fst (with_ring_mut idx f w) = Some a" "ring_at idx (snd (with_ring_mut idx f w)) = Some r'"
    "uw_wq (snd (with_ring_mut idx f w)) = uw_wq w" using t by (simp_all add: ring_at_def with_ring_def)
qed

lemma post_at_ring:
  assumes "ring_at idx w = Some r"
  shows "ring_at idx (snd (post_at idx ud res fl w)) = Some (snd (post_ring ud res fl r))"
proof -
  obtain ok woken r' st where p: "post_cqe idx ud res fl (r, uw_wq w) = (ok, woken, r', st)" by (metis prod_cases4)
  have r': "r' = snd (post_ring ud res fl r)"
    using p by (auto simp: post_cqe_def Let_def split: prod.splits if_splits)
  let ?f = "\<lambda>r. let (ok, woken, r', st) = post_cqe idx ud res fl (r, uw_wq w) in ((woken, st), r')"
  have f: "?f r = ((woken, st), r')" using p by simp
  have "snd (post_at idx ud res fl w) = (snd (with_ring_mut idx ?f w))\<lparr>uw_wq := st\<rparr>"
    using with_ring_mut_at(1) [of idx w r ?f, OF assms f] by (cases "with_ring_mut idx ?f w") (simp add: post_at_def)
  then have "ring_at idx (snd (post_at idx ud res fl w)) = ring_at idx (snd (with_ring_mut idx ?f w))"
    by (simp add: ring_at_def with_ring_def)
  then show ?thesis using with_ring_mut_at(2) [of idx w r ?f, OF assms f] r' by simp
qed

lemma post_ring_user_data:
  assumes "cq_ok k r"
  shows "cq_ok k (snd (post_ring ud res fl r))"
    "user_data_of (snd (post_ring ud res fl r)) = user_data_of r @ take (2 ^ k - cq_count r) [ud]"
    "sq_content (snd (post_ring ud res fl r)) = sq_content r"
proof -
  let ?c = "\<lparr>cqe_user_data = ud, cqe_res = res, cqe_flags = fl\<rparr>"
  obtain ok r' where p: "post_ring ud res fl r = (ok, r')" by (metis surj_pair)
  have put: "cq_put ?c r = (if ok then [?c] else [], r')" using p by (simp add: cq_put_def)
  have "ok \<longleftrightarrow> cq_count r < 2 ^ k"
    using p assms
    by (auto simp: post_ring_def Let_def cq_ok_def ring_ok_def cq_count_def cq_available_def word_le_nat_alt split: if_splits)
  then show "cq_ok k (snd (post_ring ud res fl r))"
    "user_data_of (snd (post_ring ud res fl r)) = user_data_of r @ take (2 ^ k - cq_count r) [ud]"
    using post_ring_law [OF assms put] p by (auto simp: user_data_of_def take_Cons split: nat.split)
  show "sq_content (snd (post_ring ud res fl r)) = sq_content r"
    by (simp add: post_ring_def sq_content_def sq_count_def Let_def)
qed

lemma cq_count_user_data: "cq_count r = length (user_data_of r)"
  by (simp add: user_data_of_def cq_content_def)

lemma submit_loop_law:
  assumes "\<And>sqe w. uw_rings (snd (dispatch sqe idx w)) = uw_rings w"
    and "ring_at idx w = Some r" "cq_ok k r" "submit_loop dispatch idx sqes w = (n, woken, w')"
  shows "n = length sqes \<and> (\<exists>r'. ring_at idx w' = Some r' \<and> cq_ok k r' \<and> sq_content r' = sq_content r \<and>
    user_data_of r' = user_data_of r @ take (2 ^ k - cq_count r) (map sqe_user_data sqes))"
  using assms(2-)
proof (induction sqes arbitrary: w r n woken w')
  case Nil
  then show ?case by auto
next
  case (Cons sqe sqes)
  obtain res fl w1 where d: "dispatch sqe idx w = ((res, fl), w1)" by (metis surj_pair)
  obtain wk w2 where p: "post_at idx (sqe_user_data sqe) res fl w1 = (wk, w2)" by (metis surj_pair)
  obtain m more w3 where l: "submit_loop dispatch idx sqes w2 = (m, more, w3)" by (metis prod_cases3)
  let ?r = "snd (post_ring (sqe_user_data sqe) res fl r)"
  have "ring_at idx w1 = Some r" using Cons.prems(1) assms(1) [of sqe w] d ring_at_cong [of w1 w] by simp
  then have at: "ring_at idx w2 = Some ?r" using post_at_ring [of idx w1 r "sqe_user_data sqe" res fl] p by simp
  note pr = post_ring_user_data [OF Cons.prems(2), of "sqe_user_data sqe" res fl]
  from Cons.IH [OF at pr(1) l] obtain r' where
    r': "m = length sqes" "ring_at idx w3 = Some r'" "cq_ok k r'" "sq_content r' = sq_content ?r"
      "user_data_of r' = user_data_of ?r @ take (2 ^ k - cq_count ?r) (map sqe_user_data sqes)" by blast
  have "take (2 ^ k - cq_count r) [sqe_user_data sqe] @ take (2 ^ k - cq_count ?r) (map sqe_user_data sqes)
      = take (2 ^ k - cq_count r) (map sqe_user_data (sqe # sqes))"
  proof (cases "2 ^ k - cq_count r")
    case 0
    then show ?thesis using pr(2) by (simp add: cq_count_user_data)
  next
    case (Suc x)
    then have "cq_count ?r = Suc (cq_count r)" using pr(2) by (simp add: cq_count_user_data)
    then have "2 ^ k - cq_count ?r = x" using Suc by simp
    then show ?thesis using Suc by simp
  qed
  then show ?case using Cons.prems(3) d p l r' pr(2,3) by auto
qed

subsection \<open>Properties\<close>

text \<open>
  C21. Both rings of a new instance are bounded queues under every interleaving of producers
  and consumers, across the wrap-around of their 32-bit counters: what was accepted is what
  was taken followed by what is pending, and no more than the number of entries is pending.
\<close>

theorem uring_rings_fifo:
  "(case fifo_run sq_put sq_get sops (new_ring p (ring_entries_for n) a b) of
      (pushed, drained, r) \<Rightarrow> pushed = drained @ sq_content r \<and> length (sq_content r) \<le> unat (ring_entries_for n)) \<and>
   (case fifo_run cq_put reap cops (new_ring p (ring_entries_for n) a b) of
      (posted, reaped, r) \<Rightarrow> posted = reaped @ cq_content r \<and> length (cq_content r) \<le> unat (ring_entries_for n))"
proof -
  let ?r = "new_ring p (ring_entries_for n) a b"
  obtain k where k: "k \<le> 12" "unat (ring_entries_for n) = 2 ^ k" using ring_entries_pow2 [of n] by blast
  note new = ring_new_ok [OF k, of p a b]
  obtain ws rs r1 where s: "fifo_run sq_put sq_get sops ?r = (ws, rs, r1)" by (metis prod_cases3)
  obtain xs ys r2 where c: "fifo_run cq_put reap cops ?r = (xs, ys, r2)" by (metis prod_cases3)
  show ?thesis
    using sqf.run_law [OF new(1) s] sqf.run_bounded [OF new(1) s] cqf.run_law [OF new(2) c] cqf.run_bounded [OF new(2) c]
      new(3-5) s c k(2) by simp
qed

text \<open>
  C22. Whatever the user writes into the shared headers and the index array, draining the
  submission ring stays inside the ring: every index used is in range, at most as many
  entries as the ring has are returned, each of them an entry of the ring or a no-op, and
  the ring is empty afterwards.
\<close>

theorem drain_sq_safe:
  assumes "ring_ok k r"
  shows "length (fst (drain_sq r)) \<le> 2 ^ k \<and> set (fst (drain_sq r)) \<subseteq> insert sqe_default (set (ir_sqes r)) \<and>
    ring_ok k (snd (drain_sq r)) \<and> sq_count (snd (drain_sq r)) = 0 \<and>
    (\<forall>at. unat (at AND ring_mask r) < length (ir_sq_array r))"
proof -
  let ?l = "drain_loop (sq_count r) (ir_sq_head r) r"
  have e: "unat (ir_entries r) = 2 ^ k" and k: "k \<le> 12" using assms by (auto simp: ring_ok_def)
  have "unat (at AND ring_mask r) < length (ir_sq_array r)" for at
    using unat_mask_index [of k "ir_entries r" at] e k assms by (simp add: ring_mask_def ring_ok_def)
  moreover obtain d where "snd ?l = r\<lparr>ir_sq_dropped := d\<rparr>" "length (fst ?l) = sq_count r"
      "set (fst ?l) \<subseteq> insert sqe_default (set (ir_sqes r))"
    using drain_loop_safe [of "sq_count r" "ir_sq_head r" r] assms by (auto simp: ring_ok_def)
  ultimately show ?thesis
    using assms e by (auto simp: drain_sq_def sq_count_def ring_ok_def Let_def split: prod.split)
qed

theorem drain_sq_safe_witness:
  "length (fst (drain_sq ((new_ring 1 4 0x1000 0x2000)\<lparr>ir_sq_head := 0xFFFFFFFF, ir_sq_tail := 2, ir_sq_array := [9, 9, 9, 9]\<rparr>))) \<le> 4"
  using drain_sq_safe [of 2 "(new_ring 1 4 0x1000 0x2000)\<lparr>ir_sq_head := 0xFFFFFFFF, ir_sq_tail := 2, ir_sq_array := [9, 9, 9, 9]\<rparr>"]
  by (simp add: ring_ok_def new_ring_def)

text \<open>
  C20. The pages of rings are never shared: after any sequence of ring allocations, ring
  releases and page allocations elsewhere in the kernel, the pages of two live rings are
  different, the two pages of a ring are different, and none of them is free in the
  physical memory manager.
\<close>

theorem uring_pages_owned:
  assumes "pmm_frames E (uw_pmm w0) F0" "uring_reach E w0 w"
  shows "\<exists>F. pmm_frames E (uw_pmm w) F \<and>
    (\<forall>i r. ring_at i w = Some r \<longrightarrow> ir_sq_pa r \<notin> F \<and> ir_cq_pa r \<notin> F \<and> ir_sq_pa r \<noteq> ir_cq_pa r \<and>
       (\<forall>j q. ring_at j w = Some q \<longrightarrow> j \<noteq> i \<longrightarrow> {ir_sq_pa r, ir_cq_pa r} \<inter> {ir_sq_pa q, ir_cq_pa q} = {}))"
proof -
  obtain F where F: "pmm_frames E (uw_pmm w) F" "\<And>t. uw_rings w = Some t \<Longrightarrow> pages_ok t F"
    using uring_memE [OF uring_reach_mem [OF assms(2,1)]] by metis
  have one: "ir_sq_pa r \<notin> F \<and> ir_cq_pa r \<notin> F \<and> ir_sq_pa r \<noteq> ir_cq_pa r" if at: "ring_at i w = Some r" for i r
  proof -
    obtain t where t: "uw_rings w = Some t" "i < length t" "t ! i = Some r" by (rule ring_atE [OF at])
    then have "slot_pages (t ! i) \<inter> F = {} \<and> ir_sq_pa r \<noteq> ir_cq_pa r" using F(2) [OF t(1)] unfolding pages_ok_def by blast
    then show ?thesis using t(3) by (auto simp: slot_pages_def)
  qed
  have two: "{ir_sq_pa r, ir_cq_pa r} \<inter> {ir_sq_pa q, ir_cq_pa q} = {}"
    if at: "ring_at i w = Some r" "ring_at j w = Some q" "j \<noteq> i" for i j r q
  proof -
    obtain t where t: "uw_rings w = Some t" "i < length t" "t ! i = Some r" by (rule ring_atE [OF at(1)])
    have j: "j < length t" "t ! j = Some q" using ring_atE [OF at(2)] t(1) by auto
    then have "slot_pages (t ! i) \<inter> slot_pages (t ! j) = {}" using F(2) [OF t(1)] t(2) at(3) unfolding pages_ok_def by blast
    then show ?thesis using t(3) j(2) by (simp add: slot_pages_def)
  qed
  show ?thesis using F(1) one two by blast
qed

text \<open>
  \<open>io_uring_enter\<close> answers the number of entries it submits, the smaller one of the request
  and the pending entries. It posts one completion for each, in order, as far as the
  completion ring has room, and drops the further completions. It also removes the pending
  entries it does not submit: the submission ring is empty afterwards.
\<close>

theorem enter_submits:
  assumes "ring_idx_for_fd cur fd w = Some idx" "ring_at idx w = Some r" "sq_ok k r" "cq_ok k r"
    and "\<And>sqe w. uw_rings (snd (dispatch sqe idx w)) = uw_rings w"
    and "sys_io_uring_enter dispatch getevents cur fd to_submit min_complete flags w = (out, woken, w')"
    and "n = min (unat to_submit) (length (sq_content r))"
  shows "out \<in> {EDone (int n), EWait n} \<and>
    (\<exists>r'. ring_at idx w' = Some r' \<and> sq_content r' = [] \<and>
       user_data_of r' = user_data_of r @ take (2 ^ k - cq_count r) (map sqe_user_data (take n (sq_content r))))"
proof -
  let ?r1 = "r\<lparr>ir_sq_head := ir_sq_tail r\<rparr>"
  have r1: "cq_ok k ?r1" "user_data_of ?r1 = user_data_of r" "cq_count ?r1 = cq_count r" "sq_content ?r1 = []"
    using assms(4)
    by (simp_all add: cq_ok_def ring_ok_def cq_count_def cq_available_def user_data_of_def cq_content_def
        sq_content_def sq_count_def ring_view_def)
  obtain w1 where w1: "with_ring_mut idx drain_sq w = (Some (sq_content r), w1)" "ring_at idx w1 = Some ?r1"
    using with_ring_mut_at [where f = drain_sq, OF assms(2) drain_sq_eq [OF assms(3)]] by (metis prod.collapse)
  obtain m wk w2 where l: "submit_loop dispatch idx (take n (sq_content r)) w1 = (m, wk, w2)" by (metis prod_cases3)
  from submit_loop_law [OF assms(5) w1(2) r1(1) l] obtain r' where
    r': "m = n" "ring_at idx w2 = Some r'" "sq_content r' = []"
      "user_data_of r' = user_data_of r @ take (2 ^ k - cq_count r) (map sqe_user_data (take n (sq_content r)))"
    using r1 assms(7) by auto
  have live: "with_ring idx (\<lambda>r. ()) w2 = Some ()" using r'(2) by (auto simp: ring_at_def with_ring_def split: option.splits if_splits)
  have "w' = w2 \<and> out \<in> {EDone (int n), EWait n}"
    using assms(1,6,7) w1(1) l r'(1) live by (auto simp: sys_io_uring_enter_def enter_check_def Let_def split: if_splits)
  then show ?thesis using r' by blast
qed

definition demo_uring :: "unit uring_world" where
  "demo_uring = \<lparr>uw_rings = None, uw_pmm = demo_pmm, uw_wq = (\<lambda>_. wq_new), uw_other = ()\<rparr>"

lemma position_hd: "P x \<Longrightarrow> position P (x # xs) = Some 0"
  by (simp add: position_def)

lemma ring_table_new_Cons: "ring_table_new = None # replicate 1023 None"
proof -
  have m: "MAX_RINGS = Suc 1023" by (simp add: MAX_RINGS_def)
  show ?thesis unfolding ring_table_new_def m replicate_Suc by (rule refl)
qed

theorem uring_pages_owned_witness:
  "\<exists>w. uring_reach demo_platform demo_uring w \<and> ring_at 0 w = Some (new_ring 1 4 0x3000 0x2000) \<and>
     (\<exists>F. pmm_frames demo_platform (uw_pmm w) F \<and> 0x3000 \<notin> F \<and> 0x2000 \<notin> F)"
proof -
  have e: "ring_entries_for 4 = 4"
    by (simp add: ring_entries_for_def clamp_def MAX_ENTRIES_def next_power_of_two_def upt_rec)
  obtain s1 where s1: "alloc_page demo_platform demo_pmm = (Some 0x3000, s1)" using demo_alloc(1) by (metis prod.collapse)
  obtain s2 where s2: "alloc_page demo_platform s1 = (Some 0x2000, s2)" using demo_alloc(2) s1 by (metis prod.collapse snd_conv)
  let ?w = "(uring_init demo_uring)\<lparr>uw_rings := Some (ring_table_new[0 := Some (new_ring 1 4 0x3000 0x2000)]), uw_pmm := s2,
      uw_wq := (\<lambda>_. wq_new)(0 := wq_new)\<rparr>"
  have pos: "position Option.is_none ring_table_new = Some 0" by (simp add: ring_table_new_Cons position_hd)
  have "alloc_ring demo_platform 1 4 (uring_init demo_uring) = Some (Inr 0, ?w)"
    using s1 s2 pos
    by (simp add: alloc_ring_def e RING_HDR_SIZE_def SQE_SIZE_def CQE_SIZE_def PAGE_SIZE_def uring_init_def demo_uring_def Let_def)
  then have reach: "uring_reach demo_platform demo_uring ?w" by (rule ring_alloc [OF ring_start])
  have at: "ring_at 0 ?w = Some (new_ring 1 4 0x3000 0x2000)" by (simp add: ring_at_def with_ring_def ring_table_new_Cons)
  have "\<exists>F0. pmm_frames demo_platform (uw_pmm demo_uring) F0"
    using demo_pmm_ok unfolding pmm_frames_def demo_uring_def by auto
  then obtain F0 where F0: "pmm_frames demo_platform (uw_pmm demo_uring) F0" by blast
  from uring_pages_owned [OF F0 reach] at have
    "\<exists>F. pmm_frames demo_platform (uw_pmm ?w) F \<and> 0x3000 \<notin> F \<and> 0x2000 \<notin> F" by (force simp: new_ring_def)
  then show ?thesis using reach at by blast
qed

definition demo_sqe :: "u64 \<Rightarrow> IoUringSqe" where
  "demo_sqe ud = sqe_default\<lparr>sqe_user_data := ud\<rparr>"

definition demo_ring :: IoUringRing where
  "demo_ring = (snd (push_sqe (demo_sqe 8) (snd (push_sqe (demo_sqe 7) (new_ring 1 4 0x3000 0x2000)))))\<lparr>ir_fd := 5\<rparr>"

definition demo_dispatch :: "unit dispatcher" where
  "demo_dispatch sqe idx w = ((0, 0), w)"

lemma replicate_4: "replicate 4 x = [x, x, x, x]"
  by (simp add: numeral_eq_Suc)

theorem enter_submits_witness:
  "\<exists>out woken w' r'. sys_io_uring_enter demo_dispatch 1 1 5 1 0 0 (demo_uring\<lparr>uw_rings := Some [Some demo_ring]\<rparr>) = (out, woken, w') \<and>
     sq_content demo_ring = [demo_sqe 7, demo_sqe 8] \<and>
     ring_at 0 w' = Some r' \<and> sq_content r' = [] \<and> user_data_of r' = [7]"
proof -
  let ?w = "demo_uring\<lparr>uw_rings := Some [Some demo_ring]\<rparr>"
  have ring: "demo_ring = (new_ring 1 4 0x3000 0x2000)\<lparr>ir_fd := 5, ir_sqes := [demo_sqe 7, demo_sqe 8, sqe_default, sqe_default],
      ir_sq_array := [0, 1, 0, 0], ir_sq_tail := 2\<rparr>"
    by (simp add: demo_ring_def push_sqe_def new_ring_def ring_mask_def replicate_4 word_le_nat_alt Let_def)
  have c: "sq_content demo_ring = [demo_sqe 7, demo_sqe 8]" "user_data_of demo_ring = []" "cq_count demo_ring = 0"
    by (simp_all add: ring sq_content_def user_data_of_def cq_content_def cq_count_def cq_available_def sq_count_def ring_view_def
        new_ring_def upt_rec)
  have ok: "sq_ok 2 demo_ring" "cq_ok 2 demo_ring"
    by (auto simp: ring sq_ok_def cq_ok_def ring_ok_def sq_count_def cq_count_def cq_available_def new_ring_def less_2_cases_iff)
  have at: "ring_at 0 ?w = Some demo_ring" by (simp add: ring_at_def with_ring_def)
  have idx: "ring_idx_for_fd 1 5 ?w = Some 0" by (simp add: ring_idx_for_fd_def position_def ring new_ring_def)
  obtain out woken w' where en: "sys_io_uring_enter demo_dispatch 1 1 5 1 0 0 ?w = (out, woken, w')" by (metis prod_cases3)
  from enter_submits [OF idx at ok _ en refl] c
  have "\<exists>r'. ring_at 0 w' = Some r' \<and> sq_content r' = [] \<and> user_data_of r' = [7]"
    by (auto simp: demo_dispatch_def demo_sqe_def)
  then show ?thesis using en c by blast
qed

end
