(* ===== verification/Endpoint.thy ===== *)
theory Endpoint
  imports Uaccess
begin

section \<open>Message endpoints of userspace services\<close>

text \<open>
  The endpoints of \<^verbatim>\<open>src/ipc/mod.rs\<close>: two bounded queues per endpoint, requests and interrupt
  notifications from the kernel to the server, replies from the server to the kernel. The
  kernel side uses \<open>endpoint_send\<close> and \<open>endpoint_recv\<close>, the server side the system calls
  \<open>sys_ipc_recv\<close> and \<open>sys_ipc_send\<close>, which check that the caller owns the endpoint.
  The lemmas of the last part show that in every run of these operations each queue is a
  bounded first-in first-out stream between the kernel and the owner of the endpoint.
\<close>

definition IPC_MAX_MESSAGE :: nat where "IPC_MAX_MESSAGE = 64 * 1024"

definition IPC_MAX_QUEUE_DEPTH :: nat where "IPC_MAX_QUEUE_DEPTH = 128"

record EndpointState =
  owner_pid :: nat
  to_server :: "u8 list list"
  to_kernel :: "u8 list list"

text \<open>\<open>NEXT_ENDPOINT\<close> and \<open>ENDPOINTS\<close>.\<close>

record ep_store =
  ep_next :: nat
  ep_tab :: "(nat, EndpointState) btree"

definition ep_init :: ep_store where
  "ep_init = \<lparr>ep_next = 1, ep_tab = []\<rparr>"

definition valid_message_len :: "nat \<Rightarrow> bool" where
  "valid_message_len len \<longleftrightarrow> len \<le> IPC_MAX_MESSAGE"

definition endpoint_create_for_current :: "nat \<Rightarrow> ep_store \<Rightarrow> nat \<times> ep_store" where
  "endpoint_create_for_current cur st =
     (let i = ep_next st
      in (i, \<lparr>ep_next = wadd i 1,
              ep_tab = bt_insert i \<lparr>owner_pid = cur, to_server = [], to_kernel = []\<rparr> (ep_tab st)\<rparr>))"

definition endpoint_exists :: "nat \<Rightarrow> ep_store \<Rightarrow> bool" where
  "endpoint_exists ep st \<longleftrightarrow> bt_get (ep_tab st) ep \<noteq> None"

definition endpoint_owned_by_current :: "nat \<Rightarrow> nat \<Rightarrow> ep_store \<Rightarrow> bool" where
  "endpoint_owned_by_current cur ep st =
     (case bt_get (ep_tab st) ep of None \<Rightarrow> False | Some e \<Rightarrow> owner_pid e = cur)"

definition endpoint_cleanup_pid :: "nat \<Rightarrow> ep_store \<Rightarrow> ep_store" where
  "endpoint_cleanup_pid p st = st\<lparr>ep_tab := filter (\<lambda>(_, e). owner_pid e \<noteq> p) (ep_tab st)\<rparr>"

text \<open>\<open>True\<close> is \<open>Ok(())\<close>.\<close>

definition endpoint_send :: "nat \<Rightarrow> u8 list \<Rightarrow> ep_store \<Rightarrow> bool \<times> ep_store" where
  "endpoint_send ep bytes st =
     (if \<not> valid_message_len (length bytes) then (False, st)
      else case bt_get (ep_tab st) ep of
        None \<Rightarrow> (False, st)
      | Some e \<Rightarrow>
          if length (to_server e) \<ge> IPC_MAX_QUEUE_DEPTH then (False, st)
          else (True, st\<lparr>ep_tab := bt_modify ep (\<lambda>e. e\<lparr>to_server := to_server e @ [bytes]\<rparr>) (ep_tab st)\<rparr>))"

definition endpoint_recv :: "nat \<Rightarrow> ep_store \<Rightarrow> u8 list option \<times> ep_store" where
  "endpoint_recv ep st =
     (case bt_get (ep_tab st) ep of
        None \<Rightarrow> (None, st)
      | Some e \<Rightarrow>
          (case to_kernel e of
             [] \<Rightarrow> (None, st)
           | m # ms \<Rightarrow> (Some m, st\<lparr>ep_tab := bt_modify ep (\<lambda>e. e\<lparr>to_kernel := ms\<rparr>) (ep_tab st)\<rparr>)))"

definition endpoint_notify_server :: "nat \<Rightarrow> u8 list \<Rightarrow> ep_store \<Rightarrow> bool \<times> ep_store" where
  "endpoint_notify_server ep bytes st = endpoint_send ep bytes st"

definition sys_ipc_endpoint_create :: "nat \<Rightarrow> ep_store \<Rightarrow> int \<times> ep_store" where
  "sys_ipc_endpoint_create cur st =
     (let (i, st') = endpoint_create_for_current cur st in (signed_take_bit 63 (int i), st'))"

text \<open>
  The first component is the return value, the second the user memory: \<open>None\<close> where a faulting
  copy leaves it unspecified.
\<close>

definition sys_ipc_recv :: "nat \<Rightarrow> nat \<Rightarrow> nat \<Rightarrow> nat \<Rightarrow> umem \<Rightarrow> ep_store \<Rightarrow> int \<times> umem option \<times> ep_store" where
  "sys_ipc_recv cur ep buf_va buf_len um st =
     (if buf_len = 0 \<or> \<not> validate_user_ptr buf_va buf_len then (- 14, Some um, st)
      else if \<not> endpoint_owned_by_current cur ep st then (- 1, Some um, st)
      else case bt_get (ep_tab st) ep of
        None \<Rightarrow> (- 11, Some um, st)
      | Some e \<Rightarrow>
          (case to_server e of
             [] \<Rightarrow> (- 11, Some um, st)
           | m # ms \<Rightarrow>
               let st' = st\<lparr>ep_tab := bt_modify ep (\<lambda>e. e\<lparr>to_server := ms\<rparr>) (ep_tab st)\<rparr>;
                   n = min (length m) buf_len
               in (case copy_to_user um buf_va (take n m) of
                     None \<Rightarrow> (- 14, None, st')
                   | Some um' \<Rightarrow> (int n, Some um', st'))))"

definition sys_ipc_send :: "nat \<Rightarrow> nat \<Rightarrow> nat \<Rightarrow> nat \<Rightarrow> umem \<Rightarrow> ep_store \<Rightarrow> int \<times> ep_store" where
  "sys_ipc_send cur ep buf_va buf_len um st =
     (if \<not> valid_message_len buf_len \<or> \<not> validate_user_ptr buf_va buf_len then (- 14, st)
      else if \<not> endpoint_owned_by_current cur ep st then (- 1, st)
      else case copy_from_user um buf_va buf_len of
        None \<Rightarrow> (- 14, st)
      | Some msg \<Rightarrow>
          (case bt_get (ep_tab st) ep of
             None \<Rightarrow> (- 111, st)
           | Some e \<Rightarrow>
               if length (to_kernel e) \<ge> IPC_MAX_QUEUE_DEPTH then (- 11, st)
               else (int buf_len,
                     st\<lparr>ep_tab := bt_modify ep (\<lambda>e. e\<lparr>to_kernel := to_kernel e @ [msg]\<rparr>) (ep_tab st)\<rparr>)))"

subsection \<open>Runs\<close>

text \<open>
  The operations as steps, with the process that makes a system call. An event records what a
  step did: what the kernel queued and took, what a server sent, and for a receiving server the
  size of its buffer and the bytes it then finds in its memory, \<open>None\<close> if the copy faulted.
\<close>

datatype ep_op =
    Create nat
  | Cleanup nat
  | Send nat "u8 list"
  | Recv nat
  | IpcRecv nat nat nat nat umem
  | IpcSend nat nat nat nat umem

datatype ep_event =
    Sent nat "u8 list"
  | Got nat "u8 list"
  | Served nat nat "nat \<times> u8 list option"
  | Replied nat nat "u8 list"

definition recv_event :: "nat \<Rightarrow> nat \<Rightarrow> nat \<Rightarrow> nat \<Rightarrow> int \<times> umem option \<times> ep_store \<Rightarrow> ep_event list" where
  "recv_event cur ep va len = (\<lambda>(r, um, st).
     case um of
       None \<Rightarrow> [Served cur ep (len, None)]
     | Some um \<Rightarrow> if r < 0 then [] else [Served cur ep (len, copy_from_user um va (nat r))])"

fun ep_step :: "ep_op \<Rightarrow> ep_store \<Rightarrow> ep_event list \<times> ep_store" where
  "ep_step (Create p) st = ([], snd (endpoint_create_for_current p st))"
| "ep_step (Cleanup p) st = ([], endpoint_cleanup_pid p st)"
| "ep_step (Send ep b) st = (let (ok, st') = endpoint_send ep b st in (if ok then [Sent ep b] else [], st'))"
| "ep_step (Recv ep) st =
     (let (r, st') = endpoint_recv ep st in (case r of None \<Rightarrow> [] | Some m \<Rightarrow> [Got ep m], st'))"
| "ep_step (IpcRecv p ep va len um) st =
     (let r = sys_ipc_recv p ep va len um st in (recv_event p ep va len r, snd (snd r)))"
| "ep_step (IpcSend p ep va len um) st =
     (let (r, st') = sys_ipc_send p ep va len um st
      in (if r < 0 then [] else [Replied p ep (the (copy_from_user um va len))], st'))"

fun ep_run :: "ep_op list \<Rightarrow> ep_store \<Rightarrow> ep_event list \<times> ep_store" where
  "ep_run [] st = ([], st)"
| "ep_run (a # as) st = (let (evs, st1) = ep_step a st; (evs', st2) = ep_run as st1 in (evs @ evs', st2))"

definition sent :: "nat \<Rightarrow> ep_event list \<Rightarrow> u8 list list" where
  "sent ep evs = List.map_filter (\<lambda>ev. case ev of Sent i b \<Rightarrow> if i = ep then Some b else None | _ \<Rightarrow> None) evs"

definition got :: "nat \<Rightarrow> ep_event list \<Rightarrow> u8 list list" where
  "got ep evs = List.map_filter (\<lambda>ev. case ev of Got i b \<Rightarrow> if i = ep then Some b else None | _ \<Rightarrow> None) evs"

definition served :: "nat \<Rightarrow> ep_event list \<Rightarrow> (nat \<times> nat \<times> u8 list option) list" where
  "served ep evs = List.map_filter (\<lambda>ev. case ev of Served p i b \<Rightarrow> if i = ep then Some (p, b) else None | _ \<Rightarrow> None) evs"

definition replied :: "nat \<Rightarrow> ep_event list \<Rightarrow> (nat \<times> u8 list) list" where
  "replied ep evs = List.map_filter (\<lambda>ev. case ev of Replied p i b \<Rightarrow> if i = ep then Some (p, b) else None | _ \<Rightarrow> None) evs"

text \<open>What the owner \<open>q\<close> finds in a buffer of the given size when it is served the message.\<close>

definition delivered :: "nat \<Rightarrow> nat \<times> nat \<times> u8 list option \<Rightarrow> u8 list \<Rightarrow> bool" where
  "delivered q = (\<lambda>(p, n, b) m. p = q \<and> (b = None \<or> b = Some (take n m)))"

definition ep_law :: "nat \<Rightarrow> EndpointState \<Rightarrow> ep_event list \<Rightarrow> EndpointState \<Rightarrow> bool" where
  "ep_law ep e evs e' \<longleftrightarrow>
     owner_pid e' = owner_pid e \<and>
     (\<exists>ms. to_server e @ sent ep evs = ms @ to_server e' \<and> list_all2 (delivered (owner_pid e)) (served ep evs) ms) \<and>
     to_kernel e @ map snd (replied ep evs) = got ep evs @ to_kernel e' \<and>
     fst ` set (replied ep evs) \<subseteq> {owner_pid e} \<and>
     (length (to_server e) \<le> IPC_MAX_QUEUE_DEPTH \<longrightarrow> length (to_server e') \<le> IPC_MAX_QUEUE_DEPTH) \<and>
     (length (to_kernel e) \<le> IPC_MAX_QUEUE_DEPTH \<longrightarrow> length (to_kernel e') \<le> IPC_MAX_QUEUE_DEPTH)"

lemmas event_simps = sent_def got_def served_def replied_def List.map_filter_simps

lemma events_append [simp]:
  "sent ep (a @ b) = sent ep a @ sent ep b" "got ep (a @ b) = got ep a @ got ep b"
  "served ep (a @ b) = served ep a @ served ep b" "replied ep (a @ b) = replied ep a @ replied ep b"
  by (simp_all add: sent_def got_def served_def replied_def List.map_filter_def)

lemma ep_law_refl: "ep_law ep e [] e"
  by (auto simp: ep_law_def event_simps)

lemma stream_trans: "a @ x = b @ c \<Longrightarrow> c @ y = d @ e \<Longrightarrow> a @ x @ y = (b @ d) @ e"
  by (metis append_assoc)

lemma ep_law_trans:
  assumes 1: "ep_law ep e evs e1" and 2: "ep_law ep e1 evs' e2"
  shows "ep_law ep e (evs @ evs') e2"
proof -
  obtain ms where ms: "to_server e @ sent ep evs = ms @ to_server e1"
      "list_all2 (delivered (owner_pid e)) (served ep evs) ms" using 1 by (auto simp: ep_law_def)
  obtain ms' where ms': "to_server e1 @ sent ep evs' = ms' @ to_server e2"
      "list_all2 (delivered (owner_pid e)) (served ep evs') ms'" using 1 2 by (auto simp: ep_law_def)
  have "to_server e @ sent ep (evs @ evs') = (ms @ ms') @ to_server e2"
    using stream_trans [OF ms(1) ms'(1)] by simp
  moreover have "list_all2 (delivered (owner_pid e)) (served ep (evs @ evs')) (ms @ ms')"
    using ms(2) ms'(2) by (simp add: list_all2_appendI)
  moreover have "to_kernel e @ map snd (replied ep (evs @ evs')) = got ep (evs @ evs') @ to_kernel e2"
    using stream_trans [of "to_kernel e" "map snd (replied ep evs)" "got ep evs" "to_kernel e1"] 1 2 by (simp add: ep_law_def)
  ultimately show ?thesis using 1 2 unfolding ep_law_def by (auto simp del: events_append simp add: events_append(4))
qed

text \<open>An endpoint is affected only by its own operations, by its owner's exit and by a wrapped identifier.\<close>

lemma cleanup_get:
  assumes "bt_wf t"
  shows "bt_get (filter (\<lambda>(_, e). owner_pid e \<noteq> p) t) ep =
    (case bt_get t ep of None \<Rightarrow> None | Some e \<Rightarrow> if owner_pid e = p then None else Some e)"
  using bt_wf_distinct [OF assms]
  by (induction t) (auto split: option.splits simp: map_of_eq_None_iff)

lemma cleanup_wf: "bt_wf t \<Longrightarrow> bt_wf (filter P t)"
  by (induction t) (auto simp: bt_wf_def)

lemmas ep_ops = endpoint_create_for_current_def endpoint_cleanup_pid_def endpoint_send_def endpoint_recv_def
  sys_ipc_recv_def sys_ipc_send_def endpoint_owned_by_current_def Let_def

lemma ep_law_send:
  assumes "bt_get (ep_tab st) ep = Some e" "ep_step (Send i b) st = (evs, st')"
  shows "\<exists>e'. bt_get (ep_tab st') ep = Some e' \<and> ep_law ep e evs e'"
  using assms by (auto simp: ep_ops btree_simps ep_law_def event_simps split: if_splits option.splits)

lemma ep_law_recv:
  assumes "bt_get (ep_tab st) ep = Some e" "ep_step (Recv i) st = (evs, st')"
  shows "\<exists>e'. bt_get (ep_tab st') ep = Some e' \<and> ep_law ep e evs e'"
  using assms by (auto simp: ep_ops btree_simps ep_law_def event_simps split: if_splits option.splits list.splits)

lemma ep_law_ipc_send:
  assumes "bt_get (ep_tab st) ep = Some e" "ep_step (IpcSend p i va len um) st = (evs, st')"
  shows "\<exists>e'. bt_get (ep_tab st') ep = Some e' \<and> ep_law ep e evs e'"
  using assms by (auto simp: ep_ops btree_simps ep_law_def event_simps split: if_splits option.splits list.splits)

lemma ipc_recv_delivers:
  assumes "copy_to_user um va (take (min (length m) len) m) = Some um'"
  shows "copy_from_user um' va (min (length m) len) = Some (take len m)"
  using copy_to_from_user [OF assms] by (simp add: min_def split: if_splits)

lemma ep_law_ipc_recv:
  assumes "bt_get (ep_tab st) ep = Some e" "ep_step (IpcRecv p i va len um) st = (evs, st')"
  shows "\<exists>e'. bt_get (ep_tab st') ep = Some e' \<and> ep_law ep e evs e'"
proof (cases "\<exists>m ms. to_server e = m # ms \<and> i = ep \<and> p = owner_pid e \<and> len \<noteq> 0 \<and> validate_user_ptr va len")
  case True
  then obtain m ms where m: "to_server e = m # ms" "i = ep" "p = owner_pid e" "len \<noteq> 0" "validate_user_ptr va len" by auto
  have st': "st' = st\<lparr>ep_tab := bt_modify ep (\<lambda>e. e\<lparr>to_server := ms\<rparr>) (ep_tab st)\<rparr>"
    using assms m by (auto simp: ep_ops split: option.splits)
  have evs: "\<exists>b. evs = [Served p ep (len, b)] \<and> (b = None \<or> b = Some (take len m))"
    using assms m ipc_recv_delivers [of um va m len] by (auto simp: ep_ops recv_event_def split: option.splits)
  then show ?thesis using assms(1) m st' by (auto simp: btree_simps ep_law_def event_simps delivered_def)
next
  case False
  have "evs = [] \<and> bt_get (ep_tab st') ep = Some e \<or> (\<exists>b. evs = [Served p i b] \<and> i \<noteq> ep \<and> bt_get (ep_tab st') ep = Some e)"
    using assms False by (auto simp: ep_ops recv_event_def btree_simps split: option.splits list.splits if_splits)
  then show ?thesis using ep_law_refl [of ep e] by (auto simp: ep_law_def event_simps)
qed

lemma ep_step_frame:
  assumes "bt_wf (ep_tab st)" "ep_step opr st = (evs, st')" "\<And>p. opr \<noteq> Create p"
  shows "bt_wf (ep_tab st') \<and> ep_next st' = ep_next st"
proof (cases opr)
  case (IpcRecv p i va len um)
  then show ?thesis using assms(1,2)
    by (auto simp: ep_ops bt_wf_modify split: option.splits list.splits if_splits)
next
  case (IpcSend p i va len um)
  then show ?thesis using assms(1,2)
    by (auto simp: ep_ops bt_wf_modify split: option.splits if_splits)
qed (use assms in \<open>auto simp: ep_ops bt_wf_modify cleanup_wf split: option.splits list.splits if_splits\<close>)

lemma ep_law_step:
  assumes "bt_wf (ep_tab st)" "bt_get (ep_tab st) ep = Some e" "ep < ep_next st" "Suc (ep_next st) < 2 ^ 64"
    and "opr \<noteq> Cleanup (owner_pid e)" "ep_step opr st = (evs, st')"
  shows "(\<exists>e'. bt_get (ep_tab st') ep = Some e' \<and> ep_law ep e evs e') \<and> bt_wf (ep_tab st') \<and>
    ep_next st \<le> ep_next st' \<and> ep_next st' \<le> Suc (ep_next st)"
proof (cases "\<exists>p. opr = Create p")
  case True
  then have "bt_get (ep_tab st') ep = Some e" "evs = []" "bt_wf (ep_tab st')" "ep_next st' = Suc (ep_next st)"
    using assms(1,2,3,4,6) by (auto simp: endpoint_create_for_current_def Let_def btree_simps bt_wf_insert wadd_eq)
  then show ?thesis using ep_law_refl [of ep e] by simp
next
  case False
  have "\<exists>e'. bt_get (ep_tab st') ep = Some e' \<and> ep_law ep e evs e'"
  proof (cases opr)
    case (Cleanup p)
    then show ?thesis using assms(1,2,5,6) ep_law_refl [of ep e] by (auto simp: endpoint_cleanup_pid_def cleanup_get)
  next
    case (Send i b)
    show ?thesis by (rule ep_law_send [OF assms(2) assms(6) [unfolded Send]])
  next
    case (Recv i)
    show ?thesis by (rule ep_law_recv [OF assms(2) assms(6) [unfolded Recv]])
  next
    case (IpcRecv p i va len um)
    show ?thesis by (rule ep_law_ipc_recv [OF assms(2) assms(6) [unfolded IpcRecv]])
  next
    case (IpcSend p i va len um)
    show ?thesis by (rule ep_law_ipc_send [OF assms(2) assms(6) [unfolded IpcSend]])
  next
    case (Create p)
    then show ?thesis using False by simp
  qed
  then show ?thesis using ep_step_frame [OF assms(1,6)] False by simp
qed

lemma ep_law_run:
  assumes "bt_wf (ep_tab st)" "bt_get (ep_tab st) ep = Some e" "ep < ep_next st" "ep_next st + length ops < 2 ^ 64"
    and "Cleanup (owner_pid e) \<notin> set ops" "ep_run ops st = (evs, st')"
  shows "\<exists>e'. bt_get (ep_tab st') ep = Some e' \<and> ep_law ep e evs e'"
  using assms
proof (induction ops arbitrary: st e evs)
  case Nil
  then show ?case using ep_law_refl by auto
next
  case (Cons a ops)
  obtain evs1 st1 where a: "ep_step a st = (evs1, st1)" by (metis surj_pair)
  obtain evs2 where r: "ep_run ops st1 = (evs2, st')" and evs: "evs = evs1 @ evs2"
    using Cons.prems(6) a by (auto split: prod.splits)
  obtain e1 where e1: "bt_get (ep_tab st1) ep = Some e1" "ep_law ep e evs1 e1"
    and w: "bt_wf (ep_tab st1)" "ep_next st \<le> ep_next st1" "ep_next st1 \<le> Suc (ep_next st)"
    using ep_law_step [OF Cons.prems(1-3) _ _ a] Cons.prems(4,5) by auto
  have "owner_pid e1 = owner_pid e" using e1(2) by (simp add: ep_law_def)
  then obtain e' where "bt_get (ep_tab st') ep = Some e'" "ep_law ep e1 evs2 e'"
    using Cons.IH [OF w(1) e1(1) _ _ _ r] Cons.prems(3-5) w by auto
  then show ?case using ep_law_trans [OF e1(2)] evs by auto
qed

subsection \<open>Property\<close>

text \<open>
  C23. An endpoint is a pair of bounded first-in first-out streams between the kernel and the
  process that created it. Whatever the interleaving of kernel calls and system calls of any
  processes, until the owner exits: the requests the kernel queued are served in order, each
  once and only to the owner, who finds the message in its buffer cut to the size of the
  buffer, or loses it if the buffer faults; the kernel takes exactly the replies the owner
  sent, in order; and no queue grows past its bound.
\<close>

theorem endpoint_streams:
  assumes "bt_wf (ep_tab st)" "bt_get (ep_tab st) ep = Some e" "ep < ep_next st" "ep_next st + length ops < 2 ^ 64"
    and "Cleanup (owner_pid e) \<notin> set ops" "ep_run ops st = (evs, st')"
    and "length (to_server e) \<le> IPC_MAX_QUEUE_DEPTH" "length (to_kernel e) \<le> IPC_MAX_QUEUE_DEPTH"
  shows "\<exists>e' ms. bt_get (ep_tab st') ep = Some e' \<and> owner_pid e' = owner_pid e \<and>
    to_server e @ sent ep evs = ms @ to_server e' \<and> list_all2 (delivered (owner_pid e)) (served ep evs) ms \<and>
    to_kernel e @ map snd (replied ep evs) = got ep evs @ to_kernel e' \<and>
    fst ` set (replied ep evs) \<subseteq> {owner_pid e} \<and>
    length (to_server e') \<le> IPC_MAX_QUEUE_DEPTH \<and> length (to_kernel e') \<le> IPC_MAX_QUEUE_DEPTH"
  using ep_law_run [OF assms(1-6)] assms(7,8) unfolding ep_law_def by blast

definition demo_um :: umem where
  "demo_um = (\<lambda>a. if a < 0x2000 then Some 7 else None)"

text \<open>Process 6 does not own the endpoint: its calls fail and the run delivers to process 5 only.\<close>

definition demo_ops :: "ep_op list" where
  "demo_ops = [Send 1 [1, 2, 3], IpcRecv 6 1 0x1000 8 demo_um, IpcRecv 5 1 0x1000 2 demo_um,
     IpcSend 6 1 0x1000 1 demo_um, IpcSend 5 1 0x1000 1 demo_um, Cleanup 6, Recv 1]"

definition demo_eps :: ep_store where
  "demo_eps = snd (endpoint_create_for_current 5 ep_init)"

lemma demo_eps_eq: "demo_eps = \<lparr>ep_next = 2, ep_tab = [(1, \<lparr>owner_pid = 5, to_server = [], to_kernel = []\<rparr>)]\<rparr>"
  by (simp add: demo_eps_def endpoint_create_for_current_def ep_init_def wadd_def)

lemma demo_run: "fst (ep_run demo_ops demo_eps) = [Sent 1 [1, 2, 3], Served 5 1 (2, Some [1, 2]), Replied 5 1 [7], Got 1 [7]]"
  by (simp add: demo_ops_def demo_eps_eq ep_ops recv_event_def IPC_MAX_MESSAGE_def IPC_MAX_QUEUE_DEPTH_def
      valid_message_len_def validate_user_ptr_def user_access_ok_def usize_max_def USER_ADDR_MAX_def bt_modify_def
      copy_to_user_def copy_from_user_def demo_um_def upt_rec del: One_nat_def)

theorem endpoint_streams_witness:
  "\<exists>(e' :: EndpointState) ms. [] @ sent 1 (fst (ep_run demo_ops demo_eps)) = ms @ to_server e' \<and> ms = [[1, 2, 3]] \<and>
     got 1 (fst (ep_run demo_ops demo_eps)) = [[7]]"
proof -
  let ?e = "\<lparr>owner_pid = 5, to_server = [], to_kernel = []\<rparr>"
  have pre: "bt_wf (ep_tab demo_eps)" "bt_get (ep_tab demo_eps) 1 = Some ?e" "1 < ep_next demo_eps"
      "ep_next demo_eps + length demo_ops < 2 ^ 64" "Cleanup (owner_pid ?e) \<notin> set demo_ops"
      "length (to_server ?e) \<le> IPC_MAX_QUEUE_DEPTH" "length (to_kernel ?e) \<le> IPC_MAX_QUEUE_DEPTH"
    by (simp_all add: demo_eps_eq bt_wf_def demo_ops_def)
  obtain e' :: EndpointState and ms where m: "to_server ?e @ sent 1 (fst (ep_run demo_ops demo_eps)) = ms @ to_server e'"
      "list_all2 (delivered (owner_pid ?e)) (served 1 (fst (ep_run demo_ops demo_eps))) ms"
    using endpoint_streams [OF pre(1-5) surjective_pairing pre(6,7)] by blast
  have "length ms = 1" using list_all2_lengthD [OF m(2)] by (simp add: demo_run event_simps)
  then have "ms = [[1, 2, 3]]" using m(1) by (auto simp: demo_run event_simps length_Suc_conv)
  then show ?thesis using m(1) by (auto simp: demo_run event_simps)
qed

end
