(* ===== verification/Scheme_Wire.thy ===== *)
theory Scheme_Wire
  imports Proc_Fd
begin

section \<open>The wire protocol of userspace schemes\<close>

text \<open>
  The requests and responses of \<^verbatim>\<open>crates/scheme-api\<close>, the encoder of requests and the
  decoder of responses in the kernel (\<^verbatim>\<open>src/fs/ipc_proxy_scheme.rs\<close>), and the encoders of
  responses in the virtio-net service (\<^verbatim>\<open>userspace/drivers/virtio_net/main.rs\<close>). Strings
  are their UTF-8 bytes.
\<close>

subsection \<open>Data\<close>

datatype SeekWhence = Start | Current | End

datatype SchemeRequest =
    ReqOpen "u8 list" u32
  | ReqRead u64 nat
  | ReqWrite u64 "u8 list"
  | ReqIoctl u64 u64 nat
  | ReqSeek u64 int SeekWhence
  | ReqClose u64

datatype SchemeResponse =
    RespFd u64
  | RespData "u8 list"
  | RespCount nat
  | RespSeekPos int
  | RespOk
  | RespErr SchemeError

text \<open>The validity check of \<open>core::str::from_utf8\<close>.\<close>

definition utf8_cont :: "u8 \<Rightarrow> bool" where
  "utf8_cont b \<longleftrightarrow> 0x80 \<le> b \<and> b \<le> 0xBF"

fun valid_utf8 :: "u8 list \<Rightarrow> bool" where
  "valid_utf8 [] = True"
| "valid_utf8 (b # bs) =
     (if b < 0x80 then valid_utf8 bs
      else if 0xC2 \<le> b \<and> b \<le> 0xDF
      then (case bs of c # r \<Rightarrow> utf8_cont c \<and> valid_utf8 r | _ \<Rightarrow> False)
      else if 0xE0 \<le> b \<and> b \<le> 0xEF
      then (case bs of
              c # d # r \<Rightarrow> utf8_cont c \<and> (b = 0xE0 \<longrightarrow> 0xA0 \<le> c) \<and> (b = 0xED \<longrightarrow> c \<le> 0x9F) \<and> utf8_cont d \<and> valid_utf8 r
            | _ \<Rightarrow> False)
      else if 0xF0 \<le> b \<and> b \<le> 0xF4
      then (case bs of
              c # d # e # r \<Rightarrow> utf8_cont c \<and> (b = 0xF0 \<longrightarrow> 0x90 \<le> c) \<and> (b = 0xF4 \<longrightarrow> c \<le> 0x8F) \<and>
                utf8_cont d \<and> utf8_cont e \<and> valid_utf8 r
            | _ \<Rightarrow> False)
      else False)"

subsection \<open>The kernel side\<close>

definition TAG_OPEN :: u8 where "TAG_OPEN = 1"
definition TAG_READ :: u8 where "TAG_READ = 2"
definition TAG_WRITE :: u8 where "TAG_WRITE = 3"
definition TAG_IOCTL :: u8 where "TAG_IOCTL = 4"
definition TAG_SEEK :: u8 where "TAG_SEEK = 5"
definition TAG_CLOSE :: u8 where "TAG_CLOSE = 6"

definition RESP_FD :: u8 where "RESP_FD = 0x80"
definition RESP_DATA :: u8 where "RESP_DATA = 0x81"
definition RESP_COUNT :: u8 where "RESP_COUNT = 0x82"
definition RESP_SEEK :: u8 where "RESP_SEEK = 0x83"
definition RESP_OK :: u8 where "RESP_OK = 0x84"
definition RESP_ERR :: u8 where "RESP_ERR = 0xFF"

definition push_u32 :: "u32 \<Rightarrow> u8 list" where "push_u32 n = le_bytes 4 n"

definition push_u64 :: "u64 \<Rightarrow> u8 list" where "push_u64 n = le_bytes 8 n"

definition push_bytes :: "u8 list \<Rightarrow> u8 list" where
  "push_bytes b = push_u32 (of_nat (length b)) @ b"

definition push_str :: "u8 list \<Rightarrow> u8 list" where
  "push_str s = push_u32 (of_nat (length s)) @ s"

fun whence_u8 :: "SeekWhence \<Rightarrow> u8" where
  "whence_u8 Start = 0"
| "whence_u8 Current = 1"
| "whence_u8 End = 2"

fun encode_request :: "SchemeRequest \<Rightarrow> u8 list" where
  "encode_request (ReqOpen path flags) = TAG_OPEN # push_u32 flags @ push_str path"
| "encode_request (ReqRead fd len) = TAG_READ # push_u64 fd @ push_u64 (of_nat len)"
| "encode_request (ReqWrite fd data) = TAG_WRITE # push_u64 fd @ push_bytes data"
| "encode_request (ReqIoctl fd cmd arg) = TAG_IOCTL # push_u64 fd @ push_u64 cmd @ push_u64 (of_nat arg)"
| "encode_request (ReqSeek fd offset whence) = TAG_SEEK # push_u64 fd @ push_u64 (of_int offset) @ [whence_u8 whence]"
| "encode_request (ReqClose fd) = TAG_CLOSE # push_u64 fd"

definition wire_read_u32 :: "u8 list \<Rightarrow> u32 option" where
  "wire_read_u32 b = (if 4 \<le> length b then Some (of_nat (from_le_bytes (take 4 b))) else None)"

definition wire_read_u64 :: "u8 list \<Rightarrow> u64 option" where
  "wire_read_u64 b = (if 8 \<le> length b then Some (of_nat (from_le_bytes (take 8 b))) else None)"

definition scheme_error_from_u32 :: "u32 \<Rightarrow> SchemeError" where
  "scheme_error_from_u32 n =
     (if n = 1 then NoSuchScheme else if n = 2 then NotFound else if n = 3 then PermissionDenied
      else if n = 4 then InvalidArg else if n = 5 then WouldBlock else if n = 6 then Io
      else if n = 7 then Unreachable else Other)"

fun decode_response :: "u8 list \<Rightarrow> SchemeResponse option" where
  "decode_response [] = None"
| "decode_response (tag # rest) =
     (if tag = RESP_FD then map_option RespFd (wire_read_u64 rest)
      else if tag = RESP_DATA then Some (RespData rest)
      else if tag = RESP_COUNT then map_option (\<lambda>n. RespCount (unat n)) (wire_read_u64 rest)
      else if tag = RESP_SEEK then map_option (\<lambda>n. RespSeekPos (sint n)) (wire_read_u64 rest)
      else if tag = RESP_OK then Some RespOk
      else if tag = RESP_ERR then map_option (\<lambda>c. RespErr (scheme_error_from_u32 c)) (wire_read_u32 rest)
      else None)"

subsection \<open>The service side\<close>

text \<open>\<open>e as u32\<close> with the discriminants of \<^verbatim>\<open>scheme-api\<close>, which has no \<open>Interrupted\<close>.\<close>

fun scheme_error_u32 :: "SchemeError \<Rightarrow> u32" where
  "scheme_error_u32 NoSuchScheme = 1"
| "scheme_error_u32 NotFound = 2"
| "scheme_error_u32 PermissionDenied = 3"
| "scheme_error_u32 InvalidArg = 4"
| "scheme_error_u32 WouldBlock = 5"
| "scheme_error_u32 Io = 6"
| "scheme_error_u32 Unreachable = 7"
| "scheme_error_u32 _ = 0xFF"

definition encode_fd :: "u64 \<Rightarrow> u8 list" where "encode_fd i = 0x80 # le_bytes 8 i"

definition encode_data :: "u8 list \<Rightarrow> u8 list" where "encode_data data = 0x81 # data"

definition encode_count :: "nat \<Rightarrow> u8 list" where "encode_count n = 0x82 # le_bytes 8 (of_nat n :: u64)"

definition encode_ok :: "u8 list" where "encode_ok = [0x84]"

definition encode_err :: "SchemeError \<Rightarrow> u8 list" where "encode_err e = 0xFF # le_bytes 4 (scheme_error_u32 e)"

lemmas wire_tags = TAG_OPEN_def TAG_READ_def TAG_WRITE_def TAG_IOCTL_def TAG_SEEK_def TAG_CLOSE_def
  RESP_FD_def RESP_DATA_def RESP_COUNT_def RESP_SEEK_def RESP_OK_def RESP_ERR_def

lemma scheme_error_roundtrip: "e \<noteq> Interrupted \<Longrightarrow> scheme_error_from_u32 (scheme_error_u32 e) = e"
  by (cases e) (simp_all add: scheme_error_from_u32_def)

lemma decode_encode:
  "decode_response (encode_fd i) = Some (RespFd i)"
  "decode_response (encode_data data) = Some (RespData data)"
  "n < 2 ^ 64 \<Longrightarrow> decode_response (encode_count n) = Some (RespCount n)"
  "decode_response encode_ok = Some RespOk"
  "e \<noteq> Interrupted \<Longrightarrow> decode_response (encode_err e) = Some (RespErr e)"
  by (simp_all add: encode_fd_def encode_data_def encode_count_def encode_ok_def encode_err_def wire_tags
      wire_read_u64_def wire_read_u32_def of_le_bytes_u64 of_le_bytes_u32 scheme_error_roundtrip unat_of_nat)

end
