(* ===== verification/Virtio_Net.thy ===== *)
theory Virtio_Net
  imports Scheme_Wire Endpoint
begin

section \<open>The virtio-net service\<close>

text \<open>
  The userspace network service of \<^verbatim>\<open>userspace/drivers/virtio_net/main.rs\<close>: the handling of
  interrupts, of scheme requests, and one round of its event loop over an endpoint. The
  device is an argument: what it has written into the used rings and the receive buffers
  when the service looks. Register writes are recorded in order. A panic of the service
  (a slice or an index out of range) is \<open>None\<close>.
\<close>

definition QUEUE_SIZE :: nat where "QUEUE_SIZE = 256"

definition MAX_FRAME_LEN :: nat where "MAX_FRAME_LEN = 1526"

definition VIRTIO_MMIO_INT_ACK :: nat where "VIRTIO_MMIO_INT_ACK = 0x064"

definition VIRTIO_MMIO_QUEUE_NOTIFY :: nat where "VIRTIO_MMIO_QUEUE_NOTIFY = 0x050"

definition RX_QUEUE_IDX :: u32 where "RX_QUEUE_IDX = 0"

definition TX_QUEUE_IDX :: u32 where "TX_QUEUE_IDX = 1"

record VirtqDesc =
  vd_addr :: u64
  vd_len :: u32
  vd_flags :: u16
  vd_next :: u16

record VirtqAvail =
  va_idx :: u16
  va_ring :: "u16 list"

text \<open>A used ring: its index and its elements \<open>(id, len)\<close>.\<close>

record VirtqUsed =
  vu_idx :: u16
  vu_ring :: "(u32 \<times> u32) list"

record NetDevice =
  int_status :: u32
  rx_used :: VirtqUsed
  tx_used :: VirtqUsed
  rx_mem :: "nat \<Rightarrow> u8 list"

record NetDriver =
  nd_endpoint :: nat
  rx_avail :: VirtqAvail
  rx_bufs :: nat
  rx_last_used :: u16
  tx_desc :: "VirtqDesc list"
  tx_avail :: VirtqAvail
  tx_free :: "u16 list"
  rx_pending :: "u8 list list"
  dma_mem :: "int \<Rightarrow> u8 list"
  nd_mmio :: "(nat \<times> u32) list"

definition mmio_write32 :: "nat \<Rightarrow> u32 \<Rightarrow> NetDriver \<Rightarrow> NetDriver" where
  "mmio_write32 off v d = d\<lparr>nd_mmio := nd_mmio d @ [(off, v)]\<rparr>"

definition avail_push :: "u16 \<Rightarrow> VirtqAvail \<Rightarrow> VirtqAvail" where
  "avail_push i a = a\<lparr>va_ring := (va_ring a)[unat (va_idx a) mod QUEUE_SIZE := i], va_idx := va_idx a + 1\<rparr>"

subsection \<open>Interrupts\<close>

text \<open>
  The loop of \<open>drain_rx\<close> runs until the shadow index meets the index of the device, which
  takes as many rounds as the wrapped difference of the two; \<open>drain_rx_unfold\<close> below is the
  loop as the source writes it.
\<close>

definition drain_rx_round :: "NetDevice \<Rightarrow> NetDriver \<Rightarrow> NetDriver panicky" where
  "drain_rx_round dev d =
     (let (eid, len) = vu_ring (rx_used dev) ! (unat (rx_last_used d) mod QUEUE_SIZE);
          desc_idx = unat eid
      in if desc_idx \<ge> rx_bufs d then None
         else Some (d\<lparr>rx_pending := rx_pending d @ [take (min (unat len) MAX_FRAME_LEN) (rx_mem dev desc_idx)],
                      rx_avail := avail_push (of_nat desc_idx) (rx_avail d),
                      rx_last_used := rx_last_used d + 1\<rparr>))"

fun drain_rx_loop :: "nat \<Rightarrow> NetDevice \<Rightarrow> NetDriver \<Rightarrow> NetDriver panicky" where
  "drain_rx_loop 0 dev d = Some d"
| "drain_rx_loop (Suc n) dev d = Option.bind (drain_rx_round dev d) (drain_rx_loop n dev)"

definition drain_rx :: "NetDevice \<Rightarrow> NetDriver \<Rightarrow> NetDriver panicky" where
  "drain_rx dev d =
     map_option (mmio_write32 VIRTIO_MMIO_QUEUE_NOTIFY RX_QUEUE_IDX)
       (drain_rx_loop (unat (vu_idx (rx_used dev) - rx_last_used d)) dev d)"

fun reclaim_loop :: "(u32 \<times> u32) list \<Rightarrow> nat list \<Rightarrow> u16 list \<Rightarrow> u16 list" where
  "reclaim_loop ring [] free = free"
| "reclaim_loop ring (i # is) free =
     (let eid = ucast (fst (ring ! (i mod QUEUE_SIZE))) :: u16
      in reclaim_loop ring is (if eid \<in> set free then free else free @ [eid]))"

definition reclaim_tx :: "NetDevice \<Rightarrow> NetDriver \<Rightarrow> NetDriver" where
  "reclaim_tx dev d = d\<lparr>tx_free := reclaim_loop (vu_ring (tx_used dev)) [0..<unat (vu_idx (tx_used dev))] (tx_free d)\<rparr>"

definition handle_irq :: "NetDevice \<Rightarrow> NetDriver \<Rightarrow> NetDriver panicky" where
  "handle_irq dev d =
     (let status = int_status dev;
          d1 = mmio_write32 VIRTIO_MMIO_INT_ACK status d
      in if status AND 1 \<noteq> 0 then map_option (reclaim_tx dev) (drain_rx dev d1) else Some d1)"

subsection \<open>Requests\<close>

text \<open>\<open>dma\<close> is the result of \<open>sys_dma_alloc\<close>: the return value and the physical address.\<close>

definition transmit :: "int \<times> u64 \<Rightarrow> u8 list \<Rightarrow> NetDriver \<Rightarrow> nat \<times> NetDriver" where
  "transmit dma data d =
     (case tx_free d of
        [] \<Rightarrow> (0, d)
      | desc_idx # free \<Rightarrow>
          let (virt, phys) = dma in
          if virt \<le> 0 then (0, d)
          else let n = min (length data) MAX_FRAME_LEN;
                   d1 = d\<lparr>tx_free := free,
                          dma_mem := (dma_mem d)(virt := take n data),
                          tx_desc := (tx_desc d)[unat desc_idx := \<lparr>vd_addr = phys, vd_len = of_nat n, vd_flags = 0, vd_next = 0\<rparr>],
                          tx_avail := avail_push desc_idx (tx_avail d)\<rparr>
               in (n, mmio_write32 VIRTIO_MMIO_QUEUE_NOTIFY TX_QUEUE_IDX d1))"

definition eth0 :: "u8 list" where "eth0 = [0x65, 0x74, 0x68, 0x30]"

fun handle_scheme_request :: "int \<times> u64 \<Rightarrow> u8 list \<Rightarrow> NetDriver \<Rightarrow> (u8 list \<times> NetDriver) panicky" where
  "handle_scheme_request dma [] d = Some (encode_err InvalidArg, d)"
| "handle_scheme_request dma (tag # rest) d =
     (if tag = 1
      then if length rest < 8 then Some (encode_err InvalidArg, d)
           else let path_len = from_le_bytes (take 4 (drop 4 rest)) in
                if 8 + path_len > length rest then None
                else let path_bytes = take path_len (drop 8 rest);
                         path = if valid_utf8 path_bytes then path_bytes else []
                     in if path = eth0 \<or> path = [] then Some (encode_fd 1, d) else Some (encode_err NotFound, d)
      else if tag = 2
      then if length rest < 8 then None
           else (case rx_pending d of
                   frame # frames \<Rightarrow> Some (encode_data frame, d\<lparr>rx_pending := frames\<rparr>)
                 | [] \<Rightarrow> Some (encode_err WouldBlock, d))
      else if tag = 3
      then if length rest < 12 then None
           else let dlen = from_le_bytes (take 4 (drop 8 rest)) in
                if 12 + dlen > length rest then None
                else let (n, d') = transmit dma (take dlen (drop 12 rest)) d in Some (encode_count n, d')
      else if tag = 6 then Some (encode_ok, d)
      else Some (encode_err InvalidArg, d))"

subsection \<open>The event loop\<close>

definition MSG_BUF :: nat where "MSG_BUF = 4096"

text \<open>The bytes of a local vector placed at \<open>va\<close> in the memory of the service.\<close>

definition place :: "nat \<Rightarrow> u8 list \<Rightarrow> umem \<Rightarrow> umem" where
  "place va bs um = (\<lambda>a. if va \<le> a \<and> a < va + length bs then Some (bs ! (a - va)) else um a)"

text \<open>
  One round of the loop in \<open>_start\<close>, run by process \<open>cur\<close>: \<open>msg_va\<close> is the address of the message
  buffer, \<open>resp_va\<close> the one of the response.
\<close>

definition net_iter ::
  "nat \<Rightarrow> nat \<Rightarrow> nat \<Rightarrow> umem \<Rightarrow> int \<times> u64 \<Rightarrow> NetDevice \<Rightarrow> NetDriver \<times> ep_store \<Rightarrow> (NetDriver \<times> ep_store) panicky" where
  "net_iter cur msg_va resp_va um dma dev = (\<lambda>(d, st).
     let (n, um1, st1) = sys_ipc_recv cur (nd_endpoint d) msg_va MSG_BUF um st in
     if n < 0 then Some (d, st1)
     else case Option.bind um1 (\<lambda>um1. copy_from_user um1 msg_va (nat n)) of
       None \<Rightarrow> None
     | Some msg \<Rightarrow>
         if msg \<noteq> [] \<and> hd msg = 0xFF then map_option (\<lambda>d'. (d', st1)) (handle_irq dev d)
         else Option.bind (handle_scheme_request dma msg d) (\<lambda>(resp, d').
                let (r, st2) = sys_ipc_send cur (nd_endpoint d) resp_va (length resp) (place resp_va resp (the um1)) st1
                in Some (d', st2)))"

subsection \<open>Requests over the wire\<close>

text \<open>What the service answers to a request, and its state afterwards.\<close>

fun serve :: "int \<times> u64 \<Rightarrow> SchemeRequest \<Rightarrow> NetDriver \<Rightarrow> SchemeResponse \<times> NetDriver" where
  "serve dma (ReqOpen path flags) d =
     (if path = eth0 \<or> path = [] \<or> \<not> valid_utf8 path then RespFd 1 else RespErr NotFound, d)"
| "serve dma (ReqRead fd len) d =
     (case rx_pending d of [] \<Rightarrow> (RespErr WouldBlock, d) | f # fs \<Rightarrow> (RespData f, d\<lparr>rx_pending := fs\<rparr>))"
| "serve dma (ReqWrite fd data) d = (let (n, d') = transmit dma data d in (RespCount n, d'))"
| "serve dma (ReqClose fd) d = (RespOk, d)"
| "serve dma _ d = (RespErr InvalidArg, d)"

fun request_size :: "SchemeRequest \<Rightarrow> nat" where
  "request_size (ReqOpen path _) = 9 + length path"
| "request_size (ReqWrite _ data) = 13 + length data"
| "request_size (ReqRead _ _) = 17"
| "request_size (ReqIoctl _ _ _) = 25"
| "request_size (ReqSeek _ _ _) = 18"
| "request_size (ReqClose _) = 9"

lemmas push_simps = push_u32_def push_u64_def push_bytes_def push_str_def

lemma length_encode_request: "length (encode_request req) = request_size req"
  by (cases req) (simp_all add: push_simps)

lemma le_length: "n < 2 ^ 32 \<Longrightarrow> from_le_bytes (le_bytes 4 (of_nat n :: u32)) = n"
  by (simp add: from_le_bytes_le_bytes unat_of_nat)

lemma transmit_le: "transmit dma data d = (n, d') \<Longrightarrow> n \<le> MAX_FRAME_LEN"
  by (auto simp: transmit_def Let_def split: list.splits prod.splits if_splits)

lemma serve_request:
  assumes "request_size req < 2 ^ 32"
  shows "\<exists>bytes d'. handle_scheme_request dma (encode_request req) d = Some (bytes, d') \<and>
    (case decode_response bytes of None \<Rightarrow> False | Some r \<Rightarrow> serve dma req d = (r, d'))"
proof (cases req)
  case (ReqOpen path flags)
  then show ?thesis using assms by (simp add: wire_tags push_simps le_length decode_encode)
next
  case (ReqRead fd len)
  then show ?thesis by (simp add: wire_tags push_simps decode_encode split: list.split)
next
  case (ReqWrite fd data)
  obtain n d' where t: "transmit dma data d = (n, d')" by (metis surj_pair)
  have "n < 2 ^ 64" using transmit_le [OF t] by (simp add: MAX_FRAME_LEN_def)
  then show ?thesis using ReqWrite assms t by (simp add: wire_tags push_simps le_length decode_encode)
qed (simp_all add: wire_tags push_simps decode_encode)

text \<open>A request longer than the message buffer of the service reaches it cut off.\<close>

lemma cut_write_panics:
  assumes "MSG_BUF < request_size (ReqWrite fd data)" "request_size (ReqWrite fd data) < 2 ^ 32"
  shows "handle_scheme_request dma (take MSG_BUF (encode_request (ReqWrite fd data))) d = None"
proof -
  let ?rest = "take 4095 (le_bytes 8 fd @ le_bytes 4 (of_nat (length data) :: u32) @ data)"
  have t: "take MSG_BUF (encode_request (ReqWrite fd data)) = 3 # ?rest"
    by (simp add: MSG_BUF_def wire_tags push_simps del: append_assoc)
  have "length ?rest = 4095" using assms(1) by (simp add: MSG_BUF_def)
  moreover have "take 4 (drop 8 ?rest) = le_bytes 4 (of_nat (length data) :: u32)" by (simp add: drop_take)
  moreover have "from_le_bytes (le_bytes 4 (of_nat (length data) :: u32)) = length data"
    using assms(2) by (simp add: le_length)
  ultimately show ?thesis unfolding t using assms(1) by (simp add: MSG_BUF_def Let_def)
qed

subsection \<open>Interrupts\<close>

lemma drain_rx_unfold:
  "drain_rx_loop (unat (vu_idx (rx_used dev) - rx_last_used d)) dev d =
     (if rx_last_used d = vu_idx (rx_used dev) then Some d
      else Option.bind (drain_rx_round dev d)
        (\<lambda>d'. drain_rx_loop (unat (vu_idx (rx_used dev) - rx_last_used d')) dev d'))"
proof (cases "rx_last_used d = vu_idx (rx_used dev)")
  case False
  let ?k = "vu_idx (rx_used dev) - rx_last_used d"
  have "?k \<noteq> 0" using False by simp
  then obtain m where m: "unat ?k = Suc m" by (metis not0_implies_Suc unat_eq_zero)
  have "unat (?k - 1) = m" using m \<open>?k \<noteq> 0\<close> by (simp add: unat_minus_one)
  moreover have "rx_last_used d' = rx_last_used d + 1" if "drain_rx_round dev d = Some d'" for d'
    using that by (auto simp: drain_rx_round_def Let_def split: prod.splits if_splits)
  ultimately show ?thesis using False m by (cases "drain_rx_round dev d") (simp_all add: diff_diff_eq2 algebra_simps)
qed simp

lemma set_reclaim_loop:
  "set (reclaim_loop ring is free) = set free \<union> (\<lambda>i. ucast (fst (ring ! (i mod QUEUE_SIZE)))) ` set is"
  by (induction ring "is" free rule: reclaim_loop.induct) (auto simp: Let_def)

subsection \<open>Rounds of the event loop\<close>

text \<open>A buffer of the service: mapped memory of its address space.\<close>

definition buffer_ok :: "nat \<Rightarrow> nat \<Rightarrow> umem \<Rightarrow> bool" where
  "buffer_ok va len um \<longleftrightarrow> va \<noteq> 0 \<and> va + len \<le> USER_ADDR_MAX \<and> list_all (\<lambda>a. um a \<noteq> None) [va..<va + len]"

lemma buffer_access: "va + len \<le> USER_ADDR_MAX \<Longrightarrow> n \<le> len \<Longrightarrow> user_access_ok va n"
  by (simp add: user_access_ok_def USER_ADDR_MAX_def usize_max_def)

lemma copy_to_buffer:
  assumes "buffer_ok va len um" "length bs \<le> len"
  shows "\<exists>um'. copy_to_user um va bs = Some um' \<and> copy_from_user um' va (length bs) = Some bs"
proof -
  have "list_all (\<lambda>a. um a \<noteq> None) [va..<va + length bs]" using assms by (auto simp: buffer_ok_def list_all_iff)
  then have "copy_to_user um va bs \<noteq> None"
    using assms buffer_access [of va len "length bs"] by (simp add: copy_to_user_def buffer_ok_def)
  then show ?thesis using copy_to_from_user by blast
qed

lemma ipc_recv_buffer:
  assumes "bt_get (ep_tab st) ep = Some e" "to_server e = m # ms" "buffer_ok va len um" "0 < len"
  shows "\<exists>um'. sys_ipc_recv (owner_pid e) ep va len um st =
      (int (min (length m) len), Some um', st\<lparr>ep_tab := bt_modify ep (\<lambda>e. e\<lparr>to_server := ms\<rparr>) (ep_tab st)\<rparr>) \<and>
    copy_from_user um' va (min (length m) len) = Some (take len m)"
proof -
  obtain um' where um': "copy_to_user um va (take len m) = Some um'"
      "copy_from_user um' va (length (take len m)) = Some (take len m)"
    using copy_to_buffer [OF assms(3), of "take len m"] by auto
  have "take (min (length m) len) m = take len m" by (simp add: min_def)
  moreover have "validate_user_ptr va len"
    using assms(3) buffer_access [of va len len] by (simp add: validate_user_ptr_def buffer_ok_def)
  ultimately show ?thesis using assms um'
    by (simp add: sys_ipc_recv_def endpoint_owned_by_current_def Let_def)
qed

lemma place_copy:
  assumes "va \<noteq> 0" "va + length bs \<le> USER_ADDR_MAX"
  shows "copy_from_user (place va bs um) va (length bs) = Some bs"
proof -
  have "those (map (place va bs um) [va..<va + length bs]) = Some (map (\<lambda>a. bs ! (a - va)) [va..<va + length bs])"
    by (rule those_map_Some) (simp add: place_def)
  moreover have "map (\<lambda>a. bs ! (a - va)) [va..<va + length bs] = bs" by (rule nth_equalityI) simp_all
  ultimately show ?thesis using assms buffer_access [of va "length bs" "length bs"] by (auto simp: copy_from_user_def)
qed

lemma ipc_send_placed:
  assumes "bt_get (ep_tab st) ep = Some e" "length (to_kernel e) < IPC_MAX_QUEUE_DEPTH"
    and "va \<noteq> 0" "va + length bs \<le> USER_ADDR_MAX" "length bs \<le> IPC_MAX_MESSAGE"
  shows "sys_ipc_send (owner_pid e) ep va (length bs) (place va bs um) st =
    (int (length bs), st\<lparr>ep_tab := bt_modify ep (\<lambda>e. e\<lparr>to_kernel := to_kernel e @ [bs]\<rparr>) (ep_tab st)\<rparr>)"
  using assms place_copy [OF assms(3,4), of um] buffer_access [OF assms(4) order_refl]
  by (simp add: sys_ipc_send_def valid_message_len_def validate_user_ptr_def endpoint_owned_by_current_def)

lemma request_first_byte: "encode_request req \<noteq> [] \<and> hd (encode_request req) \<noteq> 0xFF"
  by (cases req) (simp_all add: wire_tags)

lemma length_response:
  assumes "handle_scheme_request dma msg d = Some (bytes, d')" "\<forall>f \<in> set (rx_pending d). length f \<le> MAX_FRAME_LEN"
  shows "length bytes \<le> Suc MAX_FRAME_LEN"
proof (cases msg)
  case (Cons tag rest)
  then show ?thesis using assms
    by (auto simp: encode_err_def encode_fd_def encode_data_def encode_count_def encode_ok_def MAX_FRAME_LEN_def Let_def
        split: if_splits list.splits prod.splits)
qed (use assms in \<open>auto simp: encode_err_def MAX_FRAME_LEN_def\<close>)

lemma net_iter_serves:
  assumes e: "bt_get (ep_tab st) (nd_endpoint d) = Some e" "to_server e = encode_request req # ms"
    and room: "length (to_kernel e) < IPC_MAX_QUEUE_DEPTH" and fits: "request_size req \<le> MSG_BUF"
    and bufs: "buffer_ok msg_va MSG_BUF um" "resp_va \<noteq> 0" "resp_va + Suc MAX_FRAME_LEN \<le> USER_ADDR_MAX"
    and rx: "\<forall>f \<in> set (rx_pending d). length f \<le> MAX_FRAME_LEN"
  shows "\<exists>bytes st'. net_iter (owner_pid e) msg_va resp_va um dma dev (d, st) = Some (snd (serve dma req d), st') \<and>
    decode_response bytes = Some (fst (serve dma req d)) \<and>
    bt_get (ep_tab st') (nd_endpoint d) = Some (e\<lparr>to_server := ms, to_kernel := to_kernel e @ [bytes]\<rparr>)"
proof -
  let ?m = "encode_request req"
  let ?st1 = "st\<lparr>ep_tab := bt_modify (nd_endpoint d) (\<lambda>e. e\<lparr>to_server := ms\<rparr>) (ep_tab st)\<rparr>"
  have l: "length ?m \<le> MSG_BUF" "take MSG_BUF ?m = ?m" using fits by (simp_all add: length_encode_request)
  obtain um' where r: "sys_ipc_recv (owner_pid e) (nd_endpoint d) msg_va MSG_BUF um st = (int (length ?m), Some um', ?st1)"
      "copy_from_user um' msg_va (length ?m) = Some ?m"
    using ipc_recv_buffer [OF e bufs(1)] l by (auto simp: MSG_BUF_def min_def split: if_splits)
  obtain bytes d' where h: "handle_scheme_request dma ?m d = Some (bytes, d')"
      "case decode_response bytes of None \<Rightarrow> False | Some x \<Rightarrow> serve dma req d = (x, d')"
    using serve_request [of req dma d] fits by (auto simp: MSG_BUF_def)
  have len: "length bytes \<le> Suc MAX_FRAME_LEN" by (rule length_response [OF h(1) rx])
  have st1: "bt_get (ep_tab ?st1) (nd_endpoint d) = Some (e\<lparr>to_server := ms\<rparr>)" using e(1) by (simp add: btree_simps)
  have "sys_ipc_send (owner_pid e) (nd_endpoint d) resp_va (length bytes) (place resp_va bytes um') ?st1 =
      (int (length bytes), ?st1\<lparr>ep_tab := bt_modify (nd_endpoint d) (\<lambda>e. e\<lparr>to_kernel := to_kernel e @ [bytes]\<rparr>) (ep_tab ?st1)\<rparr>)"
    using ipc_send_placed [OF st1, of resp_va bytes um'] room bufs(2,3) len
    by (simp add: IPC_MAX_MESSAGE_def MAX_FRAME_LEN_def)
  then show ?thesis using r h request_first_byte [of req] e(1)
    by (auto simp: net_iter_def Let_def btree_simps split: option.splits)
qed

subsection \<open>Properties\<close>

definition demo_driver :: NetDriver where
  "demo_driver = \<lparr>nd_endpoint = 1, rx_avail = \<lparr>va_idx = 0, va_ring = replicate QUEUE_SIZE 0\<rparr>, rx_bufs = QUEUE_SIZE,
     rx_last_used = 0, tx_desc = replicate QUEUE_SIZE \<lparr>vd_addr = 0, vd_len = 0, vd_flags = 0, vd_next = 0\<rparr>,
     tx_avail = \<lparr>va_idx = 0, va_ring = replicate QUEUE_SIZE 0\<rparr>, tx_free = [0, 1], rx_pending = [[9, 8]],
     dma_mem = (\<lambda>_. []), nd_mmio = []\<rparr>"

definition demo_device :: NetDevice where
  "demo_device = \<lparr>int_status = 1, rx_used = \<lparr>vu_idx = 0, vu_ring = replicate QUEUE_SIZE (0, 0)\<rparr>,
     tx_used = \<lparr>vu_idx = 1, vu_ring = replicate QUEUE_SIZE (0, 0)\<rparr>, rx_mem = (\<lambda>_. [])\<rparr>"



text \<open>
  A write that does not fit into the message buffer of the service kills the service: the
  kernel accepts the request into the queue, \<open>sys_ipc_recv\<close> cuts it to 4096 bytes, and the
  service then slices the message by the length field of the header and panics.
\<close>

theorem long_write_kills_service:
  assumes "bt_get (ep_tab st) (nd_endpoint d) = Some e" "to_server e = []"
    and "MSG_BUF < request_size (ReqWrite fd data)" "request_size (ReqWrite fd data) \<le> IPC_MAX_MESSAGE"
    and "buffer_ok msg_va MSG_BUF um"
    and "endpoint_send (nd_endpoint d) (encode_request (ReqWrite fd data)) st = (ok, st1)"
  shows "ok \<and> net_iter (owner_pid e) msg_va resp_va um dma dev (d, st1) = None"
proof -
  let ?m = "encode_request (ReqWrite fd data)"
  let ?e1 = "e\<lparr>to_server := [?m]\<rparr>"
  have "length ?m \<le> IPC_MAX_MESSAGE" using assms(4) by (simp only: length_encode_request)
  then have ok: ok and e1: "bt_get (ep_tab st1) (nd_endpoint d) = Some ?e1"
    using assms(1,2,6) by (auto simp: endpoint_send_def valid_message_len_def IPC_MAX_QUEUE_DEPTH_def btree_simps)
  have min: "min (length ?m) MSG_BUF = MSG_BUF"
    using assms(3) unfolding length_encode_request by (rule min.absorb2 [OF less_imp_le])
  obtain um' where "sys_ipc_recv (owner_pid e) (nd_endpoint d) msg_va MSG_BUF um st1 = (int MSG_BUF, Some um',
        st1\<lparr>ep_tab := bt_modify (nd_endpoint d) (\<lambda>e. e\<lparr>to_server := []\<rparr>) (ep_tab st1)\<rparr>)"
      "copy_from_user um' msg_va MSG_BUF = Some (take MSG_BUF ?m)"
    using ipc_recv_buffer [OF e1 _ assms(5)] min by (auto simp: MSG_BUF_def)
  moreover have "hd (take MSG_BUF ?m) \<noteq> 0xFF" "take MSG_BUF ?m \<noteq> []"
    using request_first_byte [of "ReqWrite fd data"] by (simp_all add: MSG_BUF_def wire_tags)
  moreover have "handle_scheme_request dma (take MSG_BUF ?m) d = None"
    using cut_write_panics [OF assms(3)] assms(4) by (simp add: IPC_MAX_MESSAGE_def)
  ultimately show ?thesis using ok by (simp add: net_iter_def)
qed

definition demo_ep_store :: ep_store where
  "demo_ep_store = \<lparr>ep_next = 2, ep_tab = [(1, \<lparr>owner_pid = 7, to_server = [], to_kernel = []\<rparr>)]\<rparr>"

theorem long_write_kills_service_witness:
  "\<exists>st1. endpoint_send 1 (encode_request (ReqWrite 1 (replicate 5000 0))) demo_ep_store = (True, st1) \<and>
     net_iter 7 0x1000 0x8000 (\<lambda>_. Some 0) (0x5000, 0x9000) demo_device (demo_driver, st1) = None"
proof -
  let ?e = "\<lparr>owner_pid = 7, to_server = [], to_kernel = []\<rparr> :: EndpointState"
  obtain ok st1 where s: "endpoint_send 1 (encode_request (ReqWrite 1 (replicate 5000 0))) demo_ep_store = (ok, st1)"
    by (metis surj_pair)
  have "ok \<and> net_iter (owner_pid ?e) 0x1000 0x8000 (\<lambda>_. Some 0) (0x5000, 0x9000) demo_device (demo_driver, st1) = None"
    by (rule long_write_kills_service [of demo_ep_store demo_driver ?e 1 "replicate 5000 0"])
      (use s in \<open>simp_all add: demo_ep_store_def demo_driver_def MSG_BUF_def IPC_MAX_MESSAGE_def buffer_ok_def
        USER_ADDR_MAX_def list_all_iff\<close>)
  then show ?thesis using s by simp
qed

text \<open>
  The service can hand out a transmit descriptor that the device still owns. \<open>reclaim_tx\<close>
  scans the used ring from its beginning on every interrupt, so a descriptor that was
  completed once and has been submitted again, with a new frame, is put back into the free
  list by the next interrupt although the device has not completed the new frame.
\<close>

theorem reclaim_frees_in_flight:
  assumes "tx_free d = i # free" "0 < virt" "transmit (virt, phys) data d = (n, d1)"
    and "j < unat (vu_idx (tx_used dev))" "ucast (fst (vu_ring (tx_used dev) ! (j mod QUEUE_SIZE))) = i"
    and "int_status dev AND 1 \<noteq> 0" "vu_idx (rx_used dev) = rx_last_used d" "unat i < length (tx_desc d)"
  shows "\<exists>d2. handle_irq dev d1 = Some d2 \<and> i \<in> set (tx_free d2) \<and>
    tx_avail d2 = avail_push i (tx_avail d) \<and> vd_addr (tx_desc d2 ! unat i) = phys"
proof -
  have d1: "tx_avail d1 = avail_push i (tx_avail d)" "vd_addr (tx_desc d1 ! unat i) = phys" "rx_last_used d1 = rx_last_used d"
    using assms(1,2,3,8) by (auto simp: transmit_def Let_def mmio_write32_def)
  have "handle_irq dev d1 = Some (reclaim_tx dev (mmio_write32 VIRTIO_MMIO_QUEUE_NOTIFY RX_QUEUE_IDX
      (mmio_write32 VIRTIO_MMIO_INT_ACK (int_status dev) d1)))"
    using assms(6,7) d1(3) by (simp add: handle_irq_def drain_rx_def mmio_write32_def Let_def)
  moreover have "i \<in> set (reclaim_loop (vu_ring (tx_used dev)) [0..<unat (vu_idx (tx_used dev))] f)" for f
    using assms(4,5) by (auto simp: set_reclaim_loop)
  ultimately show ?thesis using d1 by (simp add: reclaim_tx_def mmio_write32_def)
qed

theorem reclaim_frees_in_flight_witness:
  "\<exists>n d1 d2. transmit (0x5000, 0x9000) [1] demo_driver = (n, d1) \<and> handle_irq demo_device d1 = Some d2 \<and>
     0 \<in> set (tx_free d2) \<and> va_idx (tx_avail d2) = 1"
proof -
  obtain n d1 where t: "transmit (0x5000, 0x9000) [1] demo_driver = (n, d1)" by (metis surj_pair)
  show ?thesis
    using reclaim_frees_in_flight [OF _ _ t, of 0 "[1]" 0 demo_device] t
    by (auto simp: demo_driver_def demo_device_def QUEUE_SIZE_def avail_push_def)
qed

end
