(* ===== verification/Scheme.thy ===== *)
theory Scheme
  imports Virtio_Net "HOL-Library.List_Lexorder"
begin

section \<open>The scheme registry and the proxy of userspace schemes\<close>

text \<open>
  The scheme table (\<^verbatim>\<open>src/fs/scheme_table.rs\<close>), the parser of scheme URLs
  (\<^verbatim>\<open>crates/scheme-api\<close>), the proxy that forwards calls to a service over its endpoint
  (\<^verbatim>\<open>src/fs/ipc_proxy_scheme.rs\<close>), the registration system calls (\<^verbatim>\<open>src/syscall/scheme.rs\<close>)
  and the part of \<open>do_exit\<close> that releases what a service owned. Names are their UTF-8
  bytes. In-kernel handlers are opaque: their \<open>open\<close> is an argument.
\<close>

subsection \<open>URLs and names\<close>

definition COLON :: u8 where "COLON = 0x3A"

definition SLASH :: u8 where "SLASH = 0x2F"

fun split_once_colon :: "u8 list \<Rightarrow> (u8 list \<times> u8 list) option" where
  "split_once_colon [] = None"
| "split_once_colon (c # cs) =
     (if c = COLON then Some ([], cs) else map_option (\<lambda>(a, b). (c # a, b)) (split_once_colon cs))"

definition name_char :: "u8 \<Rightarrow> bool" where
  "name_char c \<longleftrightarrow> (0x30 \<le> c \<and> c \<le> 0x39) \<or> (0x41 \<le> c \<and> c \<le> 0x5A) \<or> (0x61 \<le> c \<and> c \<le> 0x7A) \<or> c = 0x5F \<or> c = 0x2D"

definition parse_scheme_url :: "u8 list \<Rightarrow> (u8 list \<times> u8 list) option" where
  "parse_scheme_url url =
     (if url \<noteq> [] \<and> hd url = SLASH then None
      else case split_once_colon url of
        None \<Rightarrow> None
      | Some (scheme, path) \<Rightarrow>
          if scheme = [] \<or> \<not> list_all name_char scheme then None else Some (scheme, path))"

definition is_scheme_url :: "u8 list \<Rightarrow> bool" where
  "is_scheme_url path \<longleftrightarrow> parse_scheme_url path \<noteq> None"

definition valid_scheme_name :: "u8 list \<Rightarrow> bool" where
  "valid_scheme_name name \<longleftrightarrow> name \<noteq> [] \<and> COLON \<notin> set name \<and> list_all name_char name"

subsection \<open>The table\<close>

datatype Handler = Native nat | IpcProxyScheme "u8 list" nat

type_synonym scheme_table = "(u8 list, Handler) btree"

definition st_register :: "u8 list \<Rightarrow> Handler \<Rightarrow> scheme_table \<Rightarrow> scheme_table" where
  "st_register name h t = bt_insert name h t"

definition st_deregister :: "u8 list \<Rightarrow> scheme_table \<Rightarrow> scheme_table" where
  "st_deregister name t = bt_remove name t"

definition st_unregister :: "u8 list \<Rightarrow> scheme_table \<Rightarrow> scheme_table" where
  "st_unregister name t = st_deregister name t"

definition st_list :: "scheme_table \<Rightarrow> u8 list list" where
  "st_list t = map fst t"

definition st_contains :: "u8 list \<Rightarrow> scheme_table \<Rightarrow> bool" where
  "st_contains name t \<longleftrightarrow> bt_get t name \<noteq> None"

subsection \<open>The proxy\<close>

definition proxy_call :: "nat \<Rightarrow> SchemeRequest \<Rightarrow> ep_store \<Rightarrow> (SchemeError + SchemeResponse) \<times> ep_store" where
  "proxy_call ep req st =
     (let (ok, st1) = endpoint_send ep (encode_request req) st in
      if \<not> ok then (Inl Unreachable, st1)
      else case endpoint_recv ep st1 of
        (None, st2) \<Rightarrow> (Inl Unreachable, st2)
      | (Some resp, st2) \<Rightarrow> (case decode_response resp of None \<Rightarrow> Inl Io | Some r \<Rightarrow> Inr r, st2))"

definition proxy_open :: "nat \<Rightarrow> u8 list \<Rightarrow> u32 \<Rightarrow> ep_store \<Rightarrow> (SchemeError + u64) \<times> ep_store" where
  "proxy_open ep path flags st =
     (let (r, st') = proxy_call ep (ReqOpen path flags) st
      in (case r of Inl e \<Rightarrow> Inl e | Inr (RespFd fid) \<Rightarrow> Inr fid | Inr (RespErr e) \<Rightarrow> Inl e | Inr _ \<Rightarrow> Inl Io, st'))"

text \<open>The bytes that \<open>read\<close> copies to the front of the caller's buffer of \<open>len\<close> bytes.\<close>

definition proxy_read :: "nat \<Rightarrow> u64 \<Rightarrow> nat \<Rightarrow> ep_store \<Rightarrow> (SchemeError + u8 list) \<times> ep_store" where
  "proxy_read ep fd len st =
     (let (r, st') = proxy_call ep (ReqRead fd len) st
      in (case r of
            Inl e \<Rightarrow> Inl e
          | Inr (RespData data) \<Rightarrow> Inr (take (min (length data) len) data)
          | Inr (RespErr e) \<Rightarrow> Inl e
          | Inr _ \<Rightarrow> Inl Io, st'))"

definition count_result :: "SchemeError + SchemeResponse \<Rightarrow> SchemeError + nat" where
  "count_result r =
     (case r of Inl e \<Rightarrow> Inl e | Inr (RespCount n) \<Rightarrow> Inr n | Inr (RespErr e) \<Rightarrow> Inl e | Inr _ \<Rightarrow> Inl Io)"

definition proxy_write :: "nat \<Rightarrow> u64 \<Rightarrow> u8 list \<Rightarrow> ep_store \<Rightarrow> (SchemeError + nat) \<times> ep_store" where
  "proxy_write ep fd buf st = (let (r, st') = proxy_call ep (ReqWrite fd buf) st in (count_result r, st'))"

definition proxy_ioctl :: "nat \<Rightarrow> u64 \<Rightarrow> u64 \<Rightarrow> nat \<Rightarrow> ep_store \<Rightarrow> (SchemeError + nat) \<times> ep_store" where
  "proxy_ioctl ep fd cmd arg st = (let (r, st') = proxy_call ep (ReqIoctl fd cmd arg) st in (count_result r, st'))"

definition whence_of :: "nat \<Rightarrow> SeekWhence option" where
  "whence_of n = (if n = 0 then Some Start else if n = 1 then Some Current else if n = 2 then Some End else None)"

definition proxy_seek :: "nat \<Rightarrow> u64 \<Rightarrow> int \<Rightarrow> nat \<Rightarrow> ep_store \<Rightarrow> (SchemeError + nat) \<times> ep_store" where
  "proxy_seek ep fd offset whence st =
     (case whence_of whence of
        None \<Rightarrow> (Inl InvalidArg, st)
      | Some wh \<Rightarrow>
          let (r, st') = proxy_call ep (ReqSeek fd offset wh) st
          in (case r of
                Inl e \<Rightarrow> Inl e
              | Inr (RespSeekPos pos) \<Rightarrow> if pos \<ge> 0 then Inr (nat pos) else Inl InvalidArg
              | Inr (RespErr e) \<Rightarrow> Inl e
              | Inr _ \<Rightarrow> Inl Io, st'))"

definition proxy_close :: "nat \<Rightarrow> u64 \<Rightarrow> ep_store \<Rightarrow> (SchemeError + unit) \<times> ep_store" where
  "proxy_close ep fd st =
     (let (r, st') = proxy_call ep (ReqClose fd) st
      in (case r of Inl e \<Rightarrow> Inl e | Inr RespOk \<Rightarrow> Inr () | Inr (RespErr e) \<Rightarrow> Inl e | Inr _ \<Rightarrow> Inl Io, st'))"

definition open_url ::
  "(nat \<Rightarrow> u8 list \<Rightarrow> u32 \<Rightarrow> SchemeError + u64) \<Rightarrow> u8 list \<Rightarrow> u32 \<Rightarrow> scheme_table \<Rightarrow> ep_store
     \<Rightarrow> (SchemeError + Handler \<times> u64) \<times> ep_store" where
  "open_url native_open url flags t st =
     (case split_once_colon url of
        None \<Rightarrow> (Inl NoSuchScheme, st)
      | Some (name, path) \<Rightarrow>
          (case bt_get t name of
             None \<Rightarrow> (Inl NoSuchScheme, st)
           | Some h \<Rightarrow>
               let (r, st') = (case h of
                      Native n \<Rightarrow> (native_open n path flags, st)
                    | IpcProxyScheme _ ep \<Rightarrow> proxy_open ep path flags st)
               in (case r of Inl e \<Rightarrow> Inl e | Inr fid \<Rightarrow> Inr (h, fid), st')))"

subsection \<open>Registration\<close>

datatype SchemeSysError = SsPermissionDenied | SsInvalidName | SsAlreadyExists | SsNotFound | SsBadAddress

fun scheme_sys_errno :: "SchemeSysError \<Rightarrow> int" where
  "scheme_sys_errno SsPermissionDenied = - 1"
| "scheme_sys_errno SsInvalidName = - 2"
| "scheme_sys_errno SsAlreadyExists = - 3"
| "scheme_sys_errno SsNotFound = - 4"
| "scheme_sys_errno SsBadAddress = - 14"

record SchemeOwner =
  so_pid :: nat
  so_endpoint :: nat

record scheme_world =
  sc_table :: scheme_table
  sc_owners :: "(u8 list, SchemeOwner) btree"
  sc_eps :: ep_store
  sc_procs :: proc_table

definition current_caps :: "nat \<Rightarrow> proc_table \<Rightarrow> CapSet" where
  "current_caps cur t = (case with_proc cur p_caps t of None \<Rightarrow> capset_empty | Some c \<Rightarrow> c)"

definition has_driver_capability :: "nat \<Rightarrow> proc_table \<Rightarrow> bool" where
  "has_driver_capability cur t \<longleftrightarrow>
     cap_has (current_caps cur t) CAP_DRIVER \<or> cap_has (current_caps cur t) CAP_SYS_ADMIN_nr"

definition sys_scheme_register :: "nat \<Rightarrow> u8 list \<Rightarrow> nat \<Rightarrow> scheme_world \<Rightarrow> (SchemeSysError + unit) \<times> scheme_world" where
  "sys_scheme_register cur name ep w =
     (if \<not> has_driver_capability cur (sc_procs w) then (Inl SsPermissionDenied, w)
      else if \<not> valid_scheme_name name then (Inl SsInvalidName, w)
      else if \<not> endpoint_owned_by_current cur ep (sc_eps w) then (Inl SsPermissionDenied, w)
      else case bt_get (sc_owners w) name of
        Some ow \<Rightarrow>
          if so_pid ow \<noteq> cur then (Inl SsAlreadyExists, w)
          else (Inr (), w\<lparr>sc_owners := bt_insert name \<lparr>so_pid = cur, so_endpoint = ep\<rparr> (sc_owners w),
                          sc_table := st_register name (IpcProxyScheme name ep) (sc_table w)\<rparr>)
      | None \<Rightarrow>
          (Inr (), w\<lparr>sc_owners := bt_insert name \<lparr>so_pid = cur, so_endpoint = ep\<rparr> (sc_owners w),
                     sc_table := st_register name (IpcProxyScheme name ep) (sc_table w)\<rparr>))"

definition sys_scheme_unregister :: "nat \<Rightarrow> u8 list \<Rightarrow> scheme_world \<Rightarrow> (SchemeSysError + unit) \<times> scheme_world" where
  "sys_scheme_unregister cur name w =
     (case bt_get (sc_owners w) name of
        None \<Rightarrow> (Inl SsNotFound, w)
      | Some ow \<Rightarrow>
          if so_pid ow = cur
          then (Inr (), w\<lparr>sc_owners := bt_remove name (sc_owners w), sc_table := st_unregister name (sc_table w)\<rparr>)
          else (Inl SsNotFound, w))"



definition copy_scheme_name :: "umem \<Rightarrow> nat \<Rightarrow> nat \<Rightarrow> SchemeSysError + u8 list" where
  "copy_scheme_name um ptr len =
     (if len = 0 \<or> len > 64 \<or> \<not> validate_user_ptr ptr len then Inl SsBadAddress
      else case copy_from_user um ptr len of
        None \<Rightarrow> Inl SsBadAddress
      | Some bytes \<Rightarrow> if valid_utf8 bytes then Inr bytes else Inl SsInvalidName)"

definition sys_result :: "SchemeSysError + unit \<Rightarrow> int" where
  "sys_result r = (case r of Inl e \<Rightarrow> scheme_sys_errno e | Inr _ \<Rightarrow> 0)"

definition dispatch_scheme_register :: "nat \<Rightarrow> umem \<Rightarrow> nat \<Rightarrow> nat \<Rightarrow> nat \<Rightarrow> scheme_world \<Rightarrow> int \<times> scheme_world" where
  "dispatch_scheme_register cur um ptr len ep w =
     (case copy_scheme_name um ptr len of
        Inl e \<Rightarrow> (scheme_sys_errno e, w)
      | Inr name \<Rightarrow> let (r, w') = sys_scheme_register cur name ep w in (sys_result r, w'))"

definition dispatch_scheme_unregister :: "nat \<Rightarrow> umem \<Rightarrow> nat \<Rightarrow> nat \<Rightarrow> scheme_world \<Rightarrow> int \<times> scheme_world" where
  "dispatch_scheme_unregister cur um ptr len w =
     (case copy_scheme_name um ptr len of
        Inl e \<Rightarrow> (scheme_sys_errno e, w)
      | Inr name \<Rightarrow> let (r, w') = sys_scheme_unregister cur name w in (sys_result r, w'))"


subsection \<open>Runs\<close>


























subsection \<open>Properties\<close>









text \<open>
  A call through the proxy does not return the answer to its own request.
  \<open>endpoint_recv\<close> does not wait, so on an idle endpoint the first call fails with
  \<open>Unreachable\<close> and leaves its request queued; once the service has served it, the answer
  stays in the reply queue, and the next call, whatever it asks for, takes that answer as
  its own.
\<close>

theorem proxy_answers_previous_call:
  assumes "bt_get (ep_tab st) (nd_endpoint d) = Some e" "to_server e = []" "to_kernel e = []"
    and "request_size req \<le> MSG_BUF" "request_size req' \<le> IPC_MAX_MESSAGE"
    and "buffer_ok msg_va MSG_BUF um" "resp_va \<noteq> 0" "resp_va + Suc MAX_FRAME_LEN \<le> USER_ADDR_MAX"
    and "\<forall>f \<in> set (rx_pending d). length f \<le> MAX_FRAME_LEN"
  shows "\<exists>st1 d2 st2 st3. proxy_call (nd_endpoint d) req st = (Inl Unreachable, st1) \<and>
    net_iter (owner_pid e) msg_va resp_va um dma dev (d, st1) = Some (d2, st2) \<and>
    proxy_call (nd_endpoint d) req' st2 = (Inr (fst (serve dma req d)), st3)"
proof -
  let ?ep = "nd_endpoint d"
  let ?e1 = "e\<lparr>to_server := [encode_request req]\<rparr>"
  have sz: "request_size req \<le> IPC_MAX_MESSAGE" using assms(4) by (simp add: MSG_BUF_def IPC_MAX_MESSAGE_def)
  obtain st1 where st1: "proxy_call ?ep req st = (Inl Unreachable, st1)" "bt_get (ep_tab st1) ?ep = Some ?e1"
    using assms(1,2,3) sz
    by (simp add: proxy_call_def endpoint_send_def endpoint_recv_def valid_message_len_def length_encode_request
        IPC_MAX_QUEUE_DEPTH_def btree_simps)
  obtain bytes st2 where st2: "net_iter (owner_pid e) msg_va resp_va um dma dev (d, st1) = Some (snd (serve dma req d), st2)"
      "decode_response bytes = Some (fst (serve dma req d))"
      "bt_get (ep_tab st2) ?ep = Some (e\<lparr>to_server := [], to_kernel := [bytes]\<rparr>)"
    using net_iter_serves [where ms = "[]" and dma = dma and dev = dev, OF st1(2) _ _ assms(4,6,7,8,9)] assms(3)
    by (auto simp: IPC_MAX_QUEUE_DEPTH_def)
  have "\<exists>st3. proxy_call ?ep req' st2 = (Inr (fst (serve dma req d)), st3)"
    using st2(2,3) assms(5)
    by (simp add: proxy_call_def endpoint_send_def endpoint_recv_def valid_message_len_def length_encode_request
        IPC_MAX_QUEUE_DEPTH_def btree_simps)
  then show ?thesis using st1(1) st2(1) by blast
qed

theorem proxy_answers_previous_call_witness:
  "\<exists>st1 d2 st2 st3. proxy_call 1 (ReqRead 1 100) demo_ep_store = (Inl Unreachable, st1) \<and>
     net_iter 7 0x1000 0x8000 (\<lambda>_. Some 0) (0x5000, 0x9000) demo_device (demo_driver, st1) = Some (d2, st2) \<and>
     proxy_call 1 (ReqClose 1) st2 = (Inr (RespData [9, 8]), st3)"
proof -
  let ?e = "\<lparr>owner_pid = 7, to_server = [], to_kernel = []\<rparr> :: EndpointState"
  have ep: "nd_endpoint demo_driver = 1" by (simp add: demo_driver_def)
  have s: "fst (serve (0x5000, 0x9000) (ReqRead 1 100) demo_driver) = RespData [9, 8]" by (simp add: demo_driver_def)
  show ?thesis
    using proxy_answers_previous_call [where st = demo_ep_store and d = demo_driver and e = ?e and req = "ReqRead 1 100"
      and req' = "ReqClose 1" and msg_va = "0x1000" and um = "\<lambda>_. Some 0" and resp_va = "0x8000"
      and dma = "(0x5000, 0x9000)" and dev = demo_device] ep s
    by (simp add: demo_ep_store_def MSG_BUF_def IPC_MAX_MESSAGE_def buffer_ok_def USER_ADDR_MAX_def list_all_iff
        MAX_FRAME_LEN_def demo_driver_def)
qed

end
