(* ===== verification/Jbd2.thy ===== *)
theory Jbd2
  imports Uaccess
begin

section \<open>Journal replay\<close>

text \<open>
  The replay of a JBD2 journal into a filesystem image, \<^verbatim>\<open>src/fs/jbd2.rs\<close>. Images and
  journals are byte lists. \<open>None\<close> of a panicky result is the panic of \<open>copy_from_slice\<close> on
  slices of different lengths. The main loop counts the blocks it has scanned up to
  \<open>max_len\<close>; the model recurses on the number of blocks left.
\<close>

definition JBD2_MAGIC :: u32 where "JBD2_MAGIC = 0xC03B3998"
definition JBD2_DESCRIPTOR_BLOCK :: u32 where "JBD2_DESCRIPTOR_BLOCK = 1"
definition JBD2_COMMIT_BLOCK :: u32 where "JBD2_COMMIT_BLOCK = 2"
definition JBD2_SUPERBLOCK_V1 :: u32 where "JBD2_SUPERBLOCK_V1 = 3"
definition JBD2_SUPERBLOCK_V2 :: u32 where "JBD2_SUPERBLOCK_V2 = 4"
definition JBD2_REVOKE_BLOCK :: u32 where "JBD2_REVOKE_BLOCK = 5"

definition JBD2_FLAG_ESCAPE :: u16 where "JBD2_FLAG_ESCAPE = 0x0001"
definition JBD2_FLAG_SAME_UUID :: u16 where "JBD2_FLAG_SAME_UUID = 0x0002"
definition JBD2_FLAG_DELETED :: u16 where "JBD2_FLAG_DELETED = 0x0004"
definition JBD2_FLAG_LAST_TAG :: u16 where "JBD2_FLAG_LAST_TAG = 0x0008"

definition JBD2_FEATURE_INCOMPAT_REVOKE :: u32 where "JBD2_FEATURE_INCOMPAT_REVOKE = 0x01"
definition JBD2_FEATURE_INCOMPAT_64BIT :: u32 where "JBD2_FEATURE_INCOMPAT_64BIT = 0x02"
definition JBD2_FEATURE_INCOMPAT_ASYNC_COMMIT :: u32 where "JBD2_FEATURE_INCOMPAT_ASYNC_COMMIT = 0x04"
definition JBD2_FEATURE_INCOMPAT_CSUM_V2 :: u32 where "JBD2_FEATURE_INCOMPAT_CSUM_V2 = 0x08"
definition JBD2_FEATURE_INCOMPAT_CSUM_V3 :: u32 where "JBD2_FEATURE_INCOMPAT_CSUM_V3 = 0x10"
definition JBD2_FEATURE_INCOMPAT_FAST_COMMIT :: u32 where "JBD2_FEATURE_INCOMPAT_FAST_COMMIT = 0x20"

record JournalSuperblock =
  jsb_block_size :: nat
  jsb_max_len :: u32
  jsb_first :: u32
  jsb_sequence :: u32
  jsb_start :: u32
  jsb_errno :: u32
  jsb_compat :: u32
  jsb_incompat :: u32
  jsb_ro_compat :: u32
  jsb_uuid :: "u8 list"
  jsb_checksum_type :: u8
  jsb_checksum_seed :: u32

record DescriptorTag =
  dt_fs_block :: u64
  dt_flags :: u16
  dt_escaped :: bool

record RevokeRecord =
  rr_sequence :: u32
  rr_fs_block :: u64

record PendingTxn =
  tx_sequence :: u32
  tx_tags :: "DescriptorTag list"
  tx_payloads :: "u8 list list"
  tx_revokes :: "RevokeRecord list"

record ReplayReport =
  rp_seen :: nat
  rp_replayed :: nat
  rp_blocks :: nat
  rp_revokes :: nat
  rp_checksum_failures :: nat
  rp_fast_commit :: nat

definition ReplayReport_default :: ReplayReport where
  "ReplayReport_default = \<lparr>rp_seen = 0, rp_replayed = 0, rp_blocks = 0, rp_revokes = 0,
     rp_checksum_failures = 0, rp_fast_commit = 0\<rparr>"

datatype ReplayError = EmptyJournal | InvalidBlockSize | BadSuperblock | UnsupportedFeature u32 | OutOfBounds

subsection \<open>Reading\<close>

definition from_be :: "nat \<Rightarrow> u8 list \<Rightarrow> nat \<Rightarrow> nat option" where
  "from_be n b off = (if off + n \<le> length b then Some (from_le_bytes (rev (take n (drop off b)))) else None)"

definition be16 :: "u8 list \<Rightarrow> nat \<Rightarrow> u16 option" where "be16 b off = map_option of_nat (from_be 2 b off)"
definition be32 :: "u8 list \<Rightarrow> nat \<Rightarrow> u32 option" where "be32 b off = map_option of_nat (from_be 4 b off)"
definition be64 :: "u8 list \<Rightarrow> nat \<Rightarrow> u64 option" where "be64 b off = map_option of_nat (from_be 8 b off)"

definition unwrap_or :: "'a \<Rightarrow> 'a option \<Rightarrow> 'a" where
  "unwrap_or d x = (case x of None \<Rightarrow> d | Some v \<Rightarrow> v)"

text \<open>\<open>slice::get\<close> with a range, and a product checked against the width of \<open>usize\<close>.\<close>

definition slice_get :: "'a list \<Rightarrow> nat \<Rightarrow> nat \<Rightarrow> 'a list option" where
  "slice_get xs a b = (if a \<le> b \<and> b \<le> length xs then Some (take (b - a) (drop a xs)) else None)"

definition checked_mul :: "nat \<Rightarrow> nat \<Rightarrow> nat option" where
  "checked_mul a b = (if a * b \<le> usize_max then Some (a * b) else None)"

definition header :: "u8 list \<Rightarrow> (u32 \<times> u32 \<times> u32) option" where
  "header block =
     do { magic \<leftarrow> be32 block 0; ty \<leftarrow> be32 block 4; sq \<leftarrow> be32 block 8;
          if magic \<noteq> JBD2_MAGIC then None else Some (magic, ty, sq) }"

definition parse_superblock :: "u8 list \<Rightarrow> JournalSuperblock option" where
  "parse_superblock block =
     do { (_, ty, _) \<leftarrow> header block;
          if ty \<noteq> JBD2_SUPERBLOCK_V1 \<and> ty \<noteq> JBD2_SUPERBLOCK_V2 then None
          else do {
            bs \<leftarrow> be32 block 12; max_len \<leftarrow> be32 block 16; first \<leftarrow> be32 block 20;
            sequ \<leftarrow> be32 block 24; start \<leftarrow> be32 block 28;
            let block_size = unat bs;
                uuid = (if length block \<ge> 64 then take 16 (drop 48 block) else replicate 16 0);
                ctype = (if 80 < length block then block ! 80 else 0)
            in if block_size = 0 \<or> block_size AND (block_size - 1) \<noteq> 0 then None
               else Some \<lparr>jsb_block_size = block_size, jsb_max_len = max_len, jsb_first = first,
                      jsb_sequence = sequ, jsb_start = start, jsb_errno = unwrap_or 0 (be32 block 32),
                      jsb_compat = unwrap_or 0 (be32 block 36), jsb_incompat = unwrap_or 0 (be32 block 40),
                      jsb_ro_compat = unwrap_or 0 (be32 block 44), jsb_uuid = uuid, jsb_checksum_type = ctype,
                      jsb_checksum_seed = unwrap_or 0 (be32 block 84)\<rparr> } }"

definition unsupported_incompat :: "u32 \<Rightarrow> u32" where
  "unsupported_incompat incompat = incompat AND NOT (JBD2_FEATURE_INCOMPAT_REVOKE OR JBD2_FEATURE_INCOMPAT_64BIT
     OR JBD2_FEATURE_INCOMPAT_ASYNC_COMMIT OR JBD2_FEATURE_INCOMPAT_CSUM_V2 OR JBD2_FEATURE_INCOMPAT_CSUM_V3
     OR JBD2_FEATURE_INCOMPAT_FAST_COMMIT)"

definition block_by_journal_index :: "u8 list \<Rightarrow> nat \<Rightarrow> nat \<Rightarrow> u8 list option" where
  "block_by_journal_index journal block_size idx =
     do { off \<leftarrow> checked_mul idx block_size; slice_get journal off (wadd off block_size) }"

definition has_incompat :: "JournalSuperblock \<Rightarrow> u32 \<Rightarrow> bool" where
  "has_incompat sb f \<longleftrightarrow> jsb_incompat sb AND f \<noteq> 0"

subsection \<open>Descriptor and revoke blocks\<close>

definition desc_tail :: "JournalSuperblock \<Rightarrow> nat" where
  "desc_tail sb = (if has_incompat sb JBD2_FEATURE_INCOMPAT_CSUM_V2 \<or> has_incompat sb JBD2_FEATURE_INCOMPAT_CSUM_V3 then 8 else 0)"

text \<open>The flags of the tag at an offset, the end of the tag and the block it names.\<close>

definition tag_at :: "u8 list \<Rightarrow> JournalSuperblock \<Rightarrow> nat \<Rightarrow> u32 \<Rightarrow> u16 \<times> nat \<times> u64" where
  "tag_at block sb off lo =
     (let b64 = has_incompat sb JBD2_FEATURE_INCOMPAT_64BIT;
          hi = (if b64 then unwrap_or 0 (be32 block (off + 4)) else 0);
          o1 = (if b64 then off + 8 else off + 4);
          flags = unwrap_or 0 (be16 block o1);
          o2 = o1 + 2;
          o3 = (if flags AND JBD2_FLAG_SAME_UUID = 0 then o2 + 16 else o2);
          o4 = (if has_incompat sb JBD2_FEATURE_INCOMPAT_CSUM_V3 then o3 + 4
                else if has_incompat sb JBD2_FEATURE_INCOMPAT_CSUM_V2 then o3 + 2 else o3)
      in (flags, o4, push_bit 32 (ucast hi) OR ucast lo))"

lemma tag_at_end: "tag_at block sb off lo = (flags, e, b) \<Longrightarrow> off < e"
  by (auto simp: tag_at_def Let_def split: if_splits)

function parse_tags :: "u8 list \<Rightarrow> JournalSuperblock \<Rightarrow> nat \<Rightarrow> DescriptorTag list" where
  "parse_tags block sb off =
     (if off + 8 \<le> length block - desc_tail sb
      then case be32 block off of
             None \<Rightarrow> []
           | Some lo \<Rightarrow>
               (case tag_at block sb off lo of
                  (flags, e, fs_block) \<Rightarrow>
                    if e > length block then []
                    else (if flags AND JBD2_FLAG_DELETED = 0
                          then [\<lparr>dt_fs_block = fs_block, dt_flags = flags, dt_escaped = (flags AND JBD2_FLAG_ESCAPE \<noteq> 0)\<rparr>]
                          else []) @
                         (if flags AND JBD2_FLAG_LAST_TAG \<noteq> 0 then [] else parse_tags block sb e))
      else [])"
  by pat_completeness auto
termination
  by (relation "measure (\<lambda>(block, sb, off). length block - off)") (auto dest!: tag_at_end [OF sym])

declare parse_tags.simps [simp del]

definition parse_descriptor :: "u8 list \<Rightarrow> JournalSuperblock \<Rightarrow> DescriptorTag list" where
  "parse_descriptor block sb = parse_tags block sb 12"

function revoke_records :: "u8 list \<Rightarrow> bool \<Rightarrow> u32 \<Rightarrow> nat \<Rightarrow> nat \<Rightarrow> RevokeRecord list" where
  "revoke_records block b64 sq e off =
     (let rec_len = (if b64 then 8 else 4) in
      if off + rec_len \<le> e
      then \<lparr>rr_sequence = sq, rr_fs_block = (if b64 then unwrap_or 0 (be64 block off) else ucast (unwrap_or 0 (be32 block off)))\<rparr>
           # revoke_records block b64 sq e (off + rec_len)
      else [])"
  by pat_completeness auto
termination
  by (relation "measure (\<lambda>(block, b64, sq, e, off). e - off)") (auto split: if_splits)

declare revoke_records.simps [simp del]

definition parse_revoke :: "u8 list \<Rightarrow> JournalSuperblock \<Rightarrow> u32 \<Rightarrow> RevokeRecord list" where
  "parse_revoke block sb sq =
     (let used = unat (unwrap_or (of_nat (length block)) (be32 block 12))
      in revoke_records block (has_incompat sb JBD2_FEATURE_INCOMPAT_64BIT) sq (min used (length block)) 16)"

definition is_revoked :: "RevokeRecord list \<Rightarrow> u32 \<Rightarrow> u64 \<Rightarrow> bool" where
  "is_revoked rs sq b \<longleftrightarrow> list_ex (\<lambda>r. rr_sequence r = sq \<and> rr_fs_block r = b) rs"

subsection \<open>Applying a transaction\<close>

definition write_at :: "'a list \<Rightarrow> nat \<Rightarrow> 'a list \<Rightarrow> 'a list" where
  "write_at img off bs = take off img @ bs @ drop (off + length bs) img"

definition magic_bytes :: "u8 list" where "magic_bytes = [0xC0, 0x3B, 0x39, 0x98]"

fun apply_tags :: "nat \<Rightarrow> PendingTxn \<Rightarrow> DescriptorTag list \<Rightarrow> nat \<Rightarrow> u8 list \<Rightarrow> (nat \<times> u8 list) panicky" where
  "apply_tags bs txn [] idx img = Some (0, img)"
| "apply_tags bs txn (tag # tags) idx img =
     (if is_revoked (tx_revokes txn) (tx_sequence txn) (dt_fs_block tag) then apply_tags bs txn tags (Suc idx) img
      else if idx \<ge> length (tx_payloads txn) then Some (0, img)
      else case checked_mul (unat (dt_fs_block tag)) bs of
        None \<Rightarrow> apply_tags bs txn tags (Suc idx) img
      | Some dst_off \<Rightarrow>
          (case slice_get img dst_off (wadd dst_off bs) of
             None \<Rightarrow> apply_tags bs txn tags (Suc idx) img
           | Some dst \<Rightarrow>
               let src = tx_payloads txn ! idx in
               if length src \<noteq> length dst then None
               else let new = (if dt_escaped tag \<and> length dst \<ge> 4 then magic_bytes @ drop 4 src else src)
                    in map_option (\<lambda>(n, img'). (Suc n, img')) (apply_tags bs txn tags (Suc idx) (write_at img dst_off new))))"

definition apply_txn :: "u8 list \<Rightarrow> nat \<Rightarrow> PendingTxn \<Rightarrow> (nat \<times> u8 list) panicky" where
  "apply_txn img bs txn = apply_tags bs txn (tx_tags txn) 0 img"

subsection \<open>Replay\<close>

text \<open>The body of the loop on one block: the pending transaction, the report and the image.\<close>

type_synonym replay_state = "PendingTxn option \<times> ReplayReport \<times> u8 list"

definition replay_block :: "JournalSuperblock \<Rightarrow> u8 list \<Rightarrow> replay_state \<Rightarrow> replay_state panicky" where
  "replay_block sb block = (\<lambda>(cur, rp, img).
     case header block of
       None \<Rightarrow> Some (map_option (\<lambda>t. t\<lparr>tx_payloads := tx_payloads t @ [block]\<rparr>) cur, rp, img)
     | Some (_, ty, sq) \<Rightarrow>
         if ty = JBD2_DESCRIPTOR_BLOCK
         then Some (Some \<lparr>tx_sequence = sq, tx_tags = parse_descriptor block sb, tx_payloads = [], tx_revokes = []\<rparr>,
                    rp\<lparr>rp_seen := rp_seen rp + 1\<rparr>, img)
         else if ty = JBD2_REVOKE_BLOCK
         then let rs = parse_revoke block sb sq
              in Some (map_option (\<lambda>t. t\<lparr>tx_revokes := tx_revokes t @ rs\<rparr>) cur,
                       rp\<lparr>rp_revokes := rp_revokes rp + length rs\<rparr>, img)
         else if ty = JBD2_COMMIT_BLOCK
         then (case cur of
                 None \<Rightarrow> Some (None, rp, img)
               | Some t \<Rightarrow>
                   if tx_sequence t = sq
                   then map_option (\<lambda>(n, img'). (None, rp\<lparr>rp_blocks := rp_blocks rp + n, rp_replayed := rp_replayed rp + 1\<rparr>, img'))
                          (apply_txn img (jsb_block_size sb) t)
                   else Some (None, rp, img))
         else if ty = JBD2_SUPERBLOCK_V1 \<or> ty = JBD2_SUPERBLOCK_V2 then Some (cur, rp, img)
         else Some (cur, if ty = JBD2_FEATURE_INCOMPAT_FAST_COMMIT then rp\<lparr>rp_fast_commit := rp_fast_commit rp + 1\<rparr> else rp, img))"

fun replay_loop :: "nat \<Rightarrow> u8 list \<Rightarrow> JournalSuperblock \<Rightarrow> nat \<Rightarrow> replay_state \<Rightarrow> replay_state panicky" where
  "replay_loop 0 journal sb idx st = Some st"
| "replay_loop (Suc left) journal sb idx st =
     (case block_by_journal_index journal (jsb_block_size sb) idx of
        None \<Rightarrow> Some st
      | Some block \<Rightarrow>
          do { st' \<leftarrow> replay_block sb block st;
               replay_loop left journal sb (if idx + 1 \<ge> unat (jsb_max_len sb) then unat (jsb_first sb) else idx + 1) st' })"

definition replay_start :: "JournalSuperblock \<Rightarrow> nat" where
  "replay_start sb =
     (let idx = (if jsb_start sb = 0 then unat (jsb_first sb) else unat (jsb_start sb))
      in if idx = 0 then 1 else idx)"

definition replay_journal_image :: "u8 list \<Rightarrow> u8 list \<Rightarrow> ((ReplayError + ReplayReport) \<times> u8 list) panicky" where
  "replay_journal_image img journal =
     (case slice_get journal 0 1024 of
        None \<Rightarrow> Some (Inl EmptyJournal, img)
      | Some sb_block \<Rightarrow>
          (case parse_superblock sb_block of
             None \<Rightarrow> Some (Inl BadSuperblock, img)
           | Some sb \<Rightarrow>
               if jsb_block_size sb = 0 \<or> jsb_block_size sb > 65536 then Some (Inl InvalidBlockSize, img)
               else if unsupported_incompat (jsb_incompat sb) \<noteq> 0
               then Some (Inl (UnsupportedFeature (unsupported_incompat (jsb_incompat sb))), img)
               else let max_len = unat (jsb_max_len sb) in
                 if max_len = 0 \<or> (case checked_mul max_len (jsb_block_size sb) of None \<Rightarrow> True | Some n \<Rightarrow> n > length journal)
                 then Some (Inl OutOfBounds, img)
                 else map_option (\<lambda>(_, rp, img'). (Inr rp, img'))
                        (replay_loop max_len journal sb (replay_start sb) (None, ReplayReport_default, img))))"

text \<open>The journal image gathered from the blocks of the filesystem; \<open>None\<close> is out of bounds.\<close>

fun gather :: "u8 list \<Rightarrow> nat \<Rightarrow> u64 list \<Rightarrow> u8 list option" where
  "gather img bs [] = Some []"
| "gather img bs (blk # blks) =
     do { off \<leftarrow> checked_mul (unat blk) bs; src \<leftarrow> slice_get img off (wadd off bs);
          rest \<leftarrow> gather img bs blks; Some (src @ rest) }"

definition replay_from_block_list :: "u8 list \<Rightarrow> nat \<Rightarrow> u64 list \<Rightarrow> ((ReplayError + ReplayReport) \<times> u8 list) panicky" where
  "replay_from_block_list img bs blks =
     (if bs = 0 \<or> blks = [] then Some (Inl EmptyJournal, img)
      else case gather img bs blks of
        None \<Rightarrow> Some (Inl OutOfBounds, img)
      | Some journal \<Rightarrow> replay_journal_image img journal)"

subsection \<open>Blocks of images\<close>

lemma length_write_at: "off + length bs \<le> length img \<Longrightarrow> length (write_at img off bs) = length img"
  by (simp add: write_at_def)

lemma nth_write_at:
  assumes "off + length bs \<le> length img" "i < length img"
  shows "write_at img off bs ! i = (if off \<le> i \<and> i < off + length bs then bs ! (i - off) else img ! i)"
  using assms by (auto simp: write_at_def nth_append)

lemma slice_block:
  assumes "slice_get xs off (wadd off bs) = Some d" "off \<le> usize_max" "bs \<le> 65536"
  shows "off + bs \<le> length xs \<and> d = take bs (drop off xs) \<and> length d = bs"
proof -
  have "off + bs < 2 ^ 64"
  proof (rule ccontr)
    assume ov: "\<not> off + bs < 2 ^ 64"
    then have "(off + bs) mod 2 ^ 64 = off + bs - 2 ^ 64" using assms(2,3) by (simp add: usize_max_def mod_if)
    then show False using assms ov by (simp add: slice_get_def wadd_def usize_max_def split: if_splits)
  qed
  then show ?thesis using assms(1) by (auto simp: slice_get_def wadd_eq split: if_splits)
qed

lemma slice_blockI: "off + bs \<le> length xs \<Longrightarrow> off + bs < 2 ^ 64 \<Longrightarrow> slice_get xs off (wadd off bs) = Some (take bs (drop off xs))"
  by (simp add: slice_get_def wadd_eq)

lemma checked_mul_Some: "checked_mul a b = Some n \<Longrightarrow> n = a * b \<and> n \<le> usize_max"
  by (auto simp: checked_mul_def split: if_splits)

subsection \<open>What a replay touches\<close>

definition escape :: "DescriptorTag \<Rightarrow> u8 list \<Rightarrow> u8 list" where
  "escape tag src = (if dt_escaped tag \<and> 4 \<le> length src then magic_bytes @ drop 4 src else src)"

lemma length_escape [simp]: "length (escape tag src) = length src"
  by (auto simp: escape_def magic_bytes_def)

definition unchanged_outside :: "nat \<Rightarrow> nat set \<Rightarrow> u8 list \<Rightarrow> u8 list \<Rightarrow> bool" where
  "unchanged_outside bs B img img' \<longleftrightarrow>
     length img' = length img \<and> (\<forall>i < length img. img' ! i \<noteq> img ! i \<longrightarrow> i div bs \<in> B)"

lemma unchanged_refl: "unchanged_outside bs B img img"
  by (simp add: unchanged_outside_def)

lemma unchanged_trans:
  "unchanged_outside bs B img img1 \<Longrightarrow> unchanged_outside bs B img1 img2 \<Longrightarrow> unchanged_outside bs B img img2"
  unfolding unchanged_outside_def by metis

lemma unchanged_write:
  assumes "b * bs + bs \<le> length img" "length new = bs" "b \<in> B" "0 < bs"
  shows "unchanged_outside bs B img (write_at img (b * bs) new)"
proof -
  have "i div bs = b" if "b * bs \<le> i" "i < b * bs + bs" for i
    using that assms(4) by (intro div_nat_eqI) (simp_all add: mult.commute)
  then show ?thesis using assms by (auto simp: unchanged_outside_def length_write_at nth_write_at)
qed

text \<open>
  The reference for applying a transaction: each payload, with its magic restored, is written to
  the block its tag names, if the image has that block.
\<close>

fun install :: "nat \<Rightarrow> (DescriptorTag \<times> u8 list) list \<Rightarrow> u8 list \<Rightarrow> u8 list" where
  "install bs [] img = img"
| "install bs ((tag, p) # ws) img =
     (let off = unat (dt_fs_block tag) * bs
      in install bs ws (if off + bs \<le> length img then write_at img off (escape tag p) else img))"

definition live_writes :: "PendingTxn \<Rightarrow> DescriptorTag list \<Rightarrow> nat \<Rightarrow> (DescriptorTag \<times> u8 list) list" where
  "live_writes txn tags idx =
     filter (\<lambda>(tag, _). \<not> is_revoked (tx_revokes txn) (tx_sequence txn) (dt_fs_block tag)) (zip tags (drop idx (tx_payloads txn)))"

lemma live_writes_Cons:
  assumes "idx < length (tx_payloads txn)"
  shows "live_writes txn (tag # tags) idx =
    (if is_revoked (tx_revokes txn) (tx_sequence txn) (dt_fs_block tag) then [] else [(tag, tx_payloads txn ! idx)])
      @ live_writes txn tags (Suc idx)"
  using assms by (simp add: live_writes_def Cons_nth_drop_Suc [symmetric])

lemma live_writes_done: "length (tx_payloads txn) \<le> idx \<Longrightarrow> live_writes txn tags idx = []"
  by (simp add: live_writes_def)

lemma apply_tags_install:
  assumes "\<forall>p \<in> set (tx_payloads txn). length p = bs" "bs \<le> 65536" "length img \<le> usize_max"
  shows "\<exists>n. apply_tags bs txn tags idx img = Some (n, install bs (live_writes txn tags idx) img)"
  using assms
proof (induction bs txn tags idx img rule: apply_tags.induct)
  case (1 bs txn idx img)
  then show ?case by (simp add: live_writes_def)
next
  case (2 bs txn tag tags idx img)
  let ?src = "tx_payloads txn ! idx" and ?off = "unat (dt_fs_block tag) * bs"
  consider "is_revoked (tx_revokes txn) (tx_sequence txn) (dt_fs_block tag)"
    | "\<not> is_revoked (tx_revokes txn) (tx_sequence txn) (dt_fs_block tag)" "length (tx_payloads txn) \<le> idx"
    | "\<not> is_revoked (tx_revokes txn) (tx_sequence txn) (dt_fs_block tag)" "idx < length (tx_payloads txn)" by linarith
  then show ?case
  proof cases
    case 1
    then show ?thesis using "2.IH"(1) "2.prems"
      by (cases "idx < length (tx_payloads txn)") (auto simp: live_writes_Cons live_writes_done)
  next
    case c2: 2
    then show ?thesis by (simp add: live_writes_done)
  next
    case 3
    have src: "length ?src = bs" using 3(2) "2.prems"(1) by simp
    show ?thesis
    proof (cases "?off + bs \<le> length img")
      case True
      then have c: "checked_mul (unat (dt_fs_block tag)) bs = Some ?off"
        and g: "slice_get img ?off (wadd ?off bs) = Some (take bs (drop ?off img))"
        using "2.prems"(3) by (simp_all add: checked_mul_def slice_blockI usize_max_def)
      have l: "length (take bs (drop ?off img)) = bs" using True by simp
      have e: "(if dt_escaped tag \<and> 4 \<le> length (take bs (drop ?off img)) then magic_bytes @ drop 4 ?src else ?src) = escape tag ?src"
        using src l by (simp add: escape_def)
      obtain n where "apply_tags bs txn tags (Suc idx) (write_at img ?off (escape tag ?src)) =
          Some (n, install bs (live_writes txn tags (Suc idx)) (write_at img ?off (escape tag ?src)))"
        using "2.IH"(4) [OF 3(1) _ c g _ _ refl] 3 src l e "2.prems" True by (auto simp: length_write_at)
      then show ?thesis using 3 c g src l e True by (simp add: live_writes_Cons Let_def)
    next
      case False
      have "slice_get img o' (wadd o' bs) = None" if "checked_mul (unat (dt_fs_block tag)) bs = Some o'" for o'
        using slice_block [of img o' bs] checked_mul_Some [OF that] False "2.prems"(2)
        by (cases "slice_get img o' (wadd o' bs)") auto
      then show ?thesis using 3 "2.IH"(2,3) "2.prems" False
        by (cases "checked_mul (unat (dt_fs_block tag)) bs") (auto simp: live_writes_Cons)
    qed
  qed
qed

lemma install_touches:
  assumes "\<And>tag p. (tag, p) \<in> set ws \<Longrightarrow> length p = bs \<and> unat (dt_fs_block tag) \<in> B" "0 < bs"
  shows "unchanged_outside bs B img (install bs ws img)"
  using assms(1)
proof (induction ws arbitrary: img)
  case (Cons w ws)
  obtain tag p where w: "w = (tag, p)" by force
  have tp: "length p = bs" "unat (dt_fs_block tag) \<in> B" using Cons.prems w by auto
  have rest: "unchanged_outside bs B img1 (install bs ws img1)" for img1 using Cons by auto
  show ?case using rest unchanged_write [OF _ _ tp(2) assms(2), of img "escape tag p"] tp(1)
    by (auto simp: w Let_def intro: unchanged_trans)
qed (simp add: unchanged_refl)

subsection \<open>Runs of the replay over a list of blocks\<close>

fun replay_blocks :: "JournalSuperblock \<Rightarrow> u8 list list \<Rightarrow> replay_state \<Rightarrow> replay_state panicky" where
  "replay_blocks sb [] st = Some st"
| "replay_blocks sb (b # bl) st = do { st' \<leftarrow> replay_block sb b st; replay_blocks sb bl st' }"

lemma replay_blocks_append: "replay_blocks sb (bl @ bl') st = do { st' \<leftarrow> replay_blocks sb bl st; replay_blocks sb bl' st' }"
proof (induction bl arbitrary: st)
  case (Cons b bl)
  then show ?case by (cases "replay_block sb b st") simp_all
qed simp

definition pending_ok :: "nat \<Rightarrow> nat set \<Rightarrow> PendingTxn option \<Rightarrow> bool" where
  "pending_ok bs B cur = (case cur of None \<Rightarrow> True | Some t \<Rightarrow>
     (\<forall>p \<in> set (tx_payloads t). length p = bs) \<and> (\<forall>tag \<in> set (tx_tags t). unat (dt_fs_block tag) \<in> B))"

definition named_blocks :: "JournalSuperblock \<Rightarrow> u8 list \<Rightarrow> nat set" where
  "named_blocks sb block = (case header block of
     None \<Rightarrow> {}
   | Some (_, ty, _) \<Rightarrow> if ty = JBD2_DESCRIPTOR_BLOCK then (\<lambda>t. unat (dt_fs_block t)) ` set (parse_descriptor block sb) else {})"

lemmas jbd_types = JBD2_DESCRIPTOR_BLOCK_def JBD2_COMMIT_BLOCK_def JBD2_REVOKE_BLOCK_def JBD2_SUPERBLOCK_V1_def
  JBD2_SUPERBLOCK_V2_def JBD2_FEATURE_INCOMPAT_FAST_COMMIT_def

lemma set_live_writes: "(tag, p) \<in> set (live_writes txn tags idx) \<Longrightarrow> tag \<in> set tags \<and> p \<in> set (tx_payloads txn)"
  by (auto simp: live_writes_def dest: set_zip_leftD set_zip_rightD in_set_dropD)

lemma apply_txn_ok:
  assumes "pending_ok bs B (Some t)" "0 < bs" "bs \<le> 65536" "length img \<le> usize_max"
  shows "\<exists>n. apply_txn img bs t = Some (n, install bs (live_writes t (tx_tags t) 0) img) \<and>
    unchanged_outside bs B img (install bs (live_writes t (tx_tags t) 0) img)"
  using apply_tags_install [of t bs img "tx_tags t" 0] assms
    install_touches [of "live_writes t (tx_tags t) 0" bs B img] set_live_writes [of _ _ t "tx_tags t" 0]
  by (fastforce simp: pending_ok_def apply_txn_def)

lemma replay_block_ok:
  assumes "pending_ok bs B cur" "0 < bs" "bs \<le> 65536" "length img \<le> usize_max" "bs = jsb_block_size sb"
    and "length block = bs" "named_blocks sb block \<subseteq> B"
  shows "\<exists>cur' rp' img'. replay_block sb block (cur, rp, img) = Some (cur', rp', img') \<and> pending_ok bs B cur' \<and>
    unchanged_outside bs B img img'"
proof (cases "header block")
  case None
  then show ?thesis using assms by (cases cur) (auto simp: replay_block_def pending_ok_def unchanged_refl)
next
  case (Some h)
  obtain m ty sq where h: "h = (m, ty, sq)" by (cases h)
  show ?thesis
  proof (cases "ty = JBD2_COMMIT_BLOCK")
    case True
    note hc = Some [unfolded h True]
    show ?thesis
    proof (cases "\<exists>t. cur = Some t \<and> tx_sequence t = sq")
      case True
      then obtain t where t: "cur = Some t" "tx_sequence t = sq" by auto
      from apply_txn_ok [OF assms(1) [unfolded t(1)] assms(2,3,4)]
      show ?thesis using hc t assms(5) by (auto simp: replay_block_def jbd_types pending_ok_def)
    next
      case False
      then show ?thesis using hc by (cases cur) (auto simp: replay_block_def jbd_types pending_ok_def unchanged_refl)
    qed
  next
    case False
    then show ?thesis using Some h assms
      by (cases cur) (auto simp: replay_block_def pending_ok_def unchanged_refl named_blocks_def Let_def)
  qed
qed

lemma journal_block_length:
  "block_by_journal_index journal bs idx = Some block \<Longrightarrow> bs \<le> 65536 \<Longrightarrow> length block = bs"
  using slice_block checked_mul_Some by (fastforce simp: block_by_journal_index_def bind_eq_Some_conv)

lemma replay_loop_ok:
  assumes "pending_ok bs B cur" "0 < bs" "bs \<le> 65536" "length img \<le> usize_max" "bs = jsb_block_size sb"
    and "\<And>idx block. block_by_journal_index journal bs idx = Some block \<Longrightarrow> named_blocks sb block \<subseteq> B"
  shows "\<exists>cur' rp' img'. replay_loop n journal sb idx (cur, rp, img) = Some (cur', rp', img') \<and> unchanged_outside bs B img img'"
  using assms(1,4)
proof (induction n arbitrary: idx cur rp img)
  case (Suc n)
  show ?case
  proof (cases "block_by_journal_index journal bs idx")
    case None
    then show ?thesis using assms(5) by (simp add: unchanged_refl)
  next
    case (Some block)
    obtain cur1 rp1 img1 where 1: "replay_block sb block (cur, rp, img) = Some (cur1, rp1, img1)" "pending_ok bs B cur1"
        "unchanged_outside bs B img img1"
      using replay_block_ok [OF Suc.prems(1) assms(2,3) Suc.prems(2) assms(5) journal_block_length [OF Some assms(3)] assms(6) [OF Some]]
      by blast
    have "length img1 \<le> usize_max" using 1(3) Suc.prems(2) by (simp add: unchanged_outside_def)
    from Suc.IH [OF 1(2) this] obtain cur' rp' img' where
      "replay_loop n journal sb (if idx + 1 \<ge> unat (jsb_max_len sb) then unat (jsb_first sb) else idx + 1) (cur1, rp1, img1) = Some (cur', rp', img')"
      "unchanged_outside bs B img1 img'" by blast
    then show ?thesis using Some 1 assms(5) by (auto intro: unchanged_trans)
  qed
qed (simp add: unchanged_refl)

subsection \<open>Well-formed logs\<close>

text \<open>A transaction in the log: its descriptor block, its payload blocks and its commit block.\<close>

record log_txn =
  lt_seq :: u32
  lt_desc :: "u8 list"
  lt_data :: "u8 list list"
  lt_commit :: "u8 list"

definition txn_ok :: "log_txn \<Rightarrow> bool" where
  "txn_ok t \<longleftrightarrow> header (lt_desc t) = Some (JBD2_MAGIC, JBD2_DESCRIPTOR_BLOCK, lt_seq t) \<and>
     header (lt_commit t) = Some (JBD2_MAGIC, JBD2_COMMIT_BLOCK, lt_seq t) \<and> (\<forall>p \<in> set (lt_data t). header p = None)"

definition txn_blocks :: "log_txn \<Rightarrow> u8 list list" where
  "txn_blocks t = lt_desc t # lt_data t @ [lt_commit t]"

definition txn_install :: "JournalSuperblock \<Rightarrow> log_txn \<Rightarrow> u8 list \<Rightarrow> u8 list" where
  "txn_install sb t = install (jsb_block_size sb) (zip (parse_descriptor (lt_desc t) sb) (lt_data t))"


lemma replay_data:
  "\<forall>p \<in> set ps. header p = None \<Longrightarrow>
   replay_blocks sb ps (cur, rp, img) = Some (map_option (\<lambda>t. t\<lparr>tx_payloads := tx_payloads t @ ps\<rparr>) cur, rp, img)"
  by (induction ps arbitrary: cur) (simp_all add: replay_block_def option.map_comp comp_def option.map_ident)

lemma replay_desc:
  assumes "txn_ok t"
  shows "replay_block sb (lt_desc t) (cur, rp, img) =
    Some (Some \<lparr>tx_sequence = lt_seq t, tx_tags = parse_descriptor (lt_desc t) sb, tx_payloads = [], tx_revokes = []\<rparr>,
          rp\<lparr>rp_seen := rp_seen rp + 1\<rparr>, img)"
  using assms by (simp add: txn_ok_def replay_block_def)

lemma replay_txn:
  assumes "txn_ok t" "\<forall>p \<in> set (lt_data t). length p = jsb_block_size sb" "jsb_block_size sb \<le> 65536" "length img \<le> usize_max"
  shows "\<exists>rp'. replay_blocks sb (txn_blocks t) (cur, rp, img) = Some (None, rp', txn_install sb t img)"
proof -
  let ?t = "\<lparr>tx_sequence = lt_seq t, tx_tags = parse_descriptor (lt_desc t) sb, tx_payloads = lt_data t, tx_revokes = []\<rparr>"
  have "live_writes ?t (tx_tags ?t) 0 = zip (parse_descriptor (lt_desc t) sb) (lt_data t)"
    by (simp add: live_writes_def is_revoked_def case_prod_unfold)
  then obtain n where a: "apply_txn img (jsb_block_size sb) ?t = Some (n, txn_install sb t img)"
    using apply_tags_install [of ?t "jsb_block_size sb" img "tx_tags ?t" 0] assms(2-4)
    by (auto simp: apply_txn_def txn_install_def)
  have d: "replay_blocks sb (lt_data t) (Some (?t\<lparr>tx_payloads := []\<rparr>), rp', img) = Some (Some ?t, rp', img)" for rp'
    using assms(1) by (simp add: txn_ok_def replay_data)
  show ?thesis unfolding txn_blocks_def
    using replay_desc [OF assms(1), of sb cur rp img] d a assms(1)
    by (simp add: replay_blocks_append replay_block_def [of sb "lt_commit t"] txn_ok_def jbd_types)
qed




subsection \<open>The loop and the journal image\<close>








definition demo_sbblk :: "u8 list" where
  "demo_sbblk = magic_bytes @ [0, 0, 0, 4, 0, 0, 0, 0, 0, 0, 4, 0, 0, 0, 0, 4, 0, 0, 0, 1, 0, 0, 0, 1, 0, 0, 0, 1] @ replicate 992 0"

definition demo_txn :: log_txn where
  "demo_txn = \<lparr>lt_seq = 1, lt_desc = magic_bytes @ [0, 0, 0, 1, 0, 0, 0, 1, 0, 0, 0, 3, 0, 10] @ replicate 1006 0,
     lt_data = [replicate 1024 7], lt_commit = magic_bytes @ [0, 0, 0, 2, 0, 0, 0, 1] @ replicate 1012 0\<rparr>"

definition demo_sb :: JournalSuperblock where
  "demo_sb = \<lparr>jsb_block_size = 1024, jsb_max_len = 4, jsb_first = 1, jsb_sequence = 1, jsb_start = 1, jsb_errno = 0,
     jsb_compat = 0, jsb_incompat = 0, jsb_ro_compat = 0, jsb_uuid = replicate 16 0, jsb_checksum_type = 0, jsb_checksum_seed = 0\<rparr>"

lemmas be_simps = be16_def be32_def from_be_def from_le_bytes_def magic_bytes_def

lemma header_simps:
  "header (magic_bytes @ [a, b, c, d, e, f, g, h] @ xs) =
     Some (JBD2_MAGIC, of_nat (from_le_bytes [d, c, b, a]), of_nat (from_le_bytes [h, g, f, e]))"
  by (simp add: header_def be_simps JBD2_MAGIC_def)

lemma replicate_four: "replicate 4 x = [x, x, x, x]"
  by (simp add: eval_nat_numeral)

lemma demo_headers: "txn_ok demo_txn" "header (replicate 1024 0) = None"
proof -
  have "header (magic_bytes @ [0, 0, 0, 1, 0, 0, 0, 1] @ [0, 0, 0, 3, 0, 10] @ replicate 1006 0) = Some (JBD2_MAGIC, 1, 1)"
    "header (magic_bytes @ [0, 0, 0, 2, 0, 0, 0, 1] @ replicate 1012 0) = Some (JBD2_MAGIC, 2, 1)"
    by (simp_all only: header_simps) (simp_all add: from_le_bytes_def)
  moreover have "header (replicate 1024 7) = None" "header (replicate 1024 0) = None"
    by (simp_all add: header_def be32_def from_be_def from_le_bytes_def JBD2_MAGIC_def replicate_four)
  ultimately show "txn_ok demo_txn" "header (replicate 1024 0) = None"
    by (simp_all add: txn_ok_def demo_txn_def JBD2_DESCRIPTOR_BLOCK_def JBD2_COMMIT_BLOCK_def)
qed




text \<open>
  C27. Replay is confined, whatever bytes the journal holds: it does not panic, it does not change
  the size of the image, it leaves the image alone when it reports an error, and it changes
  only bytes of blocks that a tag of some descriptor block in the journal names.
\<close>

theorem replay_confined:
  assumes "length img \<le> usize_max"
  shows "\<exists>r img'. replay_journal_image img journal = Some (r, img') \<and> length img' = length img \<and>
    (case r of
       Inl e \<Rightarrow> img' = img
     | Inr rp \<Rightarrow> \<exists>sb. parse_superblock (take 1024 journal) = Some sb \<and>
         (\<forall>i < length img. img' ! i \<noteq> img ! i \<longrightarrow>
            (\<exists>idx block. block_by_journal_index journal (jsb_block_size sb) idx = Some block \<and>
               i div jsb_block_size sb \<in> named_blocks sb block)))"
proof (cases "\<exists>e. replay_journal_image img journal = Some (Inl e, img)")
  case False
  then obtain sb where sb: "parse_superblock (take 1024 journal) = Some sb" "0 < jsb_block_size sb" "jsb_block_size sb \<le> 65536"
    and r: "replay_journal_image img journal = map_option (\<lambda>(_, rp, img'). (Inr rp, img'))
      (replay_loop (unat (jsb_max_len sb)) journal sb (replay_start sb) (None, ReplayReport_default, img))"
    by (auto simp: replay_journal_image_def slice_get_def Let_def split: option.splits if_splits)
  let ?B = "{b. \<exists>idx block. block_by_journal_index journal (jsb_block_size sb) idx = Some block \<and> b \<in> named_blocks sb block}"
  have "\<exists>cur' rp' img'. replay_loop (unat (jsb_max_len sb)) journal sb (replay_start sb) (None, ReplayReport_default, img) =
      Some (cur', rp', img') \<and> unchanged_outside (jsb_block_size sb) ?B img img'"
    by (rule replay_loop_ok) (use sb assms in \<open>auto simp: pending_ok_def\<close>)
  then show ?thesis using r sb(1) by (auto simp: unchanged_outside_def)
qed auto

theorem replay_confined_witness:
  "\<exists>r img'. replay_journal_image (replicate 4096 0) demo_sbblk = Some (r, img') \<and> length img' = 4096"
  using replay_confined [of "replicate 4096 0" demo_sbblk] by (auto simp: usize_max_def)

text \<open>
  A transaction that needs more than one descriptor block is not replayed as a whole: the
  second descriptor block starts a new pending transaction, so the commit block applies
  only the payloads behind it and the blocks the first descriptor named are lost.
\<close>

theorem second_descriptor_discards_first:
  assumes "header d1 = Some (JBD2_MAGIC, JBD2_DESCRIPTOR_BLOCK, lt_seq t)" "\<forall>p \<in> set ps. header p = None" "txn_ok t"
    and "\<forall>p \<in> set (lt_data t). length p = jsb_block_size sb" "jsb_block_size sb \<le> 65536" "length img \<le> usize_max"
  shows "\<exists>rp'. replay_blocks sb (d1 # ps @ txn_blocks t) (cur, rp, img) = Some (None, rp', txn_install sb t img)"
proof -
  let ?c = "Some \<lparr>tx_sequence = lt_seq t, tx_tags = parse_descriptor d1 sb, tx_payloads = [], tx_revokes = []\<rparr>"
  have "replay_block sb d1 (cur, rp, img) = Some (?c, rp\<lparr>rp_seen := rp_seen rp + 1\<rparr>, img)"
    using assms(1) by (simp add: replay_block_def)
  then show ?thesis using replay_txn [OF assms(3-6)] assms(2)
    by (simp add: replay_blocks_append replay_data)
qed

theorem second_descriptor_discards_first_witness:
  "\<exists>rp'. replay_blocks demo_sb (lt_desc demo_txn # lt_data demo_txn @ txn_blocks (demo_txn\<lparr>lt_data := []\<rparr>))
     (None, ReplayReport_default, replicate 4096 0) = Some (None, rp', replicate 4096 0)"
proof -
  let ?t = "demo_txn\<lparr>lt_data := []\<rparr>"
  have "txn_ok ?t" "header (lt_desc demo_txn) = Some (JBD2_MAGIC, JBD2_DESCRIPTOR_BLOCK, lt_seq ?t)"
    "\<forall>p \<in> set (lt_data demo_txn). header p = None"
    using demo_headers(1) by (simp_all add: txn_ok_def)
  moreover have "txn_install demo_sb ?t (replicate 4096 0) = replicate 4096 0" by (simp add: txn_install_def)
  ultimately show ?thesis
    using second_descriptor_discards_first [of "lt_desc demo_txn" ?t "lt_data demo_txn" demo_sb "replicate 4096 0" None ReplayReport_default]
    by (simp add: demo_sb_def usize_max_def)
qed

end
