(* ===== verification/Flock.thy ===== *)
theory Flock
  imports Proc_Table Uaccess
begin

unbundle bit_operations_syntax

section \<open>Advisory file locks\<close>

text \<open>
  The lock table of \<^verbatim>\<open>src/fs/flock.rs\<close>: whole-file locks (\<open>sys_flock\<close>) and byte-range locks
  (\<open>sys_fcntl_lock\<close>), and the separate table of \<^verbatim>\<open>src/fs/vfs_extras.rs\<close> that the system call
  \<open>flock\<close> reaches (\<open>vfs_flock_begin\<close> and the steps after it). Each critical section of a table
  lock is one step. A call that has to wait is cut at \<open>schedule\<close>; in \<^verbatim>\<open>flock.rs\<close> its next step
  is the same attempt again (\<open>flock_attempt\<close>, \<open>setlk_attempt\<close>). Signed integers are \<open>int\<close>;
  offsets are natural numbers below \<open>2 ^ 64\<close>.
\<close>

definition LOCK_SH :: int where "LOCK_SH = 1"
definition LOCK_EX :: int where "LOCK_EX = 2"
definition LOCK_NB :: int where "LOCK_NB = 4"
definition LOCK_UN :: int where "LOCK_UN = 8"

definition F_RDLCK :: int where "F_RDLCK = 0"
definition F_WRLCK :: int where "F_WRLCK = 1"
definition F_UNLCK :: int where "F_UNLCK = 2"

definition F_GETLK :: int where "F_GETLK = 5"
definition F_SETLK :: int where "F_SETLK = 6"

definition RLIMIT_LOCKS :: nat where "RLIMIT_LOCKS = 10"

record Flock =
  l_type :: int
  l_whence :: int
  l_pad :: u32
  l_start :: int
  l_len :: int
  l_pid :: u32

record LockEntry =
  le_pid :: nat
  le_ltype :: int
  le_start :: nat
  le_end :: nat
  le_bsd :: bool

type_synonym lock_table = "(nat, LockEntry list) btree"

definition inode_locks :: "nat \<Rightarrow> lock_table \<Rightarrow> LockEntry list" where
  "inode_locks i t = (case bt_get t i of None \<Rightarrow> [] | Some l \<Rightarrow> l)"

definition count_locks_for :: "nat \<Rightarrow> lock_table \<Rightarrow> nat" where
  "count_locks_for p t = length (filter (\<lambda>e. le_pid e = p) (concat (map snd t)))"

definition check_lock_limit :: "nat \<Rightarrow> proc_table \<Rightarrow> lock_table \<Rightarrow> int" where
  "check_lock_limit p procs t =
     (let soft = (case with_proc p (\<lambda>q. rlimit_get (p_rlimits q) RLIMIT_LOCKS) procs of
                    None \<Rightarrow> RLIM_INFINITY | Some (s, _) \<Rightarrow> s)
      in if soft = RLIM_INFINITY then 0
         else if of_nat (count_locks_for p t) \<ge> soft then - 37 else 0)"

definition ranges_overlap :: "nat \<Rightarrow> nat \<Rightarrow> nat \<Rightarrow> nat \<Rightarrow> bool" where
  "ranges_overlap a_start a_end b_start b_end \<longleftrightarrow> a_start < b_end \<and> b_start < a_end"

definition conflicts :: "LockEntry \<Rightarrow> nat \<Rightarrow> int \<Rightarrow> nat \<Rightarrow> nat \<Rightarrow> bool" where
  "conflicts e p ltype start end' =
     (if le_pid e = p then False
      else if \<not> ranges_overlap (le_start e) (le_end e) start end' then False
      else if le_ltype e = F_RDLCK \<and> ltype = F_RDLCK then False
      else True)"

datatype lock_result = Ret int | Block

subsection \<open>Whole-file locks\<close>

text \<open>The part of \<open>sys_flock\<close> before its loop: a return value, or the type of the lock to acquire.\<close>

definition flock_prepare :: "nat \<Rightarrow> proc_table \<Rightarrow> nat \<Rightarrow> int \<Rightarrow> lock_table \<Rightarrow> (int + int) \<times> lock_table" where
  "flock_prepare p procs i operation t =
     (let op' = operation AND NOT LOCK_NB in
      if op' = LOCK_UN then (Inl 0, bt_modify i (filter (\<lambda>e. \<not> (le_pid e = p \<and> le_bsd e))) t)
      else if op' \<noteq> LOCK_SH \<and> op' \<noteq> LOCK_EX then (Inl (- 22), t)
      else let ltype = (if op' = LOCK_SH then F_RDLCK else F_WRLCK) in
        if list_ex (\<lambda>e. le_pid e = p \<and> le_bsd e) (inode_locks i t)
        then (Inr ltype, bt_modify i (filter (\<lambda>e. \<not> (le_pid e = p \<and> le_bsd e))) t)
        else let rc = check_lock_limit p procs t in if rc < 0 then (Inl rc, t) else (Inr ltype, t))"

definition U64_MAX :: nat where "U64_MAX = 2 ^ 64 - 1"

definition flock_attempt :: "nat \<Rightarrow> nat \<Rightarrow> int \<Rightarrow> bool \<Rightarrow> lock_table \<Rightarrow> lock_result \<times> lock_table" where
  "flock_attempt p i ltype nb t =
     (let l = inode_locks i t in
      if \<not> list_ex (\<lambda>e. conflicts e p ltype 0 U64_MAX) l
      then (Ret 0, bt_insert i (l @ [\<lparr>le_pid = p, le_ltype = ltype, le_start = 0, le_end = U64_MAX, le_bsd = True\<rparr>]) t)
      else (if nb then Ret (- 11) else Block, bt_insert i l t))"

definition sys_flock :: "nat \<Rightarrow> proc_table \<Rightarrow> nat \<Rightarrow> int \<Rightarrow> lock_table \<Rightarrow> lock_result \<times> lock_table" where
  "sys_flock p procs i operation t =
     (case flock_prepare p procs i operation t of
        (Inl r, t1) \<Rightarrow> (Ret r, t1)
      | (Inr ltype, t1) \<Rightarrow> flock_attempt p i ltype (operation AND LOCK_NB \<noteq> 0) t1)"

subsection \<open>Byte-range locks\<close>

definition lock_range :: "Flock \<Rightarrow> nat \<times> nat" where
  "lock_range fl =
     (let start = nat (max (l_start fl) 0)
      in (start, if l_len fl = 0 then U64_MAX else saturating_add start (nat \<bar>l_len fl\<bar>)))"

text \<open>The answer that \<open>F_GETLK\<close> stores back; \<open>as i64\<close> and \<open>as u32\<close> are the casts of the fields.\<close>

definition fcntl_getlk :: "nat \<Rightarrow> nat \<Rightarrow> Flock \<Rightarrow> lock_table \<Rightarrow> Flock" where
  "fcntl_getlk p i fl t =
     (let (start, end') = lock_range fl in
      case List.find (\<lambda>e. conflicts e p (l_type fl) start end') (inode_locks i t) of
        Some e \<Rightarrow> fl\<lparr>l_type := le_ltype e, l_whence := 0, l_start := signed_take_bit 63 (int (le_start e)),
                     l_len := signed_take_bit 63 (int (wsub (le_end e) (le_start e))), l_pid := of_nat (le_pid e)\<rparr>
      | None \<Rightarrow> fl\<lparr>l_type := F_UNLCK\<rparr>)"

definition fcntl_unlock :: "nat \<Rightarrow> nat \<Rightarrow> Flock \<Rightarrow> lock_table \<Rightarrow> lock_table" where
  "fcntl_unlock p i fl t =
     (let (start, end') = lock_range fl
      in bt_modify i (filter (\<lambda>e. \<not> (le_pid e = p \<and> ranges_overlap (le_start e) (le_end e) start end'))) t)"

definition setlk_prepare :: "nat \<Rightarrow> proc_table \<Rightarrow> nat \<Rightarrow> Flock \<Rightarrow> lock_table \<Rightarrow> int" where
  "setlk_prepare p procs i fl t =
     (let (start, end') = lock_range fl in
      if list_ex (\<lambda>e. le_pid e = p \<and> ranges_overlap (le_start e) (le_end e) start end') (inode_locks i t) then 0
      else check_lock_limit p procs t)"

definition setlk_attempt :: "nat \<Rightarrow> nat \<Rightarrow> Flock \<Rightarrow> bool \<Rightarrow> lock_table \<Rightarrow> lock_result \<times> lock_table" where
  "setlk_attempt p i fl nb t =
     (let (start, end') = lock_range fl; l = inode_locks i t in
      if \<not> list_ex (\<lambda>e. conflicts e p (l_type fl) start end') l
      then (Ret 0, bt_insert i (filter (\<lambda>e. \<not> (le_pid e = p \<and> ranges_overlap (le_start e) (le_end e) start end')) l
              @ [\<lparr>le_pid = p, le_ltype = l_type fl, le_start = start, le_end = end', le_bsd = False\<rparr>]) t)
      else (if nb then Ret (- 11) else Block, bt_insert i l t))"

text \<open>
  The call takes the outcome of reading the user's structure, \<open>None\<close> when the read fails: the
  source passes two arguments to \<open>copy_from_user\<close>, which has three. The second component of
  the result is the structure that is written back; the source ignores whether that succeeds.
\<close>

definition sys_fcntl_lock ::
  "nat \<Rightarrow> proc_table \<Rightarrow> nat \<Rightarrow> int \<Rightarrow> Flock option \<Rightarrow> lock_table \<Rightarrow> lock_result \<times> Flock option \<times> lock_table" where
  "sys_fcntl_lock p procs i cmd arg t =
     (case arg of
        None \<Rightarrow> (Ret (- 14), None, t)
      | Some fl \<Rightarrow>
          if cmd = F_GETLK then (Ret 0, Some (fcntl_getlk p i fl t), t)
          else if l_type fl = F_UNLCK then (Ret 0, None, fcntl_unlock p i fl t)
          else let rc = setlk_prepare p procs i fl t in
            if rc < 0 then (Ret rc, None, t)
            else let (r, t') = setlk_attempt p i fl (cmd = F_SETLK) t in (r, None, t'))"

subsection \<open>Release\<close>

definition release_all_locks :: "nat \<Rightarrow> lock_table \<Rightarrow> lock_table" where
  "release_all_locks p t = map (\<lambda>(i, l). (i, filter (\<lambda>e. le_pid e \<noteq> p) l)) t"

definition release_bsd_lock :: "nat \<Rightarrow> nat \<Rightarrow> lock_table \<Rightarrow> lock_table" where
  "release_bsd_lock p i t = bt_modify i (filter (\<lambda>e. \<not> (le_pid e = p \<and> le_bsd e))) t"

subsection \<open>The table behind the system call\<close>

text \<open>
  \<open>sys_flock\<close> of \<^verbatim>\<open>src/fs/vfs_extras.rs\<close>. The argument \<open>inode_of\<close> is \<open>inode_id_of_fd\<close> in the
  calling process. A blocking call waits until a separate critical section finds the lock free
  (\<open>shared_busy\<close>, \<open>exclusive_free\<close>) and takes it in another (\<open>vfs_take_shared\<close>,
  \<open>vfs_take_exclusive\<close>).
\<close>

record AdvisoryLock =
  shared_count :: u32
  exclusive_fd :: nat

type_synonym flock_table = "(nat, AdvisoryLock) btree"

definition AdvisoryLock_default :: AdvisoryLock where
  "AdvisoryLock_default = \<lparr>shared_count = 0, exclusive_fd = 0\<rparr>"

definition advisory :: "nat \<Rightarrow> flock_table \<Rightarrow> AdvisoryLock" where
  "advisory i t = (case bt_get t i of None \<Rightarrow> AdvisoryLock_default | Some e \<Rightarrow> e)"

datatype vfs_flock_result = Done int | WaitShared nat | WaitExclusive nat

definition vfs_flock_begin ::
  "(nat \<Rightarrow> nat option) \<Rightarrow> nat \<Rightarrow> int \<Rightarrow> flock_table \<Rightarrow> vfs_flock_result \<times> flock_table" where
  "vfs_flock_begin inode_of fd operation t =
     (let op_bits = operation AND NOT LOCK_NB; nonblock = operation AND LOCK_NB \<noteq> 0 in
      case inode_of fd of
        None \<Rightarrow> (Done (- 9), t)
      | Some i \<Rightarrow>
          let e = advisory i t; t0 = bt_insert i e t in
          if op_bits = LOCK_UN then
            (Done 0, if exclusive_fd e = fd then bt_insert i (e\<lparr>exclusive_fd := 0\<rparr>) t
                     else if shared_count e > 0 then bt_insert i (e\<lparr>shared_count := shared_count e - 1\<rparr>) t
                     else t0)
          else if op_bits = LOCK_SH then
            (if exclusive_fd e \<noteq> 0 \<and> exclusive_fd e \<noteq> fd
             then (if nonblock then Done (- 11) else WaitShared i, t0)
             else (Done 0, bt_insert i (e\<lparr>shared_count := shared_count e + 1\<rparr>) t))
          else if op_bits = LOCK_EX then
            (if exclusive_fd e \<noteq> 0 \<and> exclusive_fd e \<noteq> fd \<or> shared_count e > 0
             then (if nonblock then Done (- 11) else WaitExclusive i, t0)
             else (Done 0, bt_insert i (e\<lparr>exclusive_fd := fd\<rparr>) t))
          else (Done (- 22), t0))"

definition shared_busy :: "(nat \<Rightarrow> nat option) \<Rightarrow> nat \<Rightarrow> flock_table \<Rightarrow> bool" where
  "shared_busy inode_of fd t =
     (case inode_of fd of
        None \<Rightarrow> False
      | Some i \<Rightarrow> (case bt_get t i of None \<Rightarrow> False | Some e \<Rightarrow> exclusive_fd e \<noteq> 0 \<and> exclusive_fd e \<noteq> fd))"

definition exclusive_free :: "(nat \<Rightarrow> nat option) \<Rightarrow> nat \<Rightarrow> flock_table \<Rightarrow> bool" where
  "exclusive_free inode_of fd t =
     (case inode_of fd of
        None \<Rightarrow> True
      | Some i \<Rightarrow> (case bt_get t i of
          None \<Rightarrow> True
        | Some e \<Rightarrow> (exclusive_fd e = 0 \<or> exclusive_fd e = fd) \<and> shared_count e = 0))"

definition vfs_take_shared :: "nat \<Rightarrow> flock_table \<Rightarrow> int \<times> flock_table" where
  "vfs_take_shared i t =
     (let e = advisory i t in (0, bt_insert i (e\<lparr>shared_count := shared_count e + 1\<rparr>) t))"

definition vfs_take_exclusive :: "nat \<Rightarrow> nat \<Rightarrow> flock_table \<Rightarrow> int \<times> flock_table" where
  "vfs_take_exclusive fd i t = (0, bt_insert i ((advisory i t)\<lparr>exclusive_fd := fd\<rparr>) t)"

definition flock_release_fd :: "(nat \<Rightarrow> nat option) \<Rightarrow> nat \<Rightarrow> flock_table \<Rightarrow> flock_table" where
  "flock_release_fd inode_of fd t =
     (case inode_of fd of
        None \<Rightarrow> t
      | Some i \<Rightarrow>
          bt_modify i (\<lambda>e. let e1 = if exclusive_fd e = fd then e\<lparr>exclusive_fd := 0\<rparr> else e
                          in if shared_count e1 > 0 then e1\<lparr>shared_count := shared_count e1 - 1\<rparr> else e1) t)"

lemma advisory_insert: "advisory i (bt_insert j e t) = (if i = j then e else advisory i t)"
  by (simp add: advisory_def btree_simps)

subsection \<open>Steps\<close>

datatype lock_op =
    FlockPrepare nat proc_table nat int
  | FlockAttempt nat nat int bool
  | Unlock nat nat Flock
  | SetlkAttempt nat nat Flock bool
  | ReleaseAll nat
  | ReleaseBsd nat nat

fun lock_step :: "lock_op \<Rightarrow> lock_table \<Rightarrow> lock_table" where
  "lock_step (FlockPrepare p procs i oper) t = snd (flock_prepare p procs i oper t)"
| "lock_step (FlockAttempt p i ltype nb) t = snd (flock_attempt p i ltype nb t)"
| "lock_step (Unlock p i fl) t = fcntl_unlock p i fl t"
| "lock_step (SetlkAttempt p i fl nb) t = snd (setlk_attempt p i fl nb t)"
| "lock_step (ReleaseAll p) t = release_all_locks p t"
| "lock_step (ReleaseBsd p i) t = release_bsd_lock p i t"

definition compatible :: "LockEntry \<Rightarrow> LockEntry \<Rightarrow> bool" where
  "compatible a b \<longleftrightarrow> \<not> conflicts a (le_pid b) (le_ltype b) (le_start b) (le_end b)"

definition locks_exclusive :: "lock_table \<Rightarrow> bool" where
  "locks_exclusive t \<longleftrightarrow> (\<forall>i. \<forall>a \<in> set (inode_locks i t). \<forall>b \<in> set (inode_locks i t). compatible a b)"

lemma compatible_sym: "compatible a b \<longleftrightarrow> compatible b a"
  by (auto simp: compatible_def conflicts_def ranges_overlap_def)

lemma compatible_same: "compatible a a"
  by (simp add: compatible_def conflicts_def)

lemma inode_locks_modify: "inode_locks i (bt_modify j f t) = (if i = j \<and> bt_get t j \<noteq> None then f (inode_locks i t) else inode_locks i t)"
  by (auto simp: inode_locks_def btree_simps split: option.splits)

lemma inode_locks_insert: "inode_locks i (bt_insert j l t) = (if i = j then l else inode_locks i t)"
  by (simp add: inode_locks_def btree_simps)

lemma inode_locks_release: "set (inode_locks i (release_all_locks p t)) \<subseteq> set (inode_locks i t)"
  by (induction t) (auto simp: inode_locks_def release_all_locks_def)

lemma exclusive_mono:
  assumes "locks_exclusive t" "\<And>i. set (inode_locks i t') \<subseteq> set (inode_locks i t)"
  shows "locks_exclusive t'"
  using assms unfolding locks_exclusive_def by blast

lemma exclusive_add:
  assumes "locks_exclusive t" "set l \<subseteq> set (inode_locks i t)" "\<forall>a \<in> set l. compatible a e"
  shows "locks_exclusive (bt_insert i (l @ [e]) t)"
  using assms compatible_sym compatible_same unfolding locks_exclusive_def inode_locks_insert
  by (auto simp: inode_locks_insert)

lemma lock_step_exclusive: "locks_exclusive t \<Longrightarrow> locks_exclusive (lock_step a t)"
proof (cases a)
  case (FlockPrepare p procs i oper)
  assume t: "locks_exclusive t"
  have "locks_exclusive (bt_modify i (filter P) t)" for P
    by (rule exclusive_mono [OF t]) (auto simp: inode_locks_modify)
  then show ?thesis using FlockPrepare t by (simp add: flock_prepare_def Let_def)
next
  case (FlockAttempt p i ltype nb)
  assume t: "locks_exclusive t"
  have "locks_exclusive (bt_insert i (inode_locks i t) t)"
    by (rule exclusive_mono [OF t]) (simp add: inode_locks_insert)
  then show ?thesis using FlockAttempt exclusive_add [OF t order_refl]
    by (auto simp: flock_attempt_def Let_def compatible_def list_ex_iff)
next
  case (Unlock p i fl)
  assume t: "locks_exclusive t"
  show ?thesis unfolding Unlock lock_step.simps fcntl_unlock_def
    by (rule exclusive_mono [OF t]) (auto simp: inode_locks_modify split: prod.split)
next
  case (SetlkAttempt p i fl nb)
  assume t: "locks_exclusive t"
  have "locks_exclusive (bt_insert i (inode_locks i t) t)"
    by (rule exclusive_mono [OF t]) (simp add: inode_locks_insert)
  then show ?thesis using SetlkAttempt exclusive_add [OF t filter_is_subset]
    by (auto simp: setlk_attempt_def Let_def compatible_def list_ex_iff split: prod.split)
next
  case (ReleaseAll p)
  assume t: "locks_exclusive t"
  show ?thesis unfolding ReleaseAll lock_step.simps by (rule exclusive_mono [OF t inode_locks_release])
next
  case (ReleaseBsd p i)
  assume t: "locks_exclusive t"
  show ?thesis unfolding ReleaseBsd lock_step.simps release_bsd_lock_def
    by (rule exclusive_mono [OF t]) (auto simp: inode_locks_modify)
qed

definition lock_run :: "lock_op list \<Rightarrow> lock_table \<Rightarrow> lock_table" where
  "lock_run ops t = foldl (\<lambda>t a. lock_step a t) t ops"

lemma lock_run_exclusive: "locks_exclusive t \<Longrightarrow> locks_exclusive (lock_run ops t)"
  by (induction ops arbitrary: t) (simp_all add: lock_run_def lock_step_exclusive)

lemma locks_exclusive_empty: "locks_exclusive []"
  by (simp add: locks_exclusive_def inode_locks_def)

text \<open>
  C28. Mutual exclusion. Start from the empty table and run any sequence of critical sections of
  any processes, in any order: whenever two processes hold locks on overlapping ranges of one
  inode, both locks are read locks.
\<close>

theorem locks_never_conflict:
  assumes "a \<in> set (inode_locks i (lock_run ops []))" "b \<in> set (inode_locks i (lock_run ops []))"
    and "le_pid a \<noteq> le_pid b" "ranges_overlap (le_start a) (le_end a) (le_start b) (le_end b)"
  shows "le_ltype a = F_RDLCK \<and> le_ltype b = F_RDLCK"
  using lock_run_exclusive [OF locks_exclusive_empty, of ops] assms
  unfolding locks_exclusive_def compatible_def conflicts_def by metis

definition reader :: "nat \<Rightarrow> LockEntry" where
  "reader p = \<lparr>le_pid = p, le_ltype = F_RDLCK, le_start = 0, le_end = U64_MAX, le_bsd = True\<rparr>"

definition two_readers :: "lock_op list" where
  "two_readers = [FlockAttempt 1 7 F_RDLCK True, FlockAttempt 2 7 F_RDLCK True, FlockAttempt 3 7 F_WRLCK True]"

lemma two_readers_locks: "inode_locks 7 (lock_run two_readers []) = [reader 1, reader 2]"
  by (simp add: two_readers_def lock_run_def flock_attempt_def Let_def inode_locks_insert conflicts_def
      reader_def F_RDLCK_def F_WRLCK_def ranges_overlap_def U64_MAX_def)
     (simp add: inode_locks_def)

theorem locks_never_conflict_witness:
  "le_ltype (reader 1) = F_RDLCK \<and> le_ltype (reader 2) = F_RDLCK"
  by (rule locks_never_conflict [of "reader 1" 7 two_readers "reader 2"])
     (simp_all add: two_readers_locks, simp_all add: reader_def ranges_overlap_def U64_MAX_def)

text \<open>
  The table names the holder of an exclusive lock by its descriptor number, which is local to
  a process. Two processes that opened one file at the same descriptor both acquire the
  exclusive lock, without blocking, whatever else the table holds; and when the first one
  unlocks, the second one's lock is gone too, so that any descriptor can take the lock.
\<close>

theorem same_descriptor_shares_exclusive:
  assumes ino: "inode_a fd = Some i" "inode_b fd = Some i" "inode_c fd' = Some i"
    and free: "exclusive_fd (advisory i t) = 0" "shared_count (advisory i t) = 0"
    and a: "vfs_flock_begin inode_a fd (LOCK_EX + LOCK_NB) t = (ra, t1)"
    and b: "vfs_flock_begin inode_b fd (LOCK_EX + LOCK_NB) t1 = (rb, t2)"
    and u: "vfs_flock_begin inode_a fd LOCK_UN t2 = (ru, t3)"
    and c: "vfs_flock_begin inode_c fd' (LOCK_EX + LOCK_NB) t3 = (rc, t4)"
  shows "ra = Done 0 \<and> rb = Done 0 \<and> exclusive_fd (advisory i t2) = fd \<and> rc = Done 0"
  using assms by (auto simp: vfs_flock_begin_def LOCK_EX_def LOCK_NB_def LOCK_UN_def LOCK_SH_def Let_def advisory_insert)

theorem same_descriptor_shares_exclusive_witness:
  "\<exists>t1 t2. vfs_flock_begin (\<lambda>_. Some 7) 3 (LOCK_EX + LOCK_NB) [] = (Done 0, t1) \<and>
     vfs_flock_begin (\<lambda>_. Some 7) 3 (LOCK_EX + LOCK_NB) t1 = (Done 0, t2)"
proof -
  let ?m = "\<lambda>_ :: nat. Some (7 :: nat)"
  obtain ra t1 where 1: "vfs_flock_begin ?m 3 (LOCK_EX + LOCK_NB) [] = (ra, t1)" by fastforce
  obtain rb t2 where 2: "vfs_flock_begin ?m 3 (LOCK_EX + LOCK_NB) t1 = (rb, t2)" by fastforce
  obtain ru t3 where 3: "vfs_flock_begin ?m 3 LOCK_UN t2 = (ru, t3)" by fastforce
  obtain rc t4 where 4: "vfs_flock_begin ?m 5 (LOCK_EX + LOCK_NB) t3 = (rc, t4)" by fastforce
  have "ra = Done 0 \<and> rb = Done 0 \<and> exclusive_fd (advisory 7 t2) = 3 \<and> rc = Done 0"
    by (rule same_descriptor_shares_exclusive [OF refl refl refl _ _ 1 2 3 4])
       (simp_all add: advisory_def AdvisoryLock_default_def)
  with 1 2 show ?thesis by blast
qed

end
