(* ===== verification/Eventfd.thy ===== *)
theory Eventfd
  imports Uaccess
begin

unbundle bit_operations_syntax

section \<open>Event counters\<close>

text \<open>
  \<^verbatim>\<open>src/fs/eventfd.rs\<close>: counters behind descriptors, reading and writing them, polling, creation
  and closing, with the table of raw descriptors of \<^verbatim>\<open>src/fs/vfs/fd.rs\<close> as far as creation and
  closing use it. The hash maps of the source are maps; nothing iterates over them. The native
  byte order is that of the three supported processors, little endian.
\<close>

definition EFD_SEMAPHORE :: u32 where "EFD_SEMAPHORE = 1"
definition EFD_CLOEXEC :: u32 where "EFD_CLOEXEC = 0x80000"
definition EFD_NONBLOCK :: u32 where "EFD_NONBLOCK = 0x800"

record EventFd =
  counter :: u64
  semaphore :: bool
  nonblock :: bool

definition RAW_FD_BASE :: nat where "RAW_FD_BASE = 1024"
definition RAW_FD_END :: nat where "RAW_FD_END = 4096"
definition O_CLOEXEC :: u32 where "O_CLOEXEC = 0x80000"

record RawFd =
  raw_path :: string
  raw_offset :: nat
  raw_flags :: u32

type_synonym raw_fds = "nat \<rightharpoonup> RawFd"

definition alloc_raw_fd :: "raw_fds \<Rightarrow> nat option" where
  "alloc_raw_fd t = List.find (\<lambda>fd. t fd = None) [RAW_FD_BASE..<RAW_FD_END]"

definition open_anon :: "u32 \<Rightarrow> raw_fds \<Rightarrow> nat result \<times> raw_fds" where
  "open_anon flags t =
     (case alloc_raw_fd t of
        None \<Rightarrow> (Inl (- 24), t)
      | Some fd \<Rightarrow> (Inr fd, t(fd \<mapsto> \<lparr>raw_path = [], raw_offset = 0, raw_flags = flags\<rparr>)))"

definition close_raw :: "nat \<Rightarrow> raw_fds \<Rightarrow> int \<times> raw_fds" where
  "close_raw fd t = (if t fd \<noteq> None then (0, t(fd := None)) else (- 9, t))"

type_synonym eventfds = "nat \<rightharpoonup> EventFd"

definition eventfd_register :: "nat \<Rightarrow> u64 \<Rightarrow> u32 \<Rightarrow> eventfds \<Rightarrow> eventfds" where
  "eventfd_register fd initval flags m =
     m(fd \<mapsto> \<lparr>counter = initval, semaphore = (flags AND EFD_SEMAPHORE \<noteq> 0), nonblock = (flags AND EFD_NONBLOCK \<noteq> 0)\<rparr>)"

definition eventfd_read :: "nat \<Rightarrow> u8 list \<Rightarrow> eventfds \<Rightarrow> int \<times> u8 list \<times> eventfds" where
  "eventfd_read fd buf m =
     (if length buf < 8 then (- 22, buf, m)
      else case m fd of
        None \<Rightarrow> (- 9, buf, m)
      | Some efd \<Rightarrow>
          if counter efd = 0 then (- 11, buf, m)
          else let (val, efd') = (if semaphore efd then (1, efd\<lparr>counter := counter efd - 1\<rparr>)
                                  else (counter efd, efd\<lparr>counter := 0\<rparr>))
               in (8, le_bytes 8 val @ drop 8 buf, m(fd \<mapsto> efd')))"

definition eventfd_write :: "nat \<Rightarrow> u8 list \<Rightarrow> eventfds \<Rightarrow> int \<times> eventfds" where
  "eventfd_write fd buf m =
     (if length buf < 8 then (- 22, m)
      else let val = of_nat (from_le_bytes (take 8 buf)) :: u64 in
        if val = - 1 then (- 22, m)
        else case m fd of
          None \<Rightarrow> (- 9, m)
        | Some efd \<Rightarrow> (8, m(fd \<mapsto> efd\<lparr>counter := min (saturating_add_u64 (counter efd) val) (- 2)\<rparr>)))"

definition is_eventfd :: "nat \<Rightarrow> eventfds \<Rightarrow> bool" where
  "is_eventfd fd m \<longleftrightarrow> m fd \<noteq> None"

definition eventfd_close :: "nat \<Rightarrow> eventfds \<Rightarrow> eventfds" where
  "eventfd_close fd m = m(fd := None)"

definition sys_close_efd :: "nat \<Rightarrow> eventfds \<Rightarrow> eventfds" where
  "sys_close_efd fd m = eventfd_close fd m"

definition efd_dup :: "nat \<Rightarrow> eventfds \<Rightarrow> eventfds" where
  "efd_dup fd m = m"

definition eventfd_poll :: "nat \<Rightarrow> eventfds \<Rightarrow> u32" where
  "eventfd_poll fd m =
     (case m fd of
        None \<Rightarrow> 0
      | Some efd \<Rightarrow> (if counter efd > 0 then 0x001 else 0) OR (if counter efd < - 2 then 0x004 else 0))"

definition sys_eventfd2 :: "u32 \<Rightarrow> u32 \<Rightarrow> raw_fds \<times> eventfds \<Rightarrow> int \<times> raw_fds \<times> eventfds" where
  "sys_eventfd2 initval flags = (\<lambda>(t, m).
     let open_flags = (if flags AND EFD_CLOEXEC \<noteq> 0 then O_CLOEXEC else 0) in
     case open_anon open_flags t of
       (Inl _, t') \<Rightarrow> (- 24, t', m)
     | (Inr fd, t') \<Rightarrow> (int fd, t', eventfd_register fd (ucast initval) flags m))"

definition sys_eventfd :: "u32 \<Rightarrow> raw_fds \<times> eventfds \<Rightarrow> int \<times> raw_fds \<times> eventfds" where
  "sys_eventfd initval w = sys_eventfd2 initval 0 w"

subsection \<open>Runs\<close>

text \<open>
  A run of reads and writes on any descriptors. The log of a descriptor is the sum of the
  values that successful writes to it added, and of the values that reads of it returned.
\<close>

datatype efd_op = EfdRead nat "u8 list" | EfdWrite nat "u8 list"

fun efd_step :: "efd_op \<Rightarrow> eventfds \<Rightarrow> (int \<times> u8 list) \<times> eventfds" where
  "efd_step (EfdRead fd buf) m = (let (r, b, m') = eventfd_read fd buf m in ((r, b), m'))"
| "efd_step (EfdWrite fd buf) m = (let (r, m') = eventfd_write fd buf m in ((r, buf), m'))"

fun added :: "nat \<Rightarrow> efd_op \<Rightarrow> int \<times> u8 list \<Rightarrow> nat" where
  "added fd (EfdWrite fd' buf) (r, _) = (if fd' = fd \<and> r = 8 then from_le_bytes (take 8 buf) else 0)"
| "added fd (EfdRead fd' buf) _ = 0"

fun taken :: "nat \<Rightarrow> efd_op \<Rightarrow> int \<times> u8 list \<Rightarrow> nat" where
  "taken fd (EfdRead fd' buf) (r, b) = (if fd' = fd \<and> r = 8 then from_le_bytes (take 8 b) else 0)"
| "taken fd (EfdWrite fd' buf) _ = 0"

fun efd_run :: "nat \<Rightarrow> efd_op list \<Rightarrow> eventfds \<Rightarrow> nat \<times> nat \<times> eventfds" where
  "efd_run fd [] m = (0, 0, m)"
| "efd_run fd (a # as) m =
     (let (o1, m1) = efd_step a m; (w, r, m2) = efd_run fd as m1 in (added fd a o1 + w, taken fd a o1 + r, m2))"

definition efd_count :: "nat \<Rightarrow> eventfds \<Rightarrow> nat" where
  "efd_count fd m = (case m fd of None \<Rightarrow> 0 | Some e \<Rightarrow> unat (counter e))"

lemma from_le_bytes_less: "from_le_bytes b < 256 ^ length b"
proof (induction b)
  case (Cons x b)
  have "unat x < 256" using unsigned_less [of x] by simp
  with Cons show ?case by (simp add: from_le_bytes_def)
qed (simp add: from_le_bytes_def)

lemma value_of_bytes: "length b = 8 \<Longrightarrow> unat (of_nat (from_le_bytes b) :: u64) = from_le_bytes b"
  using from_le_bytes_less [of b] by (simp add: unat_of_nat)

lemma saturating_small:
  assumes "unat c + n \<le> 2 ^ 64 - 2" "unat (v :: u64) = n"
  shows "unat (min (saturating_add_u64 c v) (- 2)) = unat c + n"
proof -
  have s: "unat (c + v) = unat c + n" using assms by (simp add: unat_word_ariths)
  have "unat (- 2 :: u64) = 2 ^ 64 - 2" by simp
  then have "c + v \<le> - 2" using s assms by (simp add: word_le_nat_alt)
  then show ?thesis using s assms by (simp add: saturating_add_u64_def min_def)
qed

lemma saturating_above: "a \<le> saturating_add_u64 a v"
proof (cases "unat a + unat v < 2 ^ 64")
  case True
  then have "unat (a + v) = unat a + unat v" by (simp add: unat_word_ariths)
  then show ?thesis using True by (simp add: saturating_add_u64_def word_le_nat_alt)
next
  case False
  then show ?thesis by (simp add: saturating_add_u64_def)
qed

lemma read_balance:
  assumes "efd_step (EfdRead g buf) m = (out, m')"
  shows "efd_count fd m' + taken fd (EfdRead g buf) out = efd_count fd m"
proof (cases "length buf < 8 \<or> m g = None \<or> counter (the (m g)) = 0")
  case True
  then show ?thesis using assms
    by (auto simp: eventfd_read_def split: option.splits if_splits)
next
  case False
  then obtain e where e: "m g = Some e" "counter e \<noteq> 0" "\<not> length buf < 8" by auto
  have dec: "unat (counter e - 1) + 1 = unat (counter e)"
    using e(2) by (simp add: unat_minus_one unat_gt_0)
  have lt: "unat (counter e) < 2 ^ 64" by (rule order_less_le_trans [OF unsigned_less]) simp
  have one: "from_le_bytes (le_bytes 8 (1 :: u64)) = 1" and all: "from_le_bytes (le_bytes 8 (counter e)) = unat (counter e)"
    using lt by (simp_all add: from_le_bytes_le_bytes)
  show ?thesis using assms e dec one all
    by (auto simp: eventfd_read_def efd_count_def Let_def split: if_splits)
qed

lemma write_balance:
  assumes "efd_step (EfdWrite g buf) m = (out, m')" "efd_count fd m + added fd (EfdWrite g buf) out \<le> 2 ^ 64 - 2"
  shows "efd_count fd m' = efd_count fd m + added fd (EfdWrite g buf) out"
proof (cases "length buf < 8 \<or> (of_nat (from_le_bytes (take 8 buf)) :: u64) = - 1 \<or> m g = None")
  case True
  then show ?thesis using assms by (auto simp: eventfd_write_def Let_def split: option.splits if_splits)
next
  case False
  then obtain e where e: "m g = Some e" "\<not> length buf < 8" "(of_nat (from_le_bytes (take 8 buf)) :: u64) \<noteq> - 1" by auto
  have v: "unat (of_nat (from_le_bytes (take 8 buf)) :: u64) = from_le_bytes (take 8 buf)"
    by (rule value_of_bytes) (use e in simp)
  show ?thesis
  proof (cases "g = fd")
    case True
    then have "out = (8, buf)" "m' = m(g \<mapsto> e\<lparr>counter := min (saturating_add_u64 (counter e) (of_nat (from_le_bytes (take 8 buf)))) (- 2)\<rparr>)"
      using assms(1) e by (auto simp: eventfd_write_def Let_def)
    then show ?thesis using saturating_small [OF _ v, of "counter e"] assms(2) True e by (simp add: efd_count_def)
  next
    case False
    then show ?thesis using assms(1) e by (auto simp: eventfd_write_def efd_count_def Let_def)
  qed
qed

lemma step_balance:
  assumes "efd_step a m = (out, m')" "efd_count fd m + added fd a out \<le> 2 ^ 64 - 2"
  shows "efd_count fd m' + taken fd a out = efd_count fd m + added fd a out"
proof (cases a)
  case (EfdRead g buf)
  then show ?thesis using read_balance assms by simp
next
  case (EfdWrite g buf)
  then show ?thesis using write_balance [of g buf m out m' fd] assms by simp
qed

text \<open>
  C29. Events are counted exactly. In any sequence of reads and writes on any descriptors, as long
  as the initial value and all the values written to a descriptor sum to at most
  \<open>2 ^ 64 - 2\<close>, what its reads returned and what the counter still holds sum to the initial
  value and what its writes added, in semaphore mode too.
\<close>

theorem eventfd_conserves:
  assumes "efd_run fd as m = (written, got, m')" "efd_count fd m + written \<le> 2 ^ 64 - 2"
  shows "got + efd_count fd m' = efd_count fd m + written"
  using assms
proof (induction as arbitrary: m written got)
  case (Cons a as)
  obtain out m1 where 1: "efd_step a m = (out, m1)" by fastforce
  obtain w r where 2: "efd_run fd as m1 = (w, r, m')" "written = added fd a out + w" "got = taken fd a out + r"
    using Cons.prems(1) 1 by (auto split: prod.splits)
  have b: "efd_count fd m1 + taken fd a out = efd_count fd m + added fd a out"
    by (rule step_balance [OF 1]) (use Cons.prems(2) 2 in simp)
  then have "r + efd_count fd m' = efd_count fd m1 + w" using Cons.IH [OF 2(1)] Cons.prems(2) 2 by simp
  with b show ?case using 2 by simp
qed simp

theorem eventfd_conserves_witness:
  "\<exists>m'. efd_run 5 [EfdWrite 5 (le_bytes 8 (7 :: u64)), EfdRead 5 (replicate 8 0)] (eventfd_register 5 3 0 (\<lambda>_. None)) =
     (7, 10, m') \<and> 10 + efd_count 5 m' = 3 + 7"
proof -
  let ?m = "eventfd_register 5 3 0 (\<lambda>_. None)"
    and ?as = "[EfdWrite 5 (le_bytes 8 (7 :: u64)), EfdRead 5 (replicate 8 0)]"
  have c: "efd_count 5 ?m = 3" by (simp add: efd_count_def eventfd_register_def)
  have v: "from_le_bytes (le_bytes 8 (7 :: u64)) = 7" "from_le_bytes (le_bytes 8 (10 :: u64)) = 10"
    by (simp_all add: from_le_bytes_le_bytes)
  have "saturating_add_u64 3 7 = 10" "min 10 (- 2 :: u64) = 10" by (simp_all add: saturating_add_u64_def)
  then have "\<exists>m'. efd_run 5 ?as ?m = (7, 10, m')"
    by (simp add: eventfd_write_def eventfd_read_def eventfd_register_def EFD_SEMAPHORE_def Let_def v)
  then obtain m' where r: "efd_run 5 ?as ?m = (7, 10, m')" by blast
  have "10 + efd_count 5 m' = efd_count 5 ?m + 7" by (rule eventfd_conserves [OF r]) (simp add: c)
  with r c show ?thesis by simp
qed

subsection \<open>Raw descriptors\<close>

definition raw_free :: "raw_fds \<Rightarrow> nat set" where
  "raw_free t = {fd. RAW_FD_BASE \<le> fd \<and> fd < RAW_FD_END \<and> t fd = None}"

text \<open>Opening an event counter and closing it again, \<open>n\<close> times; the results of the openings.\<close>

fun open_close :: "nat \<Rightarrow> u32 \<Rightarrow> u32 \<Rightarrow> raw_fds \<times> eventfds \<Rightarrow> int list \<times> raw_fds \<times> eventfds" where
  "open_close 0 initval flags w = ([], w)"
| "open_close (Suc n) initval flags w =
     (let (r, t, m) = sys_eventfd2 initval flags w;
          m' = (if r \<ge> 0 \<and> is_eventfd (nat r) m then sys_close_efd (nat r) m else m);
          (rs, w') = open_close n initval flags (t, m')
      in (r # rs, w'))"

lemma finite_raw_free [simp]: "finite (raw_free t)"
  by (rule finite_subset [of _ "{..<RAW_FD_END}"]) (auto simp: raw_free_def)

lemma alloc_raw_fd_None: "alloc_raw_fd t = None \<longleftrightarrow> raw_free t = {}"
  by (auto simp: alloc_raw_fd_def raw_free_def find_None_iff)

lemma alloc_raw_fd_Some: "alloc_raw_fd t = Some fd \<Longrightarrow> fd \<in> raw_free t"
  by (auto simp: alloc_raw_fd_def raw_free_def find_Some_iff dest!: nth_mem)

lemma eventfd2_raw:
  assumes "sys_eventfd2 i fl (t, m) = (r, t', m')"
  shows "(raw_free t = {} \<and> r = - 24 \<and> t' = t) \<or>
    (\<exists>fd \<in> raw_free t. r = int fd \<and> raw_free t' = raw_free t - {fd})"
proof (cases "alloc_raw_fd t")
  case None
  then have "r = - 24" "t' = t" using assms by (auto simp: sys_eventfd2_def open_anon_def Let_def)
  then show ?thesis using None by (simp add: alloc_raw_fd_None)
next
  case (Some fd)
  then have "r = int fd" "raw_free t' = raw_free t - {fd}"
    using assms by (auto simp: sys_eventfd2_def open_anon_def raw_free_def Let_def split: if_splits)
  with alloc_raw_fd_Some [OF Some] show ?thesis by blast
qed

lemma eventfd2_card:
  assumes "sys_eventfd2 i fl (t, m) = (r, t', m')"
  shows "card (raw_free t') = card (raw_free t) - 1 \<and> (r = - 24 \<longleftrightarrow> card (raw_free t) = 0)"
  using eventfd2_raw [OF assms]
proof
  assume "\<exists>fd \<in> raw_free t. r = int fd \<and> raw_free t' = raw_free t - {fd}"
  then obtain fd where fd: "fd \<in> raw_free t" "r = int fd" "raw_free t' = raw_free t - {fd}" by blast
  then have "card (raw_free t) \<noteq> 0" by (metis card_0_eq empty_iff finite_raw_free)
  with fd show ?thesis by simp
qed simp

text \<open>
  Closing an event counter does not give back its raw descriptor. Whatever the tables hold,
  after as many rounds of opening and closing as there are free raw descriptors every further
  opening fails with the error of a full table, although no event counter is open.
\<close>

theorem eventfd_close_leaks_raw:
  assumes "open_close n i fl (t, m) = (rs, t', m')"
  shows "card (raw_free t') = card (raw_free t) - n \<and> (\<forall>k < n. rs ! k = - 24 \<longleftrightarrow> card (raw_free t) \<le> k)"
  using assms
proof (induction n arbitrary: t m rs)
  case (Suc n)
  obtain r t1 m1 where 1: "sys_eventfd2 i fl (t, m) = (r, t1, m1)" using prod_cases3 by blast
  obtain m2 rs2 where 2: "open_close n i fl (t1, m2) = (rs2, t', m')" "rs = r # rs2"
    using Suc.prems 1 by (auto simp: Let_def split: prod.splits)
  have IH: "card (raw_free t') = card (raw_free t1) - n" "\<forall>k < n. rs2 ! k = - 24 \<longleftrightarrow> card (raw_free t1) \<le> k"
    using Suc.IH [OF 2(1)] by auto
  have c: "card (raw_free t1) = card (raw_free t) - 1" and r: "r = - 24 \<longleftrightarrow> card (raw_free t) = 0"
    using eventfd2_card [OF 1] by simp_all
  have "rs ! k = - 24 \<longleftrightarrow> card (raw_free t) \<le> k" if "k < Suc n" for k
  proof (cases k)
    case 0
    then show ?thesis using r 2(2) by simp
  next
    case (Suc j)
    then have "rs ! k = - 24 \<longleftrightarrow> card (raw_free t1) \<le> j" using IH(2) 2(2) that by simp
    then show ?thesis using c Suc by linarith
  qed
  then show ?case using IH(1) c by simp
qed simp

theorem eventfd_close_leaks_raw_witness:
  "\<exists>rs w. open_close 3073 0 0 (\<lambda>_. None, \<lambda>_. None) = (rs, w) \<and> rs ! 3071 \<noteq> - 24 \<and> rs ! 3072 = - 24"
proof -
  obtain rs t' m' where 1: "open_close 3073 0 0 (\<lambda>_. None, \<lambda>_. None) = (rs, t', m')" using prod_cases3 by blast
  have "raw_free (\<lambda>_. None) = {1024..<4096}" by (auto simp: raw_free_def RAW_FD_BASE_def RAW_FD_END_def)
  then have "card (raw_free (\<lambda>_. None)) = 3072" by simp
  with eventfd_close_leaks_raw [OF 1] have "\<forall>k < 3073. rs ! k = - 24 \<longleftrightarrow> 3072 \<le> k" by simp
  then have "rs ! 3071 \<noteq> - 24" "rs ! 3072 = - 24" by simp_all
  with 1 show ?thesis by blast
qed

text \<open>
  Polling and the calls agree on reading, but not on writing: the read bit of a counter is set
  exactly when a read of eight bytes succeeds. When the write bit is clear, a write is still
  answered with eight bytes written, and its value is lost.
\<close>

theorem eventfd_poll_calls:
  assumes "m fd = Some e" "counter e \<le> - 2" "length buf = 8" "from_le_bytes val \<noteq> 2 ^ 64 - 1" "length val = 8"
  shows "(eventfd_poll fd m AND 1 \<noteq> 0 \<longleftrightarrow> fst (eventfd_read fd buf m) = 8) \<and>
    (eventfd_poll fd m AND 4 = 0 \<longrightarrow> eventfd_write fd val m = (8, m))"
proof -
  have v: "unat (of_nat (from_le_bytes val) :: u64) = from_le_bytes val" by (rule value_of_bytes [OF assms(5)])
  have n: "(of_nat (from_le_bytes val) :: u64) \<noteq> - 1"
  proof
    assume "(of_nat (from_le_bytes val) :: u64) = - 1"
    then have "from_le_bytes val = unat (- 1 :: u64)" using v by simp
    then show False using assms(4) by (simp add: unsigned_minus_1_eq_mask mask_eq_exp_minus_1)
  qed
  have poll: "eventfd_poll fd m AND 1 \<noteq> 0 \<longleftrightarrow> counter e \<noteq> 0" "eventfd_poll fd m AND 4 = 0 \<longleftrightarrow> \<not> counter e < - 2"
    using assms(1) by (auto simp: eventfd_poll_def word_gt_0 bit.conj_disj_distrib2)
  have full: "min (saturating_add_u64 (- 2) v) (- 2) = - 2" for v :: u64
    by (rule min_absorb2 [OF saturating_above])
  have "eventfd_write fd val m = (8, m)" if "\<not> counter e < - 2"
  proof -
    have c: "counter e = - 2" using that assms(2) by simp
    have "e\<lparr>counter := - 2\<rparr> = e" using c by (cases e) simp
    then show ?thesis using assms n c full by (auto simp: eventfd_write_def Let_def fun_upd_idem)
  qed
  then show ?thesis using poll assms by (auto simp: eventfd_read_def Let_def split: prod.splits)
qed

theorem eventfd_poll_calls_witness:
  "eventfd_write 5 (le_bytes 8 (1 :: u64)) (eventfd_register 5 (- 2) 0 (\<lambda>_. None)) = (8, eventfd_register 5 (- 2) 0 (\<lambda>_. None))"
proof -
  have "eventfd_poll 5 (eventfd_register 5 (- 2) 0 (\<lambda>_. None)) AND 4 = 0"
    by (simp add: eventfd_poll_def eventfd_register_def)
  moreover have "from_le_bytes (le_bytes 8 (1 :: u64)) \<noteq> 2 ^ 64 - 1"
    by (simp add: from_le_bytes_le_bytes)
  ultimately show ?thesis
    using eventfd_poll_calls [of "eventfd_register 5 (- 2) 0 (\<lambda>_. None)" 5
        "\<lparr>counter = - 2, semaphore = False, nonblock = False\<rparr>" "replicate 8 0" "le_bytes 8 (1 :: u64)"]
    by (simp add: eventfd_register_def)
qed

end
