(* ===== verification/Slab.thy ===== *)
theory Slab
  imports Pmm_Safety Uaccess
begin

unbundle bit_operations_syntax

section \<open>Slab caches\<close>

text \<open>
  \<^verbatim>\<open>src/mm/slab.rs\<close>: caches of objects of eight sizes in pages of the physical memory manager. A
  page starts with a header, modelled as a record stored under the address of the page; the
  slots behind it are bytes, with the links of the free list and the canaries in them. A null
  pointer is 0. The shadow checks of \<^verbatim>\<open>src/mm/kasan.rs\<close> return at once, since nothing
  initialises the shadow, and are left out. Requests above the largest class go to the
  global heap, whose two functions are arguments. \<open>None\<close> of a panicky result is the panic of a
  broken canary.
\<close>

definition SIZE_CLASSES :: "nat list" where "SIZE_CLASSES = [8, 16, 32, 64, 128, 256, 512, 1024]"
definition CANARY_MAGIC :: u32 where "CANARY_MAGIC = 0xDEADC0DE"
definition CANARY_SIZE :: nat where "CANARY_SIZE = 4"
definition SLAB_HDR_RAW :: nat where "SLAB_HDR_RAW = 32"

definition hdr_offset :: "nat \<Rightarrow> nat" where
  "hdr_offset obj_size = (SLAB_HDR_RAW + obj_size - 1) AND usize_not (obj_size - 1)"

definition slots_per_page :: "nat \<Rightarrow> nat" where
  "slots_per_page obj_size = (PAGE_SIZE - hdr_offset obj_size) div obj_size"

definition user_size :: "nat \<Rightarrow> nat" where
  "user_size obj_size = obj_size - 2 * CANARY_SIZE"

definition slot_user_ptr :: "nat \<Rightarrow> nat" where "slot_user_ptr slot = wadd slot CANARY_SIZE"
definition user_slot_ptr :: "nat \<Rightarrow> nat" where "user_slot_ptr user = wsub user CANARY_SIZE"

subsection \<open>Raw memory\<close>

type_synonym bytes = "nat \<Rightarrow> u8"

definition mem_write :: "nat \<Rightarrow> u8 list \<Rightarrow> bytes \<Rightarrow> bytes" where
  "mem_write a bs m = (\<lambda>x. if a \<le> x \<and> x < a + length bs then bs ! (x - a) else m x)"

definition mem_read :: "nat \<Rightarrow> nat \<Rightarrow> bytes \<Rightarrow> u8 list" where
  "mem_read a n m = map m [a..<a + n]"

definition read_u32 :: "nat \<Rightarrow> bytes \<Rightarrow> u32" where
  "read_u32 a m = of_nat (from_le_bytes (mem_read a 4 m))"

definition write_u32 :: "nat \<Rightarrow> u32 \<Rightarrow> bytes \<Rightarrow> bytes" where
  "write_u32 a v = mem_write a (le_bytes 4 v)"

definition read_ptr :: "nat \<Rightarrow> bytes \<Rightarrow> nat" where
  "read_ptr a m = from_le_bytes (mem_read a 8 m)"

definition write_ptr :: "nat \<Rightarrow> nat \<Rightarrow> bytes \<Rightarrow> bytes" where
  "write_ptr a v = mem_write a (le_bytes 8 (of_nat v :: u64))"

definition canary_write :: "nat \<Rightarrow> nat \<Rightarrow> bytes \<Rightarrow> bytes" where
  "canary_write slot obj_size m =
     write_u32 (slot + (obj_size - CANARY_SIZE)) CANARY_MAGIC (write_u32 slot CANARY_MAGIC m)"

definition canary_check :: "nat \<Rightarrow> nat \<Rightarrow> bytes \<Rightarrow> bool" where
  "canary_check slot obj_size m \<longleftrightarrow>
     read_u32 slot m = CANARY_MAGIC \<and> read_u32 (slot + (obj_size - CANARY_SIZE)) m = CANARY_MAGIC"

subsection \<open>Slabs and caches\<close>

record SlabHdr =
  sh_next :: nat
  sh_prev :: nat
  sh_free_head :: nat
  sh_in_use :: u16
  sh_capacity :: u16
  sh_class_idx :: u8

record Cache =
  c_partial :: nat
  c_full :: nat
  c_empty :: nat
  c_obj_size :: nat
  c_capacity :: nat

type_synonym hdrs = "nat \<Rightarrow> SlabHdr"

definition cache_new :: "nat \<Rightarrow> Cache" where
  "cache_new obj_size = \<lparr>c_partial = 0, c_full = 0, c_empty = 0, c_obj_size = obj_size, c_capacity = slots_per_page obj_size\<rparr>"

definition list_push :: "nat \<Rightarrow> nat \<Rightarrow> hdrs \<Rightarrow> nat \<times> hdrs" where
  "list_push list slab h =
     (let h1 = h(slab := (h slab)\<lparr>sh_next := list, sh_prev := 0\<rparr>);
          h2 = (if list \<noteq> 0 then h1(list := (h1 list)\<lparr>sh_prev := slab\<rparr>) else h1)
      in (slab, h2))"

definition list_remove :: "nat \<Rightarrow> nat \<Rightarrow> hdrs \<Rightarrow> nat \<times> hdrs" where
  "list_remove list slab h =
     (let prev = sh_prev (h slab); next = sh_next (h slab);
          (list', h1) = (if prev \<noteq> 0 then (list, h(prev := (h prev)\<lparr>sh_next := next\<rparr>)) else (next, h));
          h2 = (if next \<noteq> 0 then h1(next := (h1 next)\<lparr>sh_prev := prev\<rparr>) else h1)
      in (list', h2(slab := (h2 slab)\<lparr>sh_next := 0, sh_prev := 0\<rparr>)))"

fun grow_links :: "nat \<Rightarrow> nat \<Rightarrow> nat \<Rightarrow> nat \<Rightarrow> bytes \<Rightarrow> nat \<times> bytes" where
  "grow_links base obj_sz 0 prev_slot m = (prev_slot, m)"
| "grow_links base obj_sz (Suc i) prev_slot m =
     (let slot = base + i * obj_sz in grow_links base obj_sz i slot (write_ptr slot prev_slot m))"

record slab_state =
  ss_hdr :: hdrs
  ss_mem :: bytes
  ss_pmm :: pmm

definition cache_grow :: "platform \<Rightarrow> u8 \<Rightarrow> Cache \<Rightarrow> slab_state \<Rightarrow> bool \<times> Cache \<times> slab_state" where
  "cache_grow E class_idx c s =
     (case alloc_page E (ss_pmm s) of
        (None, p') \<Rightarrow> (False, c, s\<lparr>ss_pmm := p'\<rparr>)
      | (Some pa, p') \<Rightarrow>
          let (first, m1) = grow_links (pa + hdr_offset (c_obj_size c)) (c_obj_size c) (c_capacity c) 0 (ss_mem s);
              h1 = (ss_hdr s)(pa := \<lparr>sh_next = 0, sh_prev = 0, sh_free_head = first, sh_in_use = 0,
                                      sh_capacity = of_nat (c_capacity c), sh_class_idx = class_idx\<rparr>);
              (partial, h2) = list_push (c_partial c) pa h1
          in (True, c\<lparr>c_partial := partial\<rparr>, s\<lparr>ss_hdr := h2, ss_mem := m1, ss_pmm := p'\<rparr>))"

text \<open>The first part of \<open>Cache::alloc\<close>: a slab with a free slot at the head of the partial list.\<close>

definition cache_ready :: "platform \<Rightarrow> u8 \<Rightarrow> Cache \<Rightarrow> slab_state \<Rightarrow> bool \<times> Cache \<times> slab_state" where
  "cache_ready E class_idx c s =
     (if c_partial c = 0 then
        if c_empty c \<noteq> 0 then
          let slab = c_empty c; (em, h1) = list_remove (c_empty c) slab (ss_hdr s); (pt, h2) = list_push (c_partial c) slab h1
          in (True, c\<lparr>c_empty := em, c_partial := pt\<rparr>, s\<lparr>ss_hdr := h2\<rparr>)
        else cache_grow E class_idx c s
      else (True, c, s))"

definition cache_take :: "Cache \<Rightarrow> slab_state \<Rightarrow> nat \<times> Cache \<times> slab_state" where
  "cache_take c s =
     (let slab = c_partial c; slot = sh_free_head (ss_hdr s slab); next_free = read_ptr slot (ss_mem s);
          h1 = (ss_hdr s)(slab := (ss_hdr s slab)\<lparr>sh_free_head := next_free, sh_in_use := sh_in_use (ss_hdr s slab) + 1\<rparr>);
          (c', h2) = (if sh_in_use (h1 slab) = sh_capacity (h1 slab)
                      then let (pt, h') = list_remove (c_partial c) slab h1; (fu, h'') = list_push (c_full c) slab h'
                           in (c\<lparr>c_partial := pt, c_full := fu\<rparr>, h'')
                      else (c, h1))
      in (slot_user_ptr slot, c',
          s\<lparr>ss_hdr := h2, ss_mem := canary_write slot (c_obj_size c) (write_ptr slot 0 (ss_mem s))\<rparr>))"

definition cache_alloc :: "platform \<Rightarrow> u8 \<Rightarrow> Cache \<Rightarrow> slab_state \<Rightarrow> nat option \<times> Cache \<times> slab_state" where
  "cache_alloc E class_idx c s =
     (case cache_ready E class_idx c s of
        (False, c1, s1) \<Rightarrow> (None, c1, s1)
      | (True, c1, s1) \<Rightarrow> let (user, c2, s2) = cache_take c1 s1 in (Some user, c2, s2))"

definition cache_free :: "nat \<Rightarrow> Cache \<Rightarrow> slab_state \<Rightarrow> (Cache \<times> slab_state) panicky" where
  "cache_free user_ptr c s =
     (let ptr = user_slot_ptr user_ptr; slab = ptr AND usize_not (PAGE_SIZE - 1); hd = ss_hdr s slab;
          was_full = (sh_in_use hd = sh_capacity hd); was_partial = (\<not> was_full \<and> sh_in_use hd > 0) in
      if \<not> canary_check ptr (c_obj_size c) (ss_mem s) then None
      else
        let m1 = write_ptr ptr (sh_free_head hd) (mem_write ptr (replicate (c_obj_size c) 0) (ss_mem s));
            h1 = (ss_hdr s)(slab := hd\<lparr>sh_free_head := ptr, sh_in_use := sh_in_use hd - 1\<rparr>);
            (c', h2) =
              (if was_full
               then let (fu, h') = list_remove (c_full c) slab h1; (pt, h'') = list_push (c_partial c) slab h'
                    in (c\<lparr>c_full := fu, c_partial := pt\<rparr>, h'')
               else if was_partial \<and> sh_in_use (h1 slab) = 0
               then let (pt, h') = list_remove (c_partial c) slab h1; (em, h'') = list_push (c_empty c) slab h'
                    in (c\<lparr>c_partial := pt, c_empty := em\<rparr>, h'')
               else (c, h1))
        in Some (c', s\<lparr>ss_hdr := h2, ss_mem := m1\<rparr>))"

text \<open>The caches and the operations on them by size.\<close>

record 'h slab_world =
  sw_caches :: "Cache list"
  sw_state :: slab_state
  sw_heap :: 'h

definition slab_caches :: "Cache list" where
  "slab_caches = map cache_new SIZE_CLASSES"

definition size_class :: "nat \<Rightarrow> nat option" where
  "size_class sz =
     (if sz = 0 then Some 0
      else let needed = saturating_add sz (2 * CANARY_SIZE)
           in List.find (\<lambda>i. needed \<le> SIZE_CLASSES ! i) [0..<length SIZE_CLASSES])"

definition on_cache :: "nat \<Rightarrow> Cache \<Rightarrow> slab_state \<Rightarrow> 'h slab_world \<Rightarrow> 'h slab_world" where
  "on_cache i c s w = w\<lparr>sw_caches := (sw_caches w)[i := c], sw_state := s\<rparr>"

fun slab_init_from :: "platform \<Rightarrow> nat list \<Rightarrow> 'h slab_world \<Rightarrow> 'h slab_world" where
  "slab_init_from E [] w = w"
| "slab_init_from E (i # is) w =
     (let c = sw_caches w ! i in
      slab_init_from E is
        (if c_partial c = 0 \<and> c_empty c = 0
         then let (_, c', s') = cache_grow E (of_nat i) c (sw_state w) in on_cache i c' s' w
         else w))"

definition slab_init :: "platform \<Rightarrow> 'h slab_world \<Rightarrow> 'h slab_world" where
  "slab_init E w = slab_init_from E [0..<length SIZE_CLASSES] w"

definition layout_ok :: "nat \<Rightarrow> bool" where
  "layout_ok sz \<longleftrightarrow> sz \<le> 2 ^ 63 - 8"

definition slab_alloc :: "(nat \<Rightarrow> 'h \<Rightarrow> nat \<times> 'h) \<Rightarrow> platform \<Rightarrow> nat \<Rightarrow> 'h slab_world \<Rightarrow> nat option \<times> 'h slab_world" where
  "slab_alloc heap_alloc E sz w =
     (case size_class sz of
        Some i \<Rightarrow> let (r, c', s') = cache_alloc E (of_nat i) (sw_caches w ! i) (sw_state w) in (r, on_cache i c' s' w)
      | None \<Rightarrow>
          if \<not> layout_ok sz then (None, w)
          else let (p, h') = heap_alloc sz (sw_heap w)
               in (if p = 0 then None else Some p, w\<lparr>sw_heap := h'\<rparr>))"

definition slab_free :: "(nat \<Rightarrow> nat \<Rightarrow> 'h \<Rightarrow> 'h) \<Rightarrow> nat \<Rightarrow> nat \<Rightarrow> 'h slab_world \<Rightarrow> 'h slab_world panicky" where
  "slab_free heap_free ptr sz w =
     (if ptr = 0 then Some w
      else case size_class sz of
        Some i \<Rightarrow> map_option (\<lambda>(c', s'). on_cache i c' s' w) (cache_free ptr (sw_caches w ! i) (sw_state w))
      | None \<Rightarrow> Some (if layout_ok sz then w\<lparr>sw_heap := heap_free ptr sz (sw_heap w)\<rparr> else w))"

text \<open>
  \<open>Cache::shrink\<close> walks the list of empty slabs by their links. A walk that never ends, and the
  panic of \<open>free_page\<close>, are \<open>None\<close>.
\<close>

partial_function (option) shrink_loop :: "platform \<Rightarrow> nat \<Rightarrow> hdrs \<Rightarrow> pmm \<Rightarrow> pmm option" where
  "shrink_loop E slab h p =
     (if slab = 0 then Some p
      else Option.bind (free_page E slab p) (\<lambda>p'. shrink_loop E (sh_next (h slab)) h p'))"

definition cache_shrink :: "platform \<Rightarrow> Cache \<Rightarrow> slab_state \<Rightarrow> (Cache \<times> slab_state) option" where
  "cache_shrink E c s =
     map_option (\<lambda>p'. (c\<lparr>c_empty := 0\<rparr>, s\<lparr>ss_pmm := p'\<rparr>)) (shrink_loop E (c_empty c) (ss_hdr s) (ss_pmm s))"

fun shrink_from :: "platform \<Rightarrow> nat list \<Rightarrow> 'h slab_world \<Rightarrow> 'h slab_world option" where
  "shrink_from E [] w = Some w"
| "shrink_from E (i # is) w =
     Option.bind (cache_shrink E (sw_caches w ! i) (sw_state w)) (\<lambda>(c', s'). shrink_from E is (on_cache i c' s' w))"

definition slab_shrink :: "platform \<Rightarrow> 'h slab_world \<Rightarrow> 'h slab_world option" where
  "slab_shrink E w = shrink_from E [0..<length SIZE_CLASSES] w"

text \<open>Statistics: walks over the lists of slabs.\<close>

partial_function (option) count_list :: "nat \<Rightarrow> hdrs \<Rightarrow> nat option" where
  "count_list slab h = (if slab = 0 then Some 0 else Option.bind (count_list (sh_next (h slab)) h) (\<lambda>n. Some (Suc n)))"

partial_function (option) count_in_use :: "nat \<Rightarrow> hdrs \<Rightarrow> nat option" where
  "count_in_use slab h =
     (if slab = 0 then Some 0
      else Option.bind (count_in_use (sh_next (h slab)) h) (\<lambda>n. Some (unat (sh_in_use (h slab)) + n)))"

record CacheStats =
  st_obj_size :: nat
  st_active_objs :: nat
  st_total_slabs :: nat
  st_partial_slabs :: nat
  st_full_slabs :: nat
  st_empty_slabs :: nat

definition cache_stats :: "Cache \<Rightarrow> hdrs \<Rightarrow> CacheStats option" where
  "cache_stats c h =
     Option.bind (count_list (c_partial c) h) (\<lambda>np.
     Option.bind (count_list (c_full c) h) (\<lambda>nf.
     Option.bind (count_list (c_empty c) h) (\<lambda>ne.
     Option.bind (count_in_use (c_partial c) h) (\<lambda>ap.
     Option.bind (count_in_use (c_full c) h) (\<lambda>af.
     Some \<lparr>st_obj_size = c_obj_size c, st_active_objs = ap + af, st_total_slabs = np + nf + ne,
           st_partial_slabs = np, st_full_slabs = nf, st_empty_slabs = ne\<rparr>)))))"

record SlabStats =
  sl_total_slabs :: nat
  sl_active_objs :: nat
  sl_per_cache :: "CacheStats list"

fun stats_from :: "Cache list \<Rightarrow> hdrs \<Rightarrow> SlabStats \<Rightarrow> SlabStats option" where
  "stats_from [] h st = Some st"
| "stats_from (c # cs) h st =
     Option.bind (cache_stats c h) (\<lambda>x.
       stats_from cs h \<lparr>sl_total_slabs = sl_total_slabs st + st_total_slabs x,
         sl_active_objs = sl_active_objs st + st_active_objs x, sl_per_cache = sl_per_cache st @ [x]\<rparr>)"

definition slab_stats :: "'h slab_world \<Rightarrow> SlabStats option" where
  "slab_stats w = stats_from (sw_caches w) (ss_hdr (sw_state w)) \<lparr>sl_total_slabs = 0, sl_active_objs = 0, sl_per_cache = []\<rparr>"

end
