(* ===== verification/Slab_Inv.thy ===== *)
theory Slab_Inv
  imports Slab
begin

unbundle bit_operations_syntax

section \<open>The invariant of a slab cache\<close>

text \<open>
  The three lists of slabs of a cache, the free lists threaded through the slots, and the canaries
  of the objects in use, with the proof that allocation, release and growth keep them. The
  lemmas follow the layers of \<^verbatim>\<open>src/mm/slab.rs\<close>: bytes, slots of a page, lists of pages,
  the slots of all pages of a cache, and the cache with its frames.
\<close>

subsection \<open>Raw memory, lemmas\<close>

lemma mem_write_outside: "x < a \<or> a + length bs \<le> x \<Longrightarrow> mem_write a bs m x = m x"
  by (auto simp: mem_write_def)

lemma mem_read_write: "mem_read a (length bs) (mem_write a bs m) = bs"
  by (rule nth_equalityI) (simp_all add: mem_read_def mem_write_def)

lemma mem_read_cong: "(\<And>x. a \<le> x \<Longrightarrow> x < a + n \<Longrightarrow> m x = m' x) \<Longrightarrow> mem_read a n m = mem_read a n m'"
  by (simp add: mem_read_def)

lemma read_write_ptr: "v < 2 ^ 64 \<Longrightarrow> read_ptr a (write_ptr a v m) = v"
  using mem_read_write [of a "le_bytes 8 (of_nat v :: u64)" m]
  by (simp add: read_ptr_def write_ptr_def from_le_bytes_le_bytes unat_of_nat)

lemma read_write_u32: "read_u32 a (write_u32 a v m) = v"
  using mem_read_write [of a "le_bytes 4 v" m] by (simp add: read_u32_def write_u32_def of_le_bytes_u32)

lemma read_ptr_cong: "(\<And>x. a \<le> x \<Longrightarrow> x < a + 8 \<Longrightarrow> m x = m' x) \<Longrightarrow> read_ptr a m = read_ptr a m'"
  unfolding read_ptr_def by (metis mem_read_cong)

lemma read_u32_cong: "(\<And>x. a \<le> x \<Longrightarrow> x < a + 4 \<Longrightarrow> m x = m' x) \<Longrightarrow> read_u32 a m = read_u32 a m'"
  unfolding read_u32_def by (metis mem_read_cong)

lemma write_ptr_outside: "x < a \<or> a + 8 \<le> x \<Longrightarrow> write_ptr a v m x = m x"
  by (simp add: write_ptr_def mem_write_outside)

lemma write_u32_outside: "x < a \<or> a + 4 \<le> x \<Longrightarrow> write_u32 a v m x = m x"
  by (simp add: write_u32_def mem_write_outside)

lemma canary_cong:
  assumes "8 \<le> n" "\<And>x. s \<le> x \<Longrightarrow> x < s + n \<Longrightarrow> m x = m' x"
  shows "canary_check s n m = canary_check s n m'"
proof -
  have "read_u32 s m = read_u32 s m'" "read_u32 (s + (n - CANARY_SIZE)) m = read_u32 (s + (n - CANARY_SIZE)) m'"
    by (rule read_u32_cong, rule assms(2); use assms(1) in \<open>simp add: CANARY_SIZE_def\<close>)+
  then show ?thesis by (simp add: canary_check_def)
qed

lemma canary_write_check: "8 \<le> n \<Longrightarrow> canary_check s n (canary_write s n m)"
proof -
  assume n: "8 \<le> n"
  have "read_u32 s (canary_write s n m) = read_u32 s (write_u32 s CANARY_MAGIC m)"
    unfolding canary_write_def
    by (rule read_u32_cong, rule write_u32_outside) (use n in \<open>simp add: CANARY_SIZE_def\<close>)
  then show ?thesis by (simp add: canary_check_def read_write_u32) (simp add: canary_write_def read_write_u32)
qed

lemma canary_write_outside: "8 \<le> n \<Longrightarrow> x < s \<or> s + n \<le> x \<Longrightarrow> canary_write s n m x = m x"
  by (auto simp: canary_write_def write_u32_outside CANARY_SIZE_def)

subsection \<open>Geometry of a page\<close>

definition slots :: "nat \<Rightarrow> nat \<Rightarrow> nat set" where
  "slots p sz = {p + hdr_offset sz + i * sz | i. i < slots_per_page sz}"

definition class_size :: "nat \<Rightarrow> bool" where
  "class_size sz \<longleftrightarrow> sz \<in> set SIZE_CLASSES"

definition page_frame :: "nat \<Rightarrow> bool" where
  "page_frame p \<longleftrightarrow> 0 < p \<and> PAGE_SIZE dvd p \<and> p + PAGE_SIZE \<le> 2 ^ 64"

lemma class_geometry:
  assumes "class_size sz"
  shows "8 \<le> sz" "sz \<le> 1024" "8 dvd sz" "32 \<le> hdr_offset sz" "8 dvd hdr_offset sz" "3 \<le> slots_per_page sz"
    "slots_per_page sz \<le> 508" "hdr_offset sz + slots_per_page sz * sz \<le> PAGE_SIZE"
  using assms
  by (auto simp: class_size_def SIZE_CLASSES_def hdr_offset_def slots_per_page_def SLAB_HDR_RAW_def PAGE_SIZE_def
      usize_not_def usize_max_def)

lemma slot_in_page:
  assumes "class_size sz" "s \<in> slots p sz"
  shows "p + 32 \<le> s" "s + sz \<le> p + PAGE_SIZE"
proof -
  obtain i where i: "s = p + hdr_offset sz + i * sz" "i < slots_per_page sz" using assms(2) by (auto simp: slots_def)
  have "i * sz + sz \<le> slots_per_page sz * sz" using i(2) by (metis Suc_leI mult_Suc add.commute mult_le_mono1)
  then show "p + 32 \<le> s" "s + sz \<le> p + PAGE_SIZE" using i class_geometry [OF assms(1)] by auto
qed

lemma slot_apart:
  assumes "s \<in> slots p sz" "t \<in> slots p sz" "s \<noteq> t"
  shows "s + sz \<le> t \<or> t + sz \<le> s"
proof -
  obtain i j where ij: "s = p + hdr_offset sz + i * sz" "t = p + hdr_offset sz + j * sz"
    using assms by (auto simp: slots_def)
  then have "i \<noteq> j" using assms(3) by auto
  then have "Suc i \<le> j \<or> Suc j \<le> i" by linarith
  then have "Suc i * sz \<le> j * sz \<or> Suc j * sz \<le> i * sz" using mult_le_mono1 by blast
  then show ?thesis using ij by auto
qed

lemma page_apart: "PAGE_SIZE dvd p \<Longrightarrow> PAGE_SIZE dvd q \<Longrightarrow> p \<noteq> q \<Longrightarrow> p + PAGE_SIZE \<le> q \<or> q + PAGE_SIZE \<le> p"
  by (metis aligned_outside add.commute le_less_linear less_or_eq_imp_le linorder_neqE_nat)

lemma slot_page:
  assumes "class_size sz" "page_frame p" "s \<in> slots p sz"
  shows "s AND usize_not (PAGE_SIZE - 1) = p"
proof -
  obtain k where k: "p = k * 4096" using assms(2) by (auto simp: page_frame_def PAGE_SIZE_def dvd_def)
  note b = slot_in_page [OF assms(1,3)] class_geometry(1) [OF assms(1)]
  have "s < 2 ^ 64" using b assms(2) by (simp add: page_frame_def)
  then have "s AND usize_not (2 ^ 12 - 1) = s div 2 ^ 12 * 2 ^ 12" by (intro and_usize_not_mask) simp_all
  moreover have "s div 4096 = k" using b k by (intro div_nat_eqI) (simp_all add: PAGE_SIZE_def)
  ultimately show ?thesis using k by (simp add: PAGE_SIZE_def)
qed

lemma slot_user: "page_frame p \<Longrightarrow> class_size sz \<Longrightarrow> s \<in> slots p sz \<Longrightarrow>
    slot_user_ptr s = s + 4 \<and> user_slot_ptr (s + 4) = s \<and> 0 < s \<and> s < 2 ^ 64"
  using slot_in_page [of sz s p] class_geometry(1) [of sz]
  by (auto simp: slot_user_ptr_def user_slot_ptr_def wadd_def wsub_def CANARY_SIZE_def page_frame_def)

subsection \<open>Lists of slabs\<close>

fun dll :: "hdrs \<Rightarrow> nat \<Rightarrow> nat \<Rightarrow> nat list \<Rightarrow> bool" where
  "dll h p a [] \<longleftrightarrow> a = 0"
| "dll h p a (x # xs) \<longleftrightarrow> a = x \<and> x \<noteq> 0 \<and> sh_prev (h x) = p \<and> dll h x (sh_next (h x)) xs"

definition same_slab :: "SlabHdr \<Rightarrow> SlabHdr \<Rightarrow> bool" where
  "same_slab a b \<longleftrightarrow> sh_free_head a = sh_free_head b \<and> sh_in_use a = sh_in_use b \<and> sh_capacity a = sh_capacity b"

lemma same_slab_refl [simp]: "same_slab a a"
  by (simp add: same_slab_def)

lemma same_slab_links [simp]: "same_slab (a\<lparr>sh_next := n\<rparr>) b = same_slab a b" "same_slab (a\<lparr>sh_prev := n\<rparr>) b = same_slab a b"
  by (simp_all add: same_slab_def)

lemma dll_cong: "(\<And>x. x \<in> set xs \<Longrightarrow> sh_next (h x) = sh_next (h' x) \<and> sh_prev (h x) = sh_prev (h' x)) \<Longrightarrow> dll h p a xs = dll h' p a xs"
  by (induction xs arbitrary: p a) auto

lemma dll_0: "dll h p 0 xs \<longleftrightarrow> xs = []"
  by (cases xs) auto

lemma dll_head: "dll h p a xs \<Longrightarrow> a \<noteq> 0 \<Longrightarrow> \<exists>ys. xs = a # ys"
  by (cases xs) auto

lemma list_push_dll:
  assumes "dll h 0 a xs" "x \<notin> set xs" "x \<noteq> 0" "distinct xs" "list_push a x h = (a', h')"
  shows "dll h' 0 a' (x # xs)" "\<And>y. same_slab (h' y) (h y)" "\<And>y. y \<notin> set xs \<Longrightarrow> y \<noteq> x \<Longrightarrow> h' y = h y"
proof -
  have h': "a' = x" "h' = (if a \<noteq> 0 then (h(x := (h x)\<lparr>sh_next := a, sh_prev := 0\<rparr>))
      (a := ((h(x := (h x)\<lparr>sh_next := a, sh_prev := 0\<rparr>)) a)\<lparr>sh_prev := x\<rparr>) else h(x := (h x)\<lparr>sh_next := a, sh_prev := 0\<rparr>))"
    using assms(5) by (simp_all add: list_push_def Let_def)
  show "dll h' 0 a' (x # xs)"
  proof (cases xs)
    case Nil
    then show ?thesis using assms h' by simp
  next
    case (Cons y ys)
    then have y: "a = y" "y \<noteq> 0" "x \<noteq> y" "dll h y (sh_next (h y)) ys" using assms by auto
    have "dll h' y (sh_next (h y)) ys"
      using y(4) by (rule iffD1 [OF dll_cong, rotated]) (use assms(2,4) y h' Cons in auto)
    then show ?thesis using Cons y assms(3) h' by simp
  qed
  show "same_slab (h' y) (h y)" for y using h' by simp
  show "h' y = h y" if "y \<notin> set xs" "y \<noteq> x" for y
    using that h' dll_head [OF assms(1)] by auto
qed

text \<open>The predecessor of the element behind \<open>xs\<close> in a list whose head has predecessor \<open>p\<close>.\<close>

definition pred_of :: "nat \<Rightarrow> nat list \<Rightarrow> nat" where
  "pred_of p xs = (if xs = [] then p else last xs)"

lemma pred_of_Cons [simp]: "pred_of p (x # xs) = pred_of x xs"
  by (simp add: pred_of_def)

lemma pred_of_Nil [simp]: "pred_of p [] = p"
  by (simp add: pred_of_def)

lemma dll_split:
  "dll h p a (xs @ x # ys) \<Longrightarrow> x \<noteq> 0 \<and> sh_prev (h x) = pred_of p xs \<and> dll h x (sh_next (h x)) ys"
  by (induction xs arbitrary: p a) (simp, simp, blast)

lemma dll_nonzero: "dll h p a xs \<Longrightarrow> 0 \<notin> set xs"
  by (induction xs arbitrary: p a) auto

lemma dll_relink:
  assumes "dll h p a (xs @ x # ys)"
    and "\<And>y. y \<in> set xs \<Longrightarrow> sh_prev (h' y) = sh_prev (h y)"
    and "\<And>y. y \<in> set xs \<Longrightarrow> sh_next (h' y) = (if y = last xs then sh_next (h x) else sh_next (h y))"
    and "dll h' (pred_of p xs) (sh_next (h x)) ys" "distinct xs"
  shows "dll h' p (if xs = [] then sh_next (h x) else a) (xs @ ys)"
  using assms
proof (induction xs arbitrary: p a)
  case (Cons z zs)
  have z: "a = z" "z \<noteq> 0" "sh_prev (h z) = p" "dll h z (sh_next (h z)) (zs @ x # ys)" using Cons.prems(1) by simp_all
  have "dll h' z (if zs = [] then sh_next (h x) else sh_next (h z)) (zs @ ys)"
  proof (rule Cons.IH [OF z(4)])
    show "sh_prev (h' y) = sh_prev (h y)" if "y \<in> set zs" for y using Cons.prems(2) that by simp
    show "sh_next (h' y) = (if y = last zs then sh_next (h x) else sh_next (h y))" if "y \<in> set zs" for y
    proof -
      have "zs \<noteq> []" using that by auto
      then show ?thesis using Cons.prems(3) [of y] that by simp
    qed
    show "dll h' (pred_of z zs) (sh_next (h x)) ys" using Cons.prems(4) by simp
    show "distinct zs" using Cons.prems(5) by simp
  qed
  moreover have "sh_next (h' z) = (if zs = [] then sh_next (h x) else sh_next (h z))"
    using Cons.prems(3) [of z] Cons.prems(5) last_in_set [of zs] by (auto split: if_splits)
  ultimately show ?case using z Cons.prems(2) [of z] by simp
qed simp

lemma list_remove_dll:
  assumes d: "dll h 0 a (xs @ x # ys)" and dist: "distinct (xs @ x # ys)" and r: "list_remove a x h = (a', h')"
  shows "dll h' 0 a' (xs @ ys)" "\<And>y. same_slab (h' y) (h y)" "\<And>y. y \<notin> set (xs @ x # ys) \<Longrightarrow> h' y = h y"
proof -
  define p n where "p = sh_prev (h x)" and "n = sh_next (h x)"
  note sp = dll_split [OF d] and nz = dll_nonzero [OF d]
  have p: "p = pred_of 0 xs" and ys: "dll h x n ys" using sp by (simp_all add: p_def n_def)
  have lx: "last xs \<in> set xs" "last xs \<noteq> 0" "last xs \<noteq> x" "last xs \<notin> set ys" if "xs \<noteq> []"
    by (use last_in_set [OF that] nz dist in \<open>auto intro: ccontr\<close>)
  have p0: "p = 0 \<longleftrightarrow> xs = []" using p lx by (cases "xs = []") (simp_all add: pred_of_def)
  have n: "n = 0 \<and> ys = [] \<or> n \<noteq> 0 \<and> (\<exists>zs. ys = n # zs)" using ys by (cases ys) auto
  have px: "p \<noteq> x" using p lx sp by (cases "xs = []") (simp_all add: pred_of_def)
  have nx: "n \<noteq> x" using n dist sp by auto
  have np: "n \<noteq> p" if "p \<noteq> 0" using that p p0 n lx by (auto simp: pred_of_def)
  define g where "g = (\<lambda>y. if y = x then (h x)\<lparr>sh_next := 0, sh_prev := 0\<rparr>
      else if p \<noteq> 0 \<and> y = p then (h y)\<lparr>sh_next := n\<rparr> else if n \<noteq> 0 \<and> y = n then (h y)\<lparr>sh_prev := p\<rparr> else h y)"
  have "list_remove a x h = (if p \<noteq> 0 then a else n, g)"
  proof -
    have "snd (list_remove a x h) y = g y" for y
      using px nx np unfolding list_remove_def p_def [symmetric] n_def [symmetric] g_def
      by (cases "p = 0"; cases "n = 0"; cases "y = x"; cases "y = p"; cases "y = n") (simp_all add: Let_def)
    moreover have "fst (list_remove a x h) = (if p \<noteq> 0 then a else n)"
      unfolding list_remove_def p_def [symmetric] n_def [symmetric] by (simp add: Let_def split: prod.split)
    ultimately show ?thesis by (simp add: prod_eq_iff fun_eq_iff)
  qed
  then have h': "h' = g" "a' = (if p \<noteq> 0 then a else n)" using r by auto
  have inx: "y \<noteq> n" if "y \<in> set xs" for y using that n nz dist by auto
  have "dll g 0 (if xs = [] then sh_next (h x) else a) (xs @ ys)"
  proof (rule dll_relink [OF d])
    show "sh_prev (g y) = sh_prev (h y)" if "y \<in> set xs" for y using that dist inx np by (auto simp: g_def)
    show "sh_next (g y) = (if y = last xs then sh_next (h x) else sh_next (h y))" if "y \<in> set xs" for y
      using that dist inx [OF that] np p p0 by (auto simp: g_def n_def [symmetric] pred_of_def)
    have "dll g n (sh_next (h n)) zs" if "ys = n # zs" for zs
    proof -
      have "dll h n (sh_next (h n)) zs" using ys that by simp
      moreover have "p \<notin> set zs" "n \<notin> set zs" "x \<notin> set zs"
        using that dist p nz lx by (cases "xs = []"; simp add: pred_of_def)+
      then have "dll g n (sh_next (h n)) zs = dll h n (sh_next (h n)) zs" by (intro dll_cong) (auto simp: g_def)
      ultimately show ?thesis by simp
    qed
    then show "dll g (pred_of 0 xs) (sh_next (h x)) ys"
      using n p np nx by (auto simp: n_def [symmetric] g_def)
    show "distinct xs" using dist by simp
  qed
  then show "dll h' 0 a' (xs @ ys)" using h' p0 by (auto simp: n_def)
  show "same_slab (h' y) (h y)" for y using h' by (simp add: g_def)
  show "h' y = h y" if "y \<notin> set (xs @ x # ys)" for y
    using that h' n p p0 lx by (auto simp: g_def pred_of_def)
qed

subsection \<open>Free lists\<close>

fun fchain :: "bytes \<Rightarrow> nat \<Rightarrow> nat list \<Rightarrow> bool" where
  "fchain m a [] \<longleftrightarrow> a = 0"
| "fchain m a (x # xs) \<longleftrightarrow> a = x \<and> x \<noteq> 0 \<and> fchain m (read_ptr x m) xs"

lemma fchain_cong: "(\<And>x y. x \<in> set xs \<Longrightarrow> x \<le> y \<Longrightarrow> y < x + 8 \<Longrightarrow> m y = m' y) \<Longrightarrow> fchain m a xs = fchain m' a xs"
proof (induction xs arbitrary: a)
  case (Cons x xs)
  have "read_ptr x m = read_ptr x m'" by (rule read_ptr_cong) (rule Cons.prems; simp)
  moreover have "fchain m b xs = fchain m' b xs" for b by (rule Cons.IH) (rule Cons.prems; simp)
  ultimately show ?case by simp
qed simp

lemma grow_links_chain:
  assumes "grow_links base sz i prev m = (first, m')" "fchain m prev xs" "\<forall>x \<in> set xs. base + i * sz \<le> x"
    and "prev < 2 ^ 64" "base + i * sz \<le> 2 ^ 64" "0 < base" "8 \<le> sz"
  shows "fchain m' first (map (\<lambda>j. base + j * sz) [0..<i] @ xs)"
  using assms
proof (induction i arbitrary: prev m xs)
  case (Suc i)
  let ?slot = "base + i * sz" let ?m = "write_ptr ?slot prev m"
  have far: "?slot + 8 \<le> x" if "x \<in> set xs" for x using Suc.prems(3,7) that by fastforce
  have "fchain ?m prev xs = fchain m prev xs"
  proof (rule fchain_cong)
    show "?m y = m y" if "x \<in> set xs" "x \<le> y" "y < x + 8" for x y
      by (rule write_ptr_outside) (use far [OF that(1)] that in linarith)
  qed
  then have "fchain ?m ?slot (?slot # xs)" using Suc.prems(2,4,6) by (simp add: read_write_ptr)
  then have "fchain m' first (map (\<lambda>j. base + j * sz) [0..<i] @ ?slot # xs)"
    by (rule Suc.IH [rotated]) (use Suc.prems far in \<open>auto simp: Let_def\<close>)
  then show ?case by simp
qed simp

lemma grow_links_outside:
  assumes "grow_links base sz i prev m = (first, m')" "x < base \<or> base + i * sz \<le> x" "8 \<le> sz"
  shows "m' x = m x"
  using assms
proof (induction i arbitrary: prev m)
  case (Suc i)
  have "m' x = write_ptr (base + i * sz) prev m x" if "x < base \<or> base + i * sz \<le> x"
    using Suc.IH Suc.prems(1,3) that by (simp add: Let_def)
  moreover have "write_ptr (base + i * sz) prev m x = m x"
    by (rule write_ptr_outside) (use Suc.prems(2,3) in auto)
  ultimately show ?case using Suc.prems(2) by auto
qed simp

subsection \<open>The invariant of a cache\<close>

definition slab_ok :: "nat \<Rightarrow> SlabHdr \<Rightarrow> bytes \<Rightarrow> nat \<Rightarrow> nat list \<Rightarrow> bool" where
  "slab_ok sz r m p fs \<longleftrightarrow> fchain m (sh_free_head r) fs \<and> distinct fs \<and> set fs \<subseteq> slots p sz \<and>
     unat (sh_in_use r) + length fs = slots_per_page sz \<and> unat (sh_capacity r) = slots_per_page sz"

text \<open>The objects in use, as the slots that are on no free list.\<close>

definition objs :: "nat \<Rightarrow> nat set \<Rightarrow> (nat \<Rightarrow> nat list) \<Rightarrow> nat set" where
  "objs sz pgs fl = {s. \<exists>p \<in> pgs. s \<in> slots p sz \<and> s \<notin> set (fl p)}"

definition slabs_ok :: "nat \<Rightarrow> hdrs \<Rightarrow> bytes \<Rightarrow> nat set \<Rightarrow> (nat \<Rightarrow> nat list) \<Rightarrow> bool" where
  "slabs_ok sz h m pgs fl \<longleftrightarrow> (\<forall>p \<in> pgs. page_frame p \<and> slab_ok sz (h p) m p (fl p)) \<and>
     (\<forall>s \<in> objs sz pgs fl. canary_check s sz m)"

definition cache_ok ::
  "nat \<Rightarrow> Cache \<Rightarrow> hdrs \<Rightarrow> bytes \<Rightarrow> nat list \<Rightarrow> nat list \<Rightarrow> nat list \<Rightarrow> (nat \<Rightarrow> nat list) \<Rightarrow> bool" where
  "cache_ok sz c h m P F Z fl \<longleftrightarrow> class_size sz \<and> c_obj_size c = sz \<and> c_capacity c = slots_per_page sz \<and>
     dll h 0 (c_partial c) P \<and> dll h 0 (c_full c) F \<and> dll h 0 (c_empty c) Z \<and> distinct (P @ F @ Z) \<and>
     slabs_ok sz h m (set (P @ F @ Z)) fl \<and> (\<forall>p \<in> set P. fl p \<noteq> []) \<and> (\<forall>p \<in> set F. fl p = []) \<and>
     (\<forall>p \<in> set Z. length (fl p) = slots_per_page sz)"

lemma slab_ok_same: "same_slab a b \<Longrightarrow> slab_ok sz a m p fs = slab_ok sz b m p fs"
  by (simp add: slab_ok_def same_slab_def)

lemma slab_ok_cong:
  assumes "class_size sz" "\<And>s x. s \<in> set fs \<Longrightarrow> s \<le> x \<Longrightarrow> x < s + sz \<Longrightarrow> m' x = m x"
  shows "slab_ok sz r m' p fs = slab_ok sz r m p fs"
proof -
  have "fchain m' a fs = fchain m a fs" for a
    by (rule fchain_cong, rule assms(2)) (use class_geometry(1) [OF assms(1)] in auto)
  then show ?thesis by (simp add: slab_ok_def)
qed

lemma slabs_ok_cong:
  assumes "class_size sz" "slabs_ok sz h m pgs fl"
    and "\<And>p s x. p \<in> pgs \<Longrightarrow> s \<in> slots p sz \<Longrightarrow> s \<le> x \<Longrightarrow> x < s + sz \<Longrightarrow> m' x = m x"
    and "\<And>p. p \<in> pgs \<Longrightarrow> same_slab (h' p) (h p)"
  shows "slabs_ok sz h' m' pgs fl"
proof -
  have "slab_ok sz (h' p) m' p (fl p)" "page_frame p" if p: "p \<in> pgs" for p
  proof -
    have ok: "slab_ok sz (h p) m p (fl p)" and "page_frame p" using assms(2) p by (auto simp: slabs_ok_def)
    then have "set (fl p) \<subseteq> slots p sz" by (simp add: slab_ok_def)
    then have "slab_ok sz (h' p) m' p (fl p) = slab_ok sz (h' p) m p (fl p)"
      by (intro slab_ok_cong [OF assms(1)]) (use assms(3) p in blast)
    then show "slab_ok sz (h' p) m' p (fl p)" using ok slab_ok_same [OF assms(4) [OF p]] by simp
    show "page_frame p" by fact
  qed
  moreover have "canary_check s sz m'" if s: "s \<in> objs sz pgs fl" for s
  proof -
    have "canary_check s sz m' = canary_check s sz m"
      by (rule canary_cong [OF class_geometry(1) [OF assms(1)]]) (use assms(3) s in \<open>auto simp: objs_def\<close>)
    then show ?thesis using assms(2) s by (simp add: slabs_ok_def)
  qed
  ultimately show ?thesis by (simp add: slabs_ok_def)
qed

text \<open>What a change inside one slot of one page leaves alone.\<close>

lemma slot_elsewhere:
  assumes "class_size sz" "page_frame p" "page_frame q" "s \<in> slots p sz" "t \<in> slots q sz" "s \<noteq> t"
    and "t \<le> x" "x < t + sz"
  shows "x < s \<or> s + sz \<le> x"
proof (cases "p = q")
  case True
  then show ?thesis using slot_apart [of s p sz t] assms by auto
next
  case False
  then have "p + PAGE_SIZE \<le> q \<or> q + PAGE_SIZE \<le> p" using page_apart assms(2,3) by (simp add: page_frame_def)
  then show ?thesis using slot_in_page [OF assms(1,4)] slot_in_page [OF assms(1,5)] assms(7,8) by linarith
qed

lemma slots_same_page:
  assumes "class_size sz" "page_frame p" "page_frame q" "s \<in> slots p sz" "s \<in> slots q sz"
  shows "p = q"
  using slot_page [OF assms(1,2,4)] slot_page [OF assms(1,3,5)] by simp

lemma slots_ordered: "class_size sz \<Longrightarrow> slots p sz = set (map (\<lambda>j. p + hdr_offset sz + j * sz) [0..<slots_per_page sz])"
  by (auto simp: slots_def)

lemma distinct_slots: "class_size sz \<Longrightarrow> distinct (map (\<lambda>j. p + hdr_offset sz + j * sz) [0..<slots_per_page sz])"
  using class_geometry(1) [of sz] by (auto simp: distinct_map inj_on_def)

lemma card_slots: "class_size sz \<Longrightarrow> card (slots p sz) = slots_per_page sz"
  unfolding slots_ordered using distinct_card [OF distinct_slots] by (metis diff_zero length_map length_upt)

lemma slab_has_free:
  assumes "class_size sz" "slab_ok sz r m p fs" "s \<in> slots p sz" "s \<notin> set fs"
  shows "length fs < slots_per_page sz"
proof -
  have "set fs \<subset> slots p sz" using assms by (auto simp: slab_ok_def)
  moreover have "finite (slots p sz)" using slots_ordered [OF assms(1)] by simp
  ultimately have "card (set fs) < card (slots p sz)" by (simp add: psubset_card_mono)
  then show ?thesis using card_slots [OF assms(1)] assms(2) by (simp add: slab_ok_def distinct_card)
qed

subsection \<open>Operations on the slabs\<close>

lemma list_move:
  assumes d: "dll h 0 a (xs @ x # ys)" "dll h 0 b zs" "distinct (xs @ x # ys @ zs)"
    and r: "list_remove a x h = (a', h1)" "list_push b x h1 = (b', h2)"
  shows "dll h2 0 a' (xs @ ys)" "dll h2 0 b' (x # zs)" "same_slab (h2 y) (h y)"
    "y \<notin> set (xs @ x # ys @ zs) \<Longrightarrow> h2 y = h y"
proof -
  note rem = list_remove_dll [OF d(1) _ r(1)]
  have dist: "distinct (xs @ x # ys)" using d(3) by auto
  have "dll h1 0 b zs = dll h 0 b zs"
    by (rule dll_cong) (use rem(3) [OF dist] d(3) in fastforce)
  then have z: "dll h1 0 b zs" using d(2) by simp
  have x: "x \<notin> set zs" "x \<noteq> 0" "distinct zs" using d(3) dll_split [OF d(1)] by auto
  note push = list_push_dll [OF z x(1,2,3) r(2)]
  show "dll h2 0 b' (x # zs)" by (rule push(1))
  have "dll h2 0 a' (xs @ ys) = dll h1 0 a' (xs @ ys)"
    by (rule dll_cong) (use push(3) d(3) in fastforce)
  then show "dll h2 0 a' (xs @ ys)" using rem(1) [OF dist] by simp
  show "same_slab (h2 y) (h y)" using push(2) [of y] rem(2) [OF dist, of y] by (simp add: same_slab_def)
  show "h2 y = h y" if "y \<notin> set (xs @ x # ys @ zs)"
    using push(3) [of y] rem(3) [OF dist, of y] that by simp
qed

text \<open>A change inside one slot leaves all other slots alone, free or in use.\<close>

lemma slabs_slot_change:
  assumes ok: "slabs_ok sz h m pgs fl" and sz: "class_size sz" and p: "p \<in> pgs" and slot: "slot \<in> slots p sz"
    and out: "\<And>x. x < slot \<or> slot + sz \<le> x \<Longrightarrow> m' x = m x"
    and new: "slab_ok sz r m' p fs" "set fs - {slot} = set (fl p) - {slot}" "slot \<in> set fs \<or> canary_check slot sz m'"
  shows "slabs_ok sz (h(p := r)) m' pgs (fl(p := fs))"
    and "objs sz pgs (fl(p := fs)) = (if slot \<in> set fs then objs sz pgs fl - {slot} else insert slot (objs sz pgs fl))"
proof -
  have pf: "page_frame q" "slab_ok sz (h q) m q (fl q)" if "q \<in> pgs" for q using ok that by (auto simp: slabs_ok_def)
  have far: "m' x = m x" if "q \<in> pgs" "t \<in> slots q sz" "t \<noteq> slot" "t \<le> x" "x < t + sz" for q t x
    by (rule out, rule slot_elsewhere [OF sz pf(1) [OF p] pf(1) [OF that(1)] slot that(2)]) (use that in auto)
  have own: "q = p" if "q \<in> pgs" "slot \<in> slots q sz" for q
    using slots_same_page [OF sz pf(1) pf(1) [OF p] _ slot] that by blast
  have sub: "set (fl q) \<subseteq> slots q sz" if "q \<in> pgs" for q using pf(2) [OF that] by (simp add: slab_ok_def)
  have "slab_ok sz ((h(p := r)) q) m' q ((fl(p := fs)) q)" if q: "q \<in> pgs" for q
  proof (cases "q = p")
    case False
    have "slab_ok sz (h q) m' q (fl q) = slab_ok sz (h q) m q (fl q)"
      by (rule slab_ok_cong [OF sz]) (use far [OF q] sub [OF q] own [OF q] False in blast)
    then show ?thesis using pf(2) [OF q] False by simp
  qed (simp add: new)
  moreover show ob: "objs sz pgs (fl(p := fs)) =
      (if slot \<in> set fs then objs sz pgs fl - {slot} else insert slot (objs sz pgs fl))"
  proof (rule set_eqI)
    fix t
    have "t \<in> set ((fl(p := fs)) q) \<longleftrightarrow> t \<in> set (fl q)" if "t \<noteq> slot" for q using new(2) that by auto
    moreover have "slot \<in> objs sz pgs (fl(p := fs)) \<longleftrightarrow> slot \<notin> set fs" 
    proof
      assume "slot \<in> objs sz pgs (fl(p := fs))"
      then obtain q where q: "q \<in> pgs" "slot \<in> slots q sz" "slot \<notin> set ((fl(p := fs)) q)" unfolding objs_def by blast
      then show "slot \<notin> set fs" using own [OF q(1,2)] by simp
    next
      assume "slot \<notin> set fs"
      then show "slot \<in> objs sz pgs (fl(p := fs))" unfolding objs_def using p slot by auto
    qed
    ultimately show "t \<in> objs sz pgs (fl(p := fs)) \<longleftrightarrow>
        t \<in> (if slot \<in> set fs then objs sz pgs fl - {slot} else insert slot (objs sz pgs fl))"
      by (cases "t = slot") (simp_all add: objs_def)
  qed
  moreover have "canary_check t sz m'" if t: "t \<in> objs sz pgs (fl(p := fs))" for t
  proof (cases "t = slot")
    case True
    then have "slot \<notin> set fs" using t unfolding ob by auto
    then show ?thesis using new(3) True by simp
  next
    case False
    then have t': "t \<in> objs sz pgs fl" using t unfolding ob by (auto split: if_splits)
    then obtain q where q: "q \<in> pgs" "t \<in> slots q sz" by (auto simp: objs_def)
    have "canary_check t sz m' = canary_check t sz m"
      by (rule canary_cong [OF class_geometry(1) [OF sz]]) (rule far [OF q False])
    then show ?thesis using ok t' by (simp add: slabs_ok_def)
  qed
  ultimately show "slabs_ok sz (h(p := r)) m' pgs (fl(p := fs))" using pf(1) unfolding slabs_ok_def by blast
qed

lemma slab_take:
  assumes "slab_ok sz r m p (slot # rest)" "class_size sz" "page_frame p" "m' = canary_write slot sz (write_ptr slot 0 m)"
  shows "slab_ok sz (r\<lparr>sh_free_head := read_ptr slot m, sh_in_use := sh_in_use r + 1\<rparr>) m' p rest"
    and "\<And>x. x < slot \<or> slot + sz \<le> x \<Longrightarrow> m' x = m x" "canary_check slot sz m'"
    and "sh_in_use r + 1 = sh_capacity r \<longleftrightarrow> rest = []"
proof -
  note g = class_geometry [OF assms(2)]
  show out: "m' x = m x" if "x < slot \<or> slot + sz \<le> x" for x
    using that g(1) assms(4) by (auto simp: canary_write_outside write_ptr_outside)
  show "canary_check slot sz m'" using canary_write_check g(1) assms(4) by simp
  have cnt: "unat (sh_in_use r) + 1 + length rest = slots_per_page sz" "unat (sh_capacity r) = slots_per_page sz"
    using assms(1) by (simp_all add: slab_ok_def)
  have "unat (sh_in_use r) + 1 < 2 ^ 16" using cnt(1) g(7) by simp
  then have u: "unat (sh_in_use r + 1) = unat (sh_in_use r) + 1" by (simp add: unat_word_ariths)
  show "sh_in_use r + 1 = sh_capacity r \<longleftrightarrow> rest = []"
    unfolding word_unat_eq_iff u cnt(2) using cnt(1) by (cases rest) simp_all
  have sl: "slot \<in> slots p sz" "set rest \<subseteq> slots p sz" "slot \<notin> set rest" using assms(1) by (auto simp: slab_ok_def)
  have "slab_ok sz (r\<lparr>sh_free_head := read_ptr slot m, sh_in_use := sh_in_use r + 1\<rparr>) m' p rest =
      slab_ok sz (r\<lparr>sh_free_head := read_ptr slot m, sh_in_use := sh_in_use r + 1\<rparr>) m p rest"
    by (rule slab_ok_cong [OF assms(2)], rule out, rule slot_elsewhere [OF assms(2,3,3)]) (use sl in auto)
  then show "slab_ok sz (r\<lparr>sh_free_head := read_ptr slot m, sh_in_use := sh_in_use r + 1\<rparr>) m' p rest"
    using assms(1) u by (simp add: slab_ok_def)
qed

lemma slab_give:
  assumes "slab_ok sz r m p fs" "class_size sz" "page_frame p" "slot \<in> slots p sz" "slot \<notin> set fs"
    and m': "m' = write_ptr slot (sh_free_head r) (mem_write slot (replicate sz 0) m)"
  shows "slab_ok sz (r\<lparr>sh_free_head := slot, sh_in_use := sh_in_use r - 1\<rparr>) m' p (slot # fs)"
    and "\<And>x. x < slot \<or> slot + sz \<le> x \<Longrightarrow> m' x = m x"
    and "sh_in_use r > 0" "sh_in_use r = sh_capacity r \<longleftrightarrow> fs = []" "sh_in_use r - 1 = 0 \<longleftrightarrow> Suc (length fs) = slots_per_page sz"
proof -
  note g = class_geometry [OF assms(2)]
  show out: "m' x = m x" if "x < slot \<or> slot + sz \<le> x" for x
    using that g(1) m' by (auto simp: write_ptr_outside mem_write_outside)
  have lt: "length fs < slots_per_page sz" by (rule slab_has_free [OF assms(2,1,4,5)])
  have cnt: "unat (sh_in_use r) + length fs = slots_per_page sz" "unat (sh_capacity r) = slots_per_page sz"
    using assms(1) by (simp_all add: slab_ok_def)
  show pos: "sh_in_use r > 0" using lt cnt by (auto simp: word_gt_0)
  then have u: "unat (sh_in_use r - 1) = unat (sh_in_use r) - 1" by (simp add: unat_minus_one)
  show "sh_in_use r = sh_capacity r \<longleftrightarrow> fs = []"
    unfolding word_unat_eq_iff cnt(2) using cnt(1) by (cases fs) simp_all
  show "sh_in_use r - 1 = 0 \<longleftrightarrow> Suc (length fs) = slots_per_page sz"
    unfolding word_unat_eq_iff u unsigned_0 using cnt lt by linarith
  have "sh_free_head r < 2 ^ 64"
    using assms(1) slot_user [OF assms(3,2)] by (cases fs) (auto simp: slab_ok_def)
  then have rd: "read_ptr slot m' = sh_free_head r" using m' by (simp add: read_write_ptr)
  have "fchain m' a fs = fchain m a fs" for a
  proof (rule fchain_cong)
    show "m' y = m y" if "x \<in> set fs" "x \<le> y" "y < x + 8" for x y
      by (rule out, rule slot_elsewhere [OF assms(2,3,3,4)]) (use that assms(1,5) g(1) in \<open>auto simp: slab_ok_def\<close>)
  qed
  then show "slab_ok sz (r\<lparr>sh_free_head := slot, sh_in_use := sh_in_use r - 1\<rparr>) m' p (slot # fs)"
    using assms(1,4,5) rd u cnt lt slot_user [OF assms(3,2,4)] by (auto simp: slab_ok_def)
qed

subsection \<open>Operations on a cache\<close>

lemma cache_okD:
  assumes "cache_ok sz c h m P F Z fl"
  shows "class_size sz" "c_obj_size c = sz" "c_capacity c = slots_per_page sz"
    "dll h 0 (c_partial c) P" "dll h 0 (c_full c) F" "dll h 0 (c_empty c) Z" "distinct (P @ F @ Z)"
    "slabs_ok sz h m (set (P @ F @ Z)) fl" "\<forall>p \<in> set P. fl p \<noteq> []" "\<forall>p \<in> set F. fl p = []"
    "\<forall>p \<in> set Z. length (fl p) = slots_per_page sz"
  using assms by (simp_all add: cache_ok_def)

lemma cache_ok_page:
  assumes "cache_ok sz c h m P F Z fl" "p \<in> set (P @ F @ Z)"
  shows "page_frame p" "slab_ok sz (h p) m p (fl p)"
  using cache_okD(8) [OF assms(1)] assms(2) by (simp_all add: slabs_ok_def)

lemma slabs_ok_hdr: "class_size sz \<Longrightarrow> slabs_ok sz h m pgs fl \<Longrightarrow> (\<And>p. same_slab (h' p) (h p)) \<Longrightarrow> slabs_ok sz h' m pgs fl"
  by (rule slabs_ok_cong) simp_all

lemma dll_upd: "sh_next r = sh_next (h p) \<Longrightarrow> sh_prev r = sh_prev (h p) \<Longrightarrow> dll (h(p := r)) q a xs = dll h q a xs"
  by (rule dll_cong) auto

lemma cache_take_ok:
  assumes ok: "cache_ok sz c (ss_hdr s) (ss_mem s) (p # P) F Z fl" and t: "cache_take c s = (u, c', s')"
  obtains slot rest P' F' where "fl p = slot # rest" "slot \<in> slots p sz" "u = slot + 4"
    "cache_ok sz c' (ss_hdr s') (ss_mem s') P' F' Z (fl(p := rest))" "set (P' @ F' @ Z) = set ((p # P) @ F @ Z)"
    "ss_pmm s' = ss_pmm s" "\<And>y. y \<notin> set ((p # P) @ F @ Z) \<Longrightarrow> ss_hdr s' y = ss_hdr s y"
    "\<And>x. x < slot \<or> slot + sz \<le> x \<Longrightarrow> ss_mem s' x = ss_mem s x"
    "objs sz (set ((p # P) @ F @ Z)) (fl(p := rest)) = insert slot (objs sz (set ((p # P) @ F @ Z)) fl)"
proof -
  note D = cache_okD [OF ok]
  have pp: "p \<in> set ((p # P) @ F @ Z)" by simp
  note pg = cache_ok_page [OF ok pp]
  obtain slot rest where fl: "fl p = slot # rest" using D(9) by (cases "fl p") auto
  have hd: "c_partial c = p" "sh_free_head (ss_hdr s p) = slot" using D(4) pg(2) fl by (simp_all add: slab_ok_def)
  have sl: "slot \<in> slots p sz" "slot \<notin> set rest" using pg(2) fl by (simp_all add: slab_ok_def)
  define r where "r = (ss_hdr s p)\<lparr>sh_free_head := read_ptr slot (ss_mem s), sh_in_use := sh_in_use (ss_hdr s p) + 1\<rparr>"
  define h1 m1 where "h1 = (ss_hdr s)(p := r)" and "m1 = canary_write slot sz (write_ptr slot 0 (ss_mem s))"
  note tk = slab_take [OF pg(2) [unfolded fl] D(1) pg(1) m1_def, folded r_def]
  have S: "slabs_ok sz h1 m1 (set ((p # P) @ F @ Z)) (fl(p := rest))"
    and O: "objs sz (set ((p # P) @ F @ Z)) (fl(p := rest)) = insert slot (objs sz (set ((p # P) @ F @ Z)) fl)"
    unfolding h1_def using slabs_slot_change [OF D(8) D(1) pp sl(1) tk(2,1)] tk(3) fl sl(2) by auto
  have L: "dll h1 q a xs = dll (ss_hdr s) q a xs" for q a xs unfolding h1_def by (rule dll_upd) (simp_all add: r_def)
  have full: "sh_in_use r = sh_capacity r \<longleftrightarrow> rest = []" using tk(4) by (simp add: r_def)
  have u: "u = slot + 4" using t hd slot_user [OF pg(1) D(1) sl(1)] by (simp add: cache_take_def Let_def split: prod.splits)
  show ?thesis
  proof (cases "rest = []")
    case False
    then have "c' = c" "s' = s\<lparr>ss_hdr := h1, ss_mem := m1\<rparr>"
      using t hd full D(2) by (simp_all add: cache_take_def Let_def h1_def m1_def r_def)
    then have "cache_ok sz c' (ss_hdr s') (ss_mem s') (p # P) F Z (fl(p := rest))"
      using D S L False unfolding cache_ok_def by (auto simp del: dll.simps)
    then show ?thesis using that [OF fl sl(1) u _ refl _ _ _ O] \<open>s' = _\<close> tk(2) by (simp add: h1_def)
  next
    case True
    obtain pt h2 where h2: "list_remove p p h1 = (pt, h2)" by fastforce
    obtain fu h3 where h3: "list_push (c_full c) p h2 = (fu, h3)" by fastforce
    have c': "c' = c\<lparr>c_partial := pt, c_full := fu\<rparr>" "s' = s\<lparr>ss_hdr := h3, ss_mem := m1\<rparr>"
      using t hd full D(2) True h2 h3 by (simp_all add: cache_take_def Let_def h1_def m1_def r_def)
    have "dll h1 0 p ([] @ p # P)" "dll h1 0 (c_full c) F" using L D(4,5) hd by (simp_all del: dll.simps)
    note mv = list_move [OF this _ h2 h3]
    have dist: "distinct ([] @ p # P @ F)" using D(7) by auto
    have "dll h3 0 (c_empty c) Z = dll h1 0 (c_empty c) Z"
      by (rule dll_cong) (use mv(4) [OF dist] D(7) in fastforce)
    then have Z: "dll h3 0 (c_empty c) Z" using L D(6) by simp
    have st: "set (P @ (p # F) @ Z) = set ((p # P) @ F @ Z)" by auto
    have "slabs_ok sz h3 m1 (set ((p # P) @ F @ Z)) (fl(p := rest))" by (rule slabs_ok_hdr [OF D(1) S mv(3) [OF dist]])
    then have "cache_ok sz c' (ss_hdr s') (ss_mem s') P (p # F) Z (fl(p := rest))"
      unfolding cache_ok_def st using D Z mv(1,2) [OF dist] c' True by (auto simp del: dll.simps)
    moreover have "ss_hdr s' y = ss_hdr s y" if "y \<notin> set ((p # P) @ F @ Z)" for y
      using mv(4) [OF dist, of y] that c' by (simp add: h1_def)
    ultimately show ?thesis using that [OF fl sl(1) u _ st _ _ _ O] c' tk(2) by simp
  qed
qed

text \<open>Moving a slab from one list of a cache to another leaves the third list alone.\<close>

lemma list_move_third:
  assumes "dll h 0 a (xs @ x # ys)" "dll h 0 b zs" "dll h 0 e ws" "distinct (xs @ x # ys @ zs @ ws)"
    and "list_remove a x h = (a', h1)" "list_push b x h1 = (b', h2)"
  shows "dll h2 0 a' (xs @ ys)" "dll h2 0 b' (x # zs)" "dll h2 0 e ws" "same_slab (h2 y) (h y)"
    "y \<notin> set (xs @ x # ys @ zs) \<Longrightarrow> h2 y = h y"
proof -
  have dist: "distinct (xs @ x # ys @ zs)" using assms(4) by auto
  note mv = list_move [OF assms(1,2) dist assms(5,6)]
  show "dll h2 0 a' (xs @ ys)" "dll h2 0 b' (x # zs)" "same_slab (h2 y) (h y)" by (rule mv)+
  show "h2 y = h y" if "y \<notin> set (xs @ x # ys @ zs)" by (rule mv(4) [OF that])
  have "dll h2 0 e ws = dll h 0 e ws"
    by (rule dll_cong) (use mv(4) assms(4) in fastforce)
  then show "dll h2 0 e ws" using assms(3) by simp
qed

lemma cache_free_ok:
  assumes ok: "cache_ok sz c (ss_hdr s) (ss_mem s) P F Z fl" and sl: "slot \<in> objs sz (set (P @ F @ Z)) fl"
  obtains (free) p c' s' P' F' Z' where "cache_free (slot + 4) c s = Some (c', s')" "p \<in> set (P @ F @ Z)" "slot \<in> slots p sz"
    "cache_ok sz c' (ss_hdr s') (ss_mem s') P' F' Z' (fl(p := slot # fl p))" "set (P' @ F' @ Z') = set (P @ F @ Z)"
    "ss_pmm s' = ss_pmm s" "\<And>y. y \<notin> set (P @ F @ Z) \<Longrightarrow> ss_hdr s' y = ss_hdr s y"
    "\<And>x. x < slot \<or> slot + sz \<le> x \<Longrightarrow> ss_mem s' x = ss_mem s x"
    "objs sz (set (P @ F @ Z)) (fl(p := slot # fl p)) = objs sz (set (P @ F @ Z)) fl - {slot}"
proof -
  note D = cache_okD [OF ok]
  obtain p where p: "p \<in> set (P @ F @ Z)" "slot \<in> slots p sz" "slot \<notin> set (fl p)" using sl by (auto simp: objs_def)
  note pg = cache_ok_page [OF ok p(1)]
  have can: "canary_check slot sz (ss_mem s)" using D(8) sl by (simp add: slabs_ok_def)
  have ptr: "user_slot_ptr (slot + 4) = slot" "slot AND usize_not (PAGE_SIZE - 1) = p"
    using slot_user [OF pg(1) D(1) p(2)] slot_page [OF D(1) pg(1) p(2)] by auto
  define r where "r = (ss_hdr s p)\<lparr>sh_free_head := slot, sh_in_use := sh_in_use (ss_hdr s p) - 1\<rparr>"
  define h1 m1 where "h1 = (ss_hdr s)(p := r)"
    and "m1 = write_ptr slot (sh_free_head (ss_hdr s p)) (mem_write slot (replicate sz 0) (ss_mem s))"
  note gv = slab_give [OF pg(2) D(1) pg(1) p(2,3) m1_def, folded r_def]
  let ?Q = "set (P @ F @ Z)" and ?fl = "fl(p := slot # fl p)"
  have S: "slabs_ok sz h1 m1 ?Q ?fl" and O: "objs sz ?Q ?fl = objs sz ?Q fl - {slot}"
    unfolding h1_def using slabs_slot_change [OF D(8) D(1) p(1,2) gv(2,1)] p(3) by auto
  have L: "dll h1 q a xs = dll (ss_hdr s) q a xs" for q a xs unfolding h1_def by (rule dll_upd) (simp_all add: r_def)
  have L3: "dll h1 0 (c_partial c) P" "dll h1 0 (c_full c) F" "dll h1 0 (c_empty c) Z" using D(4,5,6) L by simp_all
  have lt: "length (fl p) < slots_per_page sz" by (rule slab_has_free [OF D(1) pg(2) p(2,3)])
  then have notZ: "p \<notin> set Z" using D(11) by auto
  have eval: "cache_free (slot + 4) c s = Some (
      (if fl p = [] then let (fu, h') = list_remove (c_full c) p h1; (pt, h'') = list_push (c_partial c) p h'
          in (c\<lparr>c_full := fu, c_partial := pt\<rparr>, s\<lparr>ss_hdr := h'', ss_mem := m1\<rparr>)
       else if Suc (length (fl p)) = slots_per_page sz
       then let (pt, h') = list_remove (c_partial c) p h1; (em, h'') = list_push (c_empty c) p h'
          in (c\<lparr>c_partial := pt, c_empty := em\<rparr>, s\<lparr>ss_hdr := h'', ss_mem := m1\<rparr>)
       else (c, s\<lparr>ss_hdr := h1, ss_mem := m1\<rparr>)))"
    unfolding cache_free_def Let_def ptr D(2) h1_def m1_def r_def
    using can gv(3,4,5) by (cases "fl p = []"; cases "Suc (length (fl p)) = slots_per_page sz") (simp_all split: prod.split)
  have fin: thesis if "cache_free (slot + 4) c s = Some (c', s\<lparr>ss_hdr := h2, ss_mem := m1\<rparr>)" "set (P' @ F' @ Z') = ?Q"
    "cache_ok sz c' h2 m1 P' F' Z' ?fl" "\<And>y. y \<notin> ?Q \<Longrightarrow> h2 y = ss_hdr s y" for c' h2 P' F' Z'
    by (rule free [OF that(1) p(1,2), of P' F' Z']) (use that gv(2) O in simp_all)
  show ?thesis
  proof (cases "fl p = []")
    case True
    then have "p \<in> set F" using p(1) notZ D(9) by auto
    then obtain xs ys where F: "F = xs @ p # ys" by (meson split_list)
    obtain fu h2 where h2: "list_remove (c_full c) p h1 = (fu, h2)" by fastforce
    obtain pt h3 where h3: "list_push (c_partial c) p h2 = (pt, h3)" by fastforce
    have dist: "distinct (xs @ p # ys @ P @ Z)" using D(7) F by auto
    note mv = list_move_third [OF L3(2) [unfolded F] L3(1,3) dist h2 h3]
    have st: "set ((p # P) @ (xs @ ys) @ Z) = ?Q" using F by auto
    have "slabs_ok sz h3 m1 ?Q ?fl" by (rule slabs_ok_hdr [OF D(1) S mv(4)])
    then have "cache_ok sz (c\<lparr>c_full := fu, c_partial := pt\<rparr>) h3 m1 (p # P) (xs @ ys) Z ?fl"
      unfolding cache_ok_def st using D mv(1,2,3) dist F True notZ by (auto simp del: dll.simps)
    then show ?thesis by (rule fin [rotated 2]) (use eval True h2 h3 st mv(5) F in \<open>auto simp: h1_def\<close>)
  next
    case ne: False
    then have "p \<in> set P" using p(1) notZ D(10) by auto
    then obtain xs ys where P: "P = xs @ p # ys" by (meson split_list)
    show ?thesis
    proof (cases "Suc (length (fl p)) = slots_per_page sz")
      case True
      obtain pt h2 where h2: "list_remove (c_partial c) p h1 = (pt, h2)" by fastforce
      obtain em h3 where h3: "list_push (c_empty c) p h2 = (em, h3)" by fastforce
      have dist: "distinct (xs @ p # ys @ Z @ F)" using D(7) P by auto
      note mv = list_move_third [OF L3(1) [unfolded P] L3(3,2) dist h2 h3]
      have st: "set ((xs @ ys) @ F @ (p # Z)) = ?Q" using P by auto
      have "slabs_ok sz h3 m1 ?Q ?fl" by (rule slabs_ok_hdr [OF D(1) S mv(4)])
      then have "cache_ok sz (c\<lparr>c_partial := pt, c_empty := em\<rparr>) h3 m1 (xs @ ys) F (p # Z) ?fl"
        unfolding cache_ok_def st using D mv(1,2,3) dist P True by (auto simp del: dll.simps)
      then show ?thesis by (rule fin [rotated 2]) (use eval ne True h2 h3 st mv(5) P in \<open>auto simp: h1_def\<close>)
    next
      case False
      have "cache_ok sz c h1 m1 P F Z ?fl"
        unfolding cache_ok_def using D L3 S \<open>p \<in> set P\<close> by (auto simp del: dll.simps)
      then show ?thesis by (rule fin [rotated 2]) (use eval ne False p(1) in \<open>auto simp: h1_def\<close>)
    qed
  qed
qed

text \<open>
  What an operation of one cache leaves alone: headers, bytes and free lists outside the pages
  it has afterwards. It takes pages from the free frames only.
\<close>

definition evolves ::
  "platform \<Rightarrow> slab_state \<Rightarrow> nat set \<Rightarrow> (nat \<Rightarrow> nat list) \<Rightarrow> nat set \<Rightarrow> slab_state \<Rightarrow> nat set \<Rightarrow> (nat \<Rightarrow> nat list) \<Rightarrow> nat set \<Rightarrow> bool"
  where
  "evolves E s Q fl Fr s' Q' fl' Fr' \<longleftrightarrow> pmm_frames E (ss_pmm s') Fr' \<and> Q \<subseteq> Q' \<and> Q' \<subseteq> Q \<union> Fr \<and> Fr' \<subseteq> Fr - Q' \<and>
     (\<forall>y. y \<notin> Q' \<longrightarrow> ss_hdr s' y = ss_hdr s y \<and> fl' y = fl y) \<and>
     (\<forall>x. (\<forall>p \<in> Q'. x < p \<or> p + PAGE_SIZE \<le> x) \<longrightarrow> ss_mem s' x = ss_mem s x)"

lemma evolves_trans:
  assumes "evolves E s Q fl Fr s1 Q1 fl1 Fr1" "evolves E s1 Q1 fl1 Fr1 s2 Q2 fl2 Fr2"
  shows "evolves E s Q fl Fr s2 Q2 fl2 Fr2"
proof -
  have sub: "Q \<subseteq> Q1" "Q1 \<subseteq> Q2" "Q2 \<subseteq> Q \<union> Fr" "Fr2 \<subseteq> Fr - Q2" "pmm_frames E (ss_pmm s2) Fr2"
    using assms by (auto simp: evolves_def)
  have "ss_hdr s2 y = ss_hdr s y \<and> fl2 y = fl y" if "y \<notin> Q2" for y
    using assms that sub(2) unfolding evolves_def by (metis subsetD)
  moreover have "ss_mem s2 x = ss_mem s x" if "\<forall>p \<in> Q2. x < p \<or> p + PAGE_SIZE \<le> x" for x
    using assms that sub(2) unfolding evolves_def by (metis subsetD)
  ultimately show ?thesis using sub unfolding evolves_def by blast
qed

lemma slabs_ok_fl:
  assumes "\<And>p. p \<in> Q \<Longrightarrow> fl' p = fl p"
  shows "slabs_ok sz h m Q fl' = slabs_ok sz h m Q fl" "objs sz Q fl' = objs sz Q fl"
proof -
  show "objs sz Q fl' = objs sz Q fl" using assms by (auto simp: objs_def)
  then show "slabs_ok sz h m Q fl' = slabs_ok sz h m Q fl" using assms by (auto simp: slabs_ok_def)
qed

lemma slabs_ok_insert:
  assumes "slabs_ok sz h m Q fl" "page_frame p" "slab_ok sz (h p) m p (fl p)" "set (fl p) = slots p sz"
  shows "slabs_ok sz h m (insert p Q) fl" "objs sz (insert p Q) fl = objs sz Q fl"
proof -
  show ob: "objs sz (insert p Q) fl = objs sz Q fl" using assms(4) by (auto simp: objs_def)
  show "slabs_ok sz h m (insert p Q) fl" unfolding slabs_ok_def ob using assms(1-3) by (auto simp: slabs_ok_def)
qed

lemma slot_off_page:
  assumes "class_size sz" "page_frame p" "page_frame q" "p \<noteq> q" "t \<in> slots q sz" "t \<le> x" "x < t + sz"
  shows "x < p \<or> p + PAGE_SIZE \<le> x"
proof -
  have "p + PAGE_SIZE \<le> q \<or> q + PAGE_SIZE \<le> p" using page_apart assms(2-4) by (simp add: page_frame_def)
  then show ?thesis using slot_in_page [OF assms(1,5)] assms(6,7) by linarith
qed

lemma grow_slab_ok:
  assumes "class_size sz" "page_frame p" "grow_links (p + hdr_offset sz) sz (slots_per_page sz) 0 m = (first, m')"
    and "sh_free_head r = first" "sh_in_use r = 0" "sh_capacity r = of_nat (slots_per_page sz)"
    and fs: "fs = map (\<lambda>j. p + hdr_offset sz + j * sz) [0..<slots_per_page sz]"
  shows "slab_ok sz r m' p fs" "set fs = slots p sz" "x < p \<or> p + PAGE_SIZE \<le> x \<Longrightarrow> m' x = m x"
proof -
  note g = class_geometry [OF assms(1)]
  have pf: "0 < p" "p + PAGE_SIZE \<le> 2 ^ 64" using assms(2) by (simp_all add: page_frame_def)
  have "fchain m' first (fs @ [])"
    unfolding fs by (rule grow_links_chain [OF assms(3)]) (use g pf in simp_all)
  moreover have "unat (of_nat (slots_per_page sz) :: u16) = slots_per_page sz" using g(7) by (simp add: unat_of_nat)
  moreover show st: "set fs = slots p sz" using slots_ordered [OF assms(1)] fs by simp
  ultimately show "slab_ok sz r m' p fs"
    using assms(4-6) distinct_slots [OF assms(1)] by (simp add: slab_ok_def fs)
  show "m' x = m x" if "x < p \<or> p + PAGE_SIZE \<le> x"
    by (rule grow_links_outside [OF assms(3)]) (use that g in auto)
qed

text \<open>The free frames are whole pages that no cache has.\<close>

definition frames_ok :: "platform \<Rightarrow> slab_state \<Rightarrow> nat set \<Rightarrow> nat set \<Rightarrow> bool" where
  "frames_ok E s Q Fr \<longleftrightarrow> pmm_frames E (ss_pmm s) Fr \<and> (\<forall>p \<in> Fr. page_frame p) \<and> Q \<inter> Fr = {}"

lemma evolves_frames: "evolves E s Q fl Fr s' Q' fl' Fr' \<Longrightarrow> frames_ok E s Q Fr \<Longrightarrow> frames_ok E s' Q' Fr'"
  by (auto simp: evolves_def frames_ok_def)

lemma evolves_same:
  assumes "frames_ok E s Q Fr" "pmm_frames E (ss_pmm s') Fr" "\<And>y. y \<notin> Q \<Longrightarrow> ss_hdr s' y = ss_hdr s y"
    and "\<And>y. y \<notin> Q \<Longrightarrow> fl' y = fl y" "\<And>x. (\<forall>p \<in> Q. x < p \<or> p + PAGE_SIZE \<le> x) \<Longrightarrow> ss_mem s' x = ss_mem s x"
  shows "evolves E s Q fl Fr s' Q fl' Fr"
  using assms by (auto simp: evolves_def frames_ok_def)

lemma cache_grow_ok:
  assumes ok: "cache_ok sz c (ss_hdr s) (ss_mem s) P F Z fl" and fr: "frames_ok E s (set (P @ F @ Z)) Fr"
    and g: "cache_grow E i c s = (True, c', s')"
  obtains pa fl' where "cache_ok sz c' (ss_hdr s') (ss_mem s') (pa # P) F Z fl'"
    "evolves E s (set (P @ F @ Z)) fl Fr s' (set ((pa # P) @ F @ Z)) fl' (Fr - {pa})"
    "objs sz (set ((pa # P) @ F @ Z)) fl' = objs sz (set (P @ F @ Z)) fl"
proof -
  note D = cache_okD [OF ok]
  let ?Q = "set (P @ F @ Z)"
  obtain pa p' where a: "alloc_page E (ss_pmm s) = (Some pa, p')"
    using g by (auto simp: cache_grow_def Let_def split: prod.splits option.splits)
  have frs: "pmm_frames E (ss_pmm s) Fr" "\<forall>p \<in> Fr. page_frame p" "?Q \<inter> Fr = {}" using fr by (auto simp: frames_ok_def)
  note al = pg.alloc_some [OF frs(1) a]
  have pa: "page_frame pa" "pa \<notin> ?Q" "pa \<noteq> 0" using al frs by (auto simp: page_frame_def)
  obtain first m1 where gl: "grow_links (pa + hdr_offset sz) sz (slots_per_page sz) 0 (ss_mem s) = (first, m1)" by fastforce
  define r where "r = \<lparr>sh_next = 0, sh_prev = 0, sh_free_head = first, sh_in_use = 0,
    sh_capacity = of_nat (slots_per_page sz), sh_class_idx = i\<rparr>"
  obtain pt h2 where lp: "list_push (c_partial c) pa ((ss_hdr s)(pa := r)) = (pt, h2)" by fastforce
  have c': "c' = c\<lparr>c_partial := pt\<rparr>" "s' = s\<lparr>ss_hdr := h2, ss_mem := m1, ss_pmm := p'\<rparr>"
    using g a gl lp D(2,3) by (simp_all add: cache_grow_def Let_def r_def)
  define fs where "fs = map (\<lambda>j. pa + hdr_offset sz + j * sz) [0..<slots_per_page sz]"
  note gs = grow_slab_ok [OF D(1) pa(1) gl _ _ _ fs_def, of r]
  have rs: "sh_free_head r = first" "sh_in_use r = 0" "sh_capacity r = of_nat (slots_per_page sz)" by (simp_all add: r_def)
  have old: "dll ((ss_hdr s)(pa := r)) q b xs = dll (ss_hdr s) q b xs" if "set xs \<subseteq> ?Q" for q b xs
    by (rule dll_cong) (use that pa(2) in auto)
  have "dll ((ss_hdr s)(pa := r)) 0 (c_partial c) P" using old [of P] D(4) by simp
  note ps = list_push_dll [OF this _ pa(3) _ lp]
  have P: "pa \<notin> set P" "distinct P" using pa(2) D(7) by auto
  have hdr: "h2 y = ss_hdr s y" if "y \<notin> insert pa (set P)" for y using ps(3) [OF P, of y] that by auto
  have FZ: "dll h2 q b xs = dll (ss_hdr s) q b xs" if "set xs \<subseteq> set F \<union> set Z" for q b xs
    by (rule dll_cong) (use that hdr pa(2) D(7) in fastforce)
  have "slabs_ok sz h2 m1 ?Q fl"
  proof (rule slabs_ok_cong [OF D(1) D(8)])
    show "m1 x = ss_mem s x" if "p \<in> ?Q" "t \<in> slots p sz" "t \<le> x" "x < t + sz" for p t x
      by (rule gs(3) [OF rs], rule slot_off_page [OF D(1) pa(1) cache_ok_page(1) [OF ok that(1)] _ that(2)])
        (use that pa(2) in auto)
    show "same_slab (h2 p) (ss_hdr s p)" if "p \<in> ?Q" for p
      using ps(2) [OF P, of p] that pa(2) by (cases "p = pa") simp_all
  qed
  then have S: "slabs_ok sz h2 m1 ?Q (fl(pa := fs))"
    by (rule iffD2 [OF slabs_ok_fl(1), rotated]) (use pa(2) in auto)
  have "same_slab (h2 pa) r" using ps(2) [OF P, of pa] by simp
  then have N: "slab_ok sz (h2 pa) m1 pa ((fl(pa := fs)) pa)" using gs(1) [OF rs] slab_ok_same by simp
  note ins = slabs_ok_insert [OF S pa(1) N]
  have fl: "set ((fl(pa := fs)) pa) = slots pa sz" "fs \<noteq> []"
    using gs(2) [OF rs] class_geometry(6) [OF D(1)] by (auto simp: fs_def)
  have Q': "set ((pa # P) @ F @ Z) = insert pa ?Q" by auto
  have I: "slabs_ok sz h2 m1 (insert pa ?Q) (fl(pa := fs))" by (rule ins(1) [OF fl(1)])
  show thesis
  proof
    show "cache_ok sz c' (ss_hdr s') (ss_mem s') (pa # P) F Z (fl(pa := fs))"
      unfolding cache_ok_def Q' using D I ps(1) [OF P] FZ [of F] FZ [of Z] c' pa(2) fl(2)
      by (auto simp del: dll.simps)
    show "evolves E s ?Q fl Fr s' (set ((pa # P) @ F @ Z)) (fl(pa := fs)) (Fr - {pa})"
      unfolding evolves_def Q' using al c' frs(3) hdr gs(3) [OF rs] by auto
    show "objs sz (set ((pa # P) @ F @ Z)) (fl(pa := fs)) = objs sz ?Q fl"
      unfolding Q' ins(2) [OF fl(1)] by (rule slabs_ok_fl(2)) (use pa(2) in auto)
  qed
qed

lemma cache_ready_ok:
  assumes ok: "cache_ok sz c (ss_hdr s) (ss_mem s) P F Z fl" and fr: "frames_ok E s (set (P @ F @ Z)) Fr"
    and g: "cache_ready E i c s = (True, c', s')"
  obtains p P' Z' fl' Fr' where "cache_ok sz c' (ss_hdr s') (ss_mem s') (p # P') F Z' fl'"
    "evolves E s (set (P @ F @ Z)) fl Fr s' (set ((p # P') @ F @ Z')) fl' Fr'"
    "objs sz (set ((p # P') @ F @ Z')) fl' = objs sz (set (P @ F @ Z)) fl"
proof -
  note D = cache_okD [OF ok]
  have same: "evolves E s (set (P @ F @ Z)) fl Fr s (set (P @ F @ Z)) fl Fr"
    by (rule evolves_same [OF fr]) (use fr in \<open>auto simp: frames_ok_def\<close>)
  show thesis
  proof (cases "c_partial c = 0")
    case False
    then obtain p P' where P: "P = p # P'" using dll_head [OF D(4)] by blast
    have "c' = c" "s' = s" using g False by (simp_all add: cache_ready_def)
    then show ?thesis using that [of p P' Z fl Fr] ok same P by simp
  next
    case part: True
    then have P: "P = []" using D(4) dll_0 by simp
    show ?thesis
    proof (cases "c_empty c = 0")
      case True
      then have "cache_grow E i c s = (True, c', s')" using g part by (simp add: cache_ready_def)
      then show ?thesis using cache_grow_ok [OF ok fr] that by metis
    next
      case False
      then obtain z zs where Z: "Z = z # zs" "c_empty c = z" using dll_head [OF D(6)] by blast
      obtain em h1 where h1: "list_remove z z (ss_hdr s) = (em, h1)" by fastforce
      obtain pt h2 where h2: "list_push (c_partial c) z h1 = (pt, h2)" by fastforce
      have c': "c' = c\<lparr>c_empty := em, c_partial := pt\<rparr>" "s' = s\<lparr>ss_hdr := h2\<rparr>"
        using g part False Z(2) h1 h2 by (simp_all add: cache_ready_def Let_def)
      have "dll (ss_hdr s) 0 z ([] @ z # zs)" "distinct ([] @ z # zs @ [] @ F)"
        using D(6,7) Z by (auto simp del: dll.simps)
      note mv = list_move_third [OF this(1) _ D(5) this(2) h1 h2]
      have p0: "dll (ss_hdr s) 0 (c_partial c) []" using part by simp
      have st: "set ([z] @ F @ zs) = set (P @ F @ Z)" using P Z by auto
      have "slabs_ok sz h2 (ss_mem s) (set (P @ F @ Z)) fl" by (rule slabs_ok_hdr [OF D(1,8) mv(4) [OF p0]])
      moreover have "fl z \<noteq> []" using D(11) Z class_geometry(6) [OF D(1)] by auto
      ultimately have ck: "cache_ok sz c' (ss_hdr s') (ss_mem s') [z] F zs fl"
        unfolding cache_ok_def st using D mv(1,2,3) [OF p0] c' Z P by (auto simp del: dll.simps)
      have "evolves E s (set (P @ F @ Z)) fl Fr s' (set (P @ F @ Z)) fl Fr"
        by (rule evolves_same [OF fr]) (use fr c' mv(5) [OF p0] Z in \<open>auto simp: frames_ok_def\<close>)
      then show ?thesis using that [of z "[]" zs fl Fr] ck st by simp
    qed
  qed
qed

lemma cache_ready_none:
  assumes "frames_ok E s Q Fr" "cache_ready E i c s = (False, c', s')"
  shows "c' = c" "ss_hdr s' = ss_hdr s" "ss_mem s' = ss_mem s" "pmm_frames E (ss_pmm s') Fr"
  using assms pg.alloc_none [of E "ss_pmm s" Fr]
  by (auto simp: cache_ready_def cache_grow_def frames_ok_def Let_def split: if_splits prod.splits option.splits)

lemma evolves_slot:
  assumes "frames_ok E s Q Fr" "ss_pmm s' = ss_pmm s" "\<And>y. y \<notin> Q \<Longrightarrow> ss_hdr s' y = ss_hdr s y"
    and "class_size sz" "p \<in> Q" "slot \<in> slots p sz" "\<And>x. x < slot \<or> slot + sz \<le> x \<Longrightarrow> ss_mem s' x = ss_mem s x"
  shows "evolves E s Q fl Fr s' Q (fl(p := fs)) Fr"
proof (rule evolves_same [OF assms(1)])
  show "ss_mem s' x = ss_mem s x" if "\<forall>p \<in> Q. x < p \<or> p + PAGE_SIZE \<le> x" for x
    by (rule assms(7)) (use that assms(5) slot_in_page [OF assms(4,6)] in fastforce)
qed (use assms in \<open>auto simp: frames_ok_def\<close>)

lemma cache_alloc_ok:
  assumes ok: "cache_ok sz c (ss_hdr s) (ss_mem s) P F Z fl" and fr: "frames_ok E s (set (P @ F @ Z)) Fr"
    and a: "cache_alloc E i c s = (r, c', s')"
  obtains P' F' Z' fl' Fr' where "cache_ok sz c' (ss_hdr s') (ss_mem s') P' F' Z' fl'"
    "evolves E s (set (P @ F @ Z)) fl Fr s' (set (P' @ F' @ Z')) fl' Fr'"
    "case r of None \<Rightarrow> objs sz (set (P' @ F' @ Z')) fl' = objs sz (set (P @ F @ Z)) fl
     | Some u \<Rightarrow> \<exists>slot. u = slot + 4 \<and> slot \<notin> objs sz (set (P @ F @ Z)) fl \<and>
         objs sz (set (P' @ F' @ Z')) fl' = insert slot (objs sz (set (P @ F @ Z)) fl)"
proof -
  obtain b c1 s1 where rd: "cache_ready E i c s = (b, c1, s1)" using prod_cases3 by blast
  show thesis
  proof (cases b)
    case False
    then have r: "r = None" "c' = c1" "s' = s1" using a rd by (simp_all add: cache_alloc_def)
    have "cache_ready E i c s = (False, c1, s1)" using rd False by simp
    note n = cache_ready_none [OF fr this]
    have "evolves E s (set (P @ F @ Z)) fl Fr s' (set (P @ F @ Z)) fl Fr"
      by (rule evolves_same [OF fr]) (use n r in auto)
    then show ?thesis using that [of P F Z fl Fr] ok n r by simp
  next
    case True
    obtain p P1 Z1 fl1 Fr1 where 1: "cache_ok sz c1 (ss_hdr s1) (ss_mem s1) (p # P1) F Z1 fl1"
      "evolves E s (set (P @ F @ Z)) fl Fr s1 (set ((p # P1) @ F @ Z1)) fl1 Fr1"
      "objs sz (set ((p # P1) @ F @ Z1)) fl1 = objs sz (set (P @ F @ Z)) fl"
      using cache_ready_ok [OF ok fr] rd True by metis
    obtain u where u: "cache_take c1 s1 = (u, c', s')" "r = Some u"
      using a rd True by (auto simp: cache_alloc_def split: prod.splits)
    note fr1 = evolves_frames [OF 1(2) fr] and D = cache_okD [OF 1(1)]
    obtain slot rest P' F' where 2: "fl1 p = slot # rest" "slot \<in> slots p sz" "u = slot + 4"
      "cache_ok sz c' (ss_hdr s') (ss_mem s') P' F' Z1 (fl1(p := rest))" "set (P' @ F' @ Z1) = set ((p # P1) @ F @ Z1)"
      "ss_pmm s' = ss_pmm s1" "\<And>y. y \<notin> set ((p # P1) @ F @ Z1) \<Longrightarrow> ss_hdr s' y = ss_hdr s1 y"
      "\<And>x. x < slot \<or> slot + sz \<le> x \<Longrightarrow> ss_mem s' x = ss_mem s1 x"
      "objs sz (set ((p # P1) @ F @ Z1)) (fl1(p := rest)) = insert slot (objs sz (set ((p # P1) @ F @ Z1)) fl1)"
      by (rule cache_take_ok [OF 1(1) u(1)]) (rule that, assumption+)
    have pp: "p \<in> set ((p # P1) @ F @ Z1)" by simp
    have "slot \<notin> objs sz (set ((p # P1) @ F @ Z1)) fl1"
    proof
      assume "slot \<in> objs sz (set ((p # P1) @ F @ Z1)) fl1"
      then obtain q where q: "q \<in> set ((p # P1) @ F @ Z1)" "slot \<in> slots q sz" "slot \<notin> set (fl1 q)" unfolding objs_def by blast
      have "q = p" by (rule slots_same_page [OF D(1) cache_ok_page(1) [OF 1(1) q(1)] cache_ok_page(1) [OF 1(1) pp] q(2) 2(2)])
      then show False using q(3) 2(1) by simp
    qed
    moreover have "evolves E s1 (set ((p # P1) @ F @ Z1)) fl1 Fr1 s' (set (P' @ F' @ Z1)) (fl1(p := rest)) Fr1"
      unfolding 2(5) by (rule evolves_slot [OF fr1 2(6,7) D(1) pp 2(2,8)])
    ultimately show ?thesis
      using that [OF 2(4) evolves_trans [OF 1(2)]] 2(3,5,9) 1(3) u(2) by simp
  qed
qed

end
