(* ===== verification/Slab_Safety.thy ===== *)
theory Slab_Safety
  imports Slab_Inv
begin

unbundle bit_operations_syntax

section \<open>Safety of the slab allocator\<close>

text \<open>
  The invariant of all caches together, the runs of clients of \<^verbatim>\<open>src/mm/slab.rs\<close> next to other users
  of the physical memory manager, and the properties: objects never overlap, a live object can
  be released and only once, shrinking ends, and the statistics count the live objects.
\<close>

abbreviation NC :: nat where "NC \<equiv> length SIZE_CLASSES"

abbreviation csize :: "nat \<Rightarrow> nat" where "csize k \<equiv> SIZE_CLASSES ! k"

lemma class_size_nth: "k < NC \<Longrightarrow> class_size (csize k)"
  by (simp add: class_size_def)

subsection \<open>The invariant\<close>

text \<open>
  \<open>gP\<close>, \<open>gF\<close> and \<open>gZ\<close> are the partial, full and empty slabs of each cache, \<open>g_free\<close> the free list of each
  slab, \<open>g_frames\<close> the frames that are free in the physical memory manager.
\<close>

record slab_ghost =
  gP :: "nat \<Rightarrow> nat list"
  gF :: "nat \<Rightarrow> nat list"
  gZ :: "nat \<Rightarrow> nat list"
  g_free :: "nat \<Rightarrow> nat list"
  g_frames :: "nat set"

definition pages_of :: "slab_ghost \<Rightarrow> nat \<Rightarrow> nat set" where
  "pages_of g k = set (gP g k @ gF g k @ gZ g k)"

definition cache_at :: "'h slab_world \<Rightarrow> slab_ghost \<Rightarrow> nat \<Rightarrow> bool" where
  "cache_at w g k \<longleftrightarrow> cache_ok (csize k) (sw_caches w ! k) (ss_hdr (sw_state w)) (ss_mem (sw_state w))
     (gP g k) (gF g k) (gZ g k) (g_free g)"

definition live_ptrs :: "slab_ghost \<Rightarrow> nat \<Rightarrow> nat set" where
  "live_ptrs g k = (if k < NC then (\<lambda>s. s + 4) ` objs (csize k) (pages_of g k) (g_free g) else {})"

text \<open>\<open>H\<close> holds the pages that other users of the physical memory manager have.\<close>

definition slab_inv :: "platform \<Rightarrow> 'h slab_world \<Rightarrow> slab_ghost \<Rightarrow> nat set \<Rightarrow> bool" where
  "slab_inv E w g H \<longleftrightarrow> length (sw_caches w) = NC \<and> (\<forall>k < NC. cache_at w g k) \<and>
     (\<forall>j < NC. \<forall>k < NC. j \<noteq> k \<longrightarrow> pages_of g j \<inter> pages_of g k = {}) \<and>
     pmm_frames E (ss_pmm (sw_state w)) (g_frames g) \<and> (\<forall>p \<in> g_frames g \<union> H. page_frame p) \<and>
     H \<inter> g_frames g = {} \<and> (\<forall>k < NC. pages_of g k \<inter> (g_frames g \<union> H) = {})"

lemma slab_invD:
  assumes "slab_inv E w g H"
  shows "length (sw_caches w) = NC" "\<And>k. k < NC \<Longrightarrow> cache_at w g k"
    "\<And>j k. j < NC \<Longrightarrow> k < NC \<Longrightarrow> j \<noteq> k \<Longrightarrow> pages_of g j \<inter> pages_of g k = {}"
    "pmm_frames E (ss_pmm (sw_state w)) (g_frames g)" "\<And>p. p \<in> g_frames g \<union> H \<Longrightarrow> page_frame p"
    "H \<inter> g_frames g = {}" "\<And>k. k < NC \<Longrightarrow> pages_of g k \<inter> (g_frames g \<union> H) = {}"
  using assms by (auto simp: slab_inv_def)

lemma slab_inv_frames: "slab_inv E w g H \<Longrightarrow> k < NC \<Longrightarrow> frames_ok E (sw_state w) (pages_of g k) (g_frames g)"
  using slab_invD(4,5,7) [of E w g H] by (auto simp: frames_ok_def)

lemma cache_at_page: "cache_at w g k \<Longrightarrow> p \<in> pages_of g k \<Longrightarrow> page_frame p"
  unfolding cache_at_def pages_of_def by (rule cache_ok_page(1))

text \<open>A cache whose pages are outside those of another is not affected by a step of the other.\<close>

lemma cache_ok_frame:
  assumes ok: "cache_ok sz c (ss_hdr s) (ss_mem s) P F Z fl" and ev: "evolves E s Q fl Fr s' Q' fl' Fr'"
    and apart: "set (P @ F @ Z) \<inter> Q' = {}" and pf: "\<And>p. p \<in> Q' \<Longrightarrow> page_frame p"
  shows "cache_ok sz c (ss_hdr s') (ss_mem s') P F Z fl'" "objs sz (set (P @ F @ Z)) fl' = objs sz (set (P @ F @ Z)) fl"
proof -
  note D = cache_okD [OF ok]
  have same: "ss_hdr s' p = ss_hdr s p" "fl' p = fl p" if "p \<in> set (P @ F @ Z)" for p
    using ev apart that by (auto simp: evolves_def)
  have mem: "ss_mem s' x = ss_mem s x" if "p \<in> set (P @ F @ Z)" "t \<in> slots p sz" "t \<le> x" "x < t + sz" for p t x
  proof -
    have "x < q \<or> q + PAGE_SIZE \<le> x" if "q \<in> Q'" for q
      by (rule slot_off_page [OF D(1) pf [OF that] cache_ok_page(1) [OF ok \<open>p \<in> _\<close>] _ \<open>t \<in> _\<close>])
        (use that \<open>p \<in> _\<close> \<open>t \<le> x\<close> \<open>x < _\<close> apart in auto)
    then show ?thesis using ev by (auto simp: evolves_def)
  qed
  show "objs sz (set (P @ F @ Z)) fl' = objs sz (set (P @ F @ Z)) fl" by (rule slabs_ok_fl(2)) (rule same(2))
  have "slabs_ok sz (ss_hdr s') (ss_mem s') (set (P @ F @ Z)) fl"
    by (rule slabs_ok_cong [OF D(1,8)]) (use mem same(1) in \<open>auto simp del: set_append\<close>)
  then have S: "slabs_ok sz (ss_hdr s') (ss_mem s') (set (P @ F @ Z)) fl'"
    by (rule iffD2 [OF slabs_ok_fl(1), rotated]) (rule same(2))
  have "dll (ss_hdr s') 0 a xs = dll (ss_hdr s) 0 a xs" if "set xs \<subseteq> set (P @ F @ Z)" for a xs
    by (rule dll_cong) (use same(1) that in auto)
  then have L: "dll (ss_hdr s') 0 (c_partial c) P" "dll (ss_hdr s') 0 (c_full c) F" "dll (ss_hdr s') 0 (c_empty c) Z"
    using D(4-6) by auto
  show "cache_ok sz c (ss_hdr s') (ss_mem s') P F Z fl'"
    unfolding cache_ok_def using D S L same(2) by auto
qed

text \<open>A step of cache \<open>k\<close> to the lists \<open>P\<close>, \<open>F\<close>, \<open>Z\<close>.\<close>

definition ghost_upd :: "nat \<Rightarrow> nat list \<Rightarrow> nat list \<Rightarrow> nat list \<Rightarrow> (nat \<Rightarrow> nat list) \<Rightarrow> nat set \<Rightarrow> slab_ghost \<Rightarrow> slab_ghost" where
  "ghost_upd k P F Z fl Fr g =
     \<lparr>gP = (gP g)(k := P), gF = (gF g)(k := F), gZ = (gZ g)(k := Z), g_free = fl, g_frames = Fr\<rparr>"

lemma pages_ghost_upd: "pages_of (ghost_upd k P F Z fl Fr g) j = (if j = k then set (P @ F @ Z) else pages_of g j)"
  by (simp add: ghost_upd_def pages_of_def)

lemma slab_inv_step:
  assumes inv: "slab_inv E w g H" and k: "k < NC"
    and ok: "cache_ok (csize k) c' (ss_hdr s') (ss_mem s') P F Z fl"
    and ev: "evolves E (sw_state w) (pages_of g k) (g_free g) (g_frames g) s' (set (P @ F @ Z)) fl Fr"
  shows "slab_inv E (on_cache k c' s' w) (ghost_upd k P F Z fl Fr g) H"
    and "live_ptrs (ghost_upd k P F Z fl Fr g) = (live_ptrs g)(k := (\<lambda>s. s + 4) ` objs (csize k) (set (P @ F @ Z)) fl)"
proof -
  note I = slab_invD [OF inv]
  let ?g = "ghost_upd k P F Z fl Fr g" and ?w = "on_cache k c' s' w"
  have sub: "set (P @ F @ Z) \<subseteq> pages_of g k \<union> g_frames g" "Fr \<subseteq> g_frames g - set (P @ F @ Z)"
    "pmm_frames E (ss_pmm s') Fr" using ev by (auto simp: evolves_def)
  have apart: "pages_of g j \<inter> set (P @ F @ Z) = {}" if "j < NC" "j \<noteq> k" for j
    using I(3) [OF that(1) k that(2)] I(7) [OF that(1)] sub(1) by blast
  have pf: "page_frame p" if "p \<in> set (P @ F @ Z)" for p by (rule cache_ok_page(1) [OF ok that])
  have oth: "cache_at ?w ?g j" "objs (csize j) (pages_of g j) fl = objs (csize j) (pages_of g j) (g_free g)"
    if j: "j < NC" "j \<noteq> k" for j
    using cache_ok_frame [OF I(2) [OF j(1), unfolded cache_at_def] ev _ pf] apart [OF j] j
    by (simp_all add: cache_at_def on_cache_def ghost_upd_def pages_of_def)
  have "cache_at ?w ?g k" using ok k I(1) by (simp add: cache_at_def on_cache_def ghost_upd_def)
  then have "cache_at ?w ?g j" if "j < NC" for j using oth(1) [OF that] by blast
  moreover have "pages_of ?g i \<inter> pages_of ?g j = {}" if "i < NC" "j < NC" "i \<noteq> j" for i j
    using that I(3) [OF that] apart by (auto simp: pages_ghost_upd simp del: set_append)
  moreover have "pages_of ?g j \<inter> (Fr \<union> H) = {}" if "j < NC" for j
  proof (cases "j = k")
    case True
    have "set (P @ F @ Z) \<inter> Fr = {}" "set (P @ F @ Z) \<inter> H = {}" using sub(1,2) I(6) I(7) [OF k] by blast+
    then show ?thesis using True by (auto simp: pages_ghost_upd)
  next
    case False
    have "pages_of g j \<inter> (Fr \<union> H) = {}" using I(7) [OF that] sub(2) by blast
    then show ?thesis using False by (simp add: pages_ghost_upd)
  qed
  ultimately show "slab_inv E ?w ?g H"
    using I(1,5,6) sub(2,3) by (auto simp: slab_inv_def on_cache_def ghost_upd_def)
  show "live_ptrs ?g = (live_ptrs g)(k := (\<lambda>s. s + 4) ` objs (csize k) (set (P @ F @ Z)) fl)"
  proof
    show "live_ptrs ?g j = ((live_ptrs g)(k := (\<lambda>s. s + 4) ` objs (csize k) (set (P @ F @ Z)) fl)) j" for j
      using k oth(2) [of j] by (cases "j = k") (simp_all add: live_ptrs_def pages_ghost_upd, simp_all add: ghost_upd_def)
  qed
qed

subsection \<open>Every operation keeps the invariant\<close>

lemma size_class_less: "size_class sz = Some k \<Longrightarrow> k < NC"
  by (auto simp: size_class_def Let_def find_Some_iff SIZE_CLASSES_def split: if_splits)

lemma alloc_inv:
  assumes inv: "slab_inv E w g H" and k: "size_class sz = Some k" and a: "slab_alloc ha E sz w = (r, w')"
  shows "\<exists>g'. slab_inv E w' g' H \<and>
    (case r of None \<Rightarrow> live_ptrs g' = live_ptrs g
     | Some u \<Rightarrow> u \<notin> live_ptrs g k \<and> live_ptrs g' = (live_ptrs g)(k := insert u (live_ptrs g k)))"
proof -
  note kl = size_class_less [OF k]
  obtain c' s' where c: "cache_alloc E (of_nat k) (sw_caches w ! k) (sw_state w) = (r, c', s')" "w' = on_cache k c' s' w"
    using a k by (auto simp: slab_alloc_def split: prod.splits)
  note ok = slab_invD(2) [OF inv kl, unfolded cache_at_def]
  note fr = slab_inv_frames [OF inv kl, unfolded pages_of_def]
  obtain P F Z fl Fr where 1: "cache_ok (csize k) c' (ss_hdr s') (ss_mem s') P F Z fl"
    "evolves E (sw_state w) (pages_of g k) (g_free g) (g_frames g) s' (set (P @ F @ Z)) fl Fr"
    "case r of None \<Rightarrow> objs (csize k) (set (P @ F @ Z)) fl = objs (csize k) (pages_of g k) (g_free g)
     | Some u \<Rightarrow> \<exists>slot. u = slot + 4 \<and> slot \<notin> objs (csize k) (pages_of g k) (g_free g) \<and>
         objs (csize k) (set (P @ F @ Z)) fl = insert slot (objs (csize k) (pages_of g k) (g_free g))"
    by (rule cache_alloc_ok [OF ok fr c(1), folded pages_of_def]) (rule that, assumption+)
  note st = slab_inv_step [OF inv kl 1(1,2)]
  have lk: "live_ptrs g k = (\<lambda>s. s + 4) ` objs (csize k) (pages_of g k) (g_free g)" using kl by (simp add: live_ptrs_def)
  show ?thesis
    by (rule exI [of _ "ghost_upd k P F Z fl Fr g"])
      (use st 1(3) lk c(2) in \<open>auto simp: fun_upd_idem split: option.splits\<close>)
qed

lemma free_inv:
  assumes inv: "slab_inv E w g H" and k: "size_class sz = Some k" and u: "u \<in> live_ptrs g k"
  shows "\<exists>w' g'. slab_free hf u sz w = Some w' \<and> slab_inv E w' g' H \<and> live_ptrs g' = (live_ptrs g)(k := live_ptrs g k - {u})"
proof -
  note kl = size_class_less [OF k]
  note ok = slab_invD(2) [OF inv kl, unfolded cache_at_def]
  note fr = slab_inv_frames [OF inv kl]
  have lk: "live_ptrs g k = (\<lambda>s. s + 4) ` objs (csize k) (pages_of g k) (g_free g)" using kl by (simp add: live_ptrs_def)
  then obtain slot where slot: "slot \<in> objs (csize k) (pages_of g k) (g_free g)" "u = slot + 4" using u by auto
  obtain p c' s' P F Z where 1: "cache_free (slot + 4) (sw_caches w ! k) (sw_state w) = Some (c', s')"
    "p \<in> pages_of g k" "slot \<in> slots p (csize k)"
    "cache_ok (csize k) c' (ss_hdr s') (ss_mem s') P F Z ((g_free g)(p := slot # g_free g p))"
    "set (P @ F @ Z) = pages_of g k" "ss_pmm s' = ss_pmm (sw_state w)"
    "\<And>y. y \<notin> pages_of g k \<Longrightarrow> ss_hdr s' y = ss_hdr (sw_state w) y"
    "\<And>x. x < slot \<or> slot + csize k \<le> x \<Longrightarrow> ss_mem s' x = ss_mem (sw_state w) x"
    "objs (csize k) (pages_of g k) ((g_free g)(p := slot # g_free g p)) = objs (csize k) (pages_of g k) (g_free g) - {slot}"
    by (rule cache_free_ok [OF ok slot(1) [unfolded pages_of_def], folded pages_of_def]) (rule that, assumption+)
  have "evolves E (sw_state w) (pages_of g k) (g_free g) (g_frames g) s' (set (P @ F @ Z))
      ((g_free g)(p := slot # g_free g p)) (g_frames g)"
    unfolding 1(5) by (rule evolves_slot [OF fr 1(6,7) class_size_nth [OF kl] 1(2,3,8)])
  note st = slab_inv_step [OF inv kl 1(4) this]
  have "slab_free hf u sz w = Some (on_cache k c' s' w)" using k slot(2) 1(1) by (simp add: slab_free_def)
  moreover have "(\<lambda>s. s + 4) ` (objs (csize k) (pages_of g k) (g_free g) - {slot}) = live_ptrs g k - {u}"
    using lk slot(2) by auto
  ultimately show ?thesis using st 1(5,9) by (metis (no_types))
qed

text \<open>A client writes to the payload of an object it holds.\<close>

definition client_write :: "nat \<Rightarrow> u8 list \<Rightarrow> 'h slab_world \<Rightarrow> 'h slab_world" where
  "client_write a bs w = w\<lparr>sw_state := (sw_state w)\<lparr>ss_mem := mem_write a bs (ss_mem (sw_state w))\<rparr>\<rparr>"

lemma payload_canary:
  assumes "8 \<le> sz" "slot + 4 \<le> a" "a + length bs \<le> slot + 4 + user_size sz"
  shows "canary_check slot sz (mem_write a bs m) = canary_check slot sz m"
proof -
  have "read_u32 slot (mem_write a bs m) = read_u32 slot m"
    by (rule read_u32_cong, rule mem_write_outside) (use assms in linarith)
  moreover have "read_u32 (slot + (sz - CANARY_SIZE)) (mem_write a bs m) = read_u32 (slot + (sz - CANARY_SIZE)) m"
    by (rule read_u32_cong, rule mem_write_outside) (use assms in \<open>simp add: user_size_def CANARY_SIZE_def\<close>)
  ultimately show ?thesis by (simp add: canary_check_def)
qed

lemma write_inv:
  assumes inv: "slab_inv E w g H" and k: "k < NC" and u: "u \<in> live_ptrs g k"
    and a: "u \<le> a" "a + length bs \<le> u + user_size (csize k)"
  shows "\<exists>g'. slab_inv E (client_write a bs w) g' H \<and> live_ptrs g' = live_ptrs g"
proof -
  note ok = slab_invD(2) [OF inv k, unfolded cache_at_def]
  note D = cache_okD [OF ok] and sz = class_size_nth [OF k]
  obtain slot p where p: "u = slot + 4" "p \<in> pages_of g k" "slot \<in> slots p (csize k)" "slot \<notin> set (g_free g p)"
    using u k by (auto simp: live_ptrs_def objs_def)
  let ?m = "ss_mem (sw_state w)" let ?m' = "mem_write a bs ?m" let ?fl = "(g_free g)(p := g_free g p)"
  have g8: "8 \<le> csize k" using class_geometry(1) [OF sz] .
  have out: "?m' x = ?m x" if "x < slot \<or> slot + csize k \<le> x" for x
    by (rule mem_write_outside) (use that a p(1) g8 in \<open>auto simp: user_size_def CANARY_SIZE_def\<close>)
  have pg: "page_frame p" "slab_ok (csize k) (ss_hdr (sw_state w) p) ?m p (g_free g p)"
    using cache_ok_page [OF ok] p(2) by (simp_all add: pages_of_def)
  have "slab_ok (csize k) (ss_hdr (sw_state w) p) ?m' p (g_free g p) = slab_ok (csize k) (ss_hdr (sw_state w) p) ?m p (g_free g p)"
  proof (rule slab_ok_cong [OF sz], rule out)
    show "x < slot \<or> slot + csize k \<le> x" if "t \<in> set (g_free g p)" "t \<le> x" "x < t + csize k" for t x
      by (rule slot_elsewhere [OF sz pg(1,1) p(3)]) (use that pg(2) p(4) in \<open>auto simp: slab_ok_def\<close>)
  qed
  then have new: "slab_ok (csize k) (ss_hdr (sw_state w) p) ?m' p (g_free g p)" using pg(2) by simp
  have "canary_check slot (csize k) ?m" using D(8) p by (auto simp: slabs_ok_def objs_def pages_of_def)
  then have can: "canary_check slot (csize k) ?m'" using payload_canary [OF g8, of slot a bs] a p(1) by simp
  note D8 = D(8) [folded pages_of_def]
  note ch = slabs_slot_change(1) [OF D8 sz p(2,3) out new refl disjI2 [OF can]]
  have "cache_ok (csize k) (sw_caches w ! k) (ss_hdr (sw_state w)) ?m' (gP g k) (gF g k) (gZ g k) (g_free g)"
    using ch D unfolding cache_ok_def pages_of_def by simp
  moreover have "evolves E (sw_state w) (pages_of g k) (g_free g) (g_frames g) ((sw_state w)\<lparr>ss_mem := ?m'\<rparr>) (pages_of g k) ?fl (g_frames g)"
    by (rule evolves_slot [OF slab_inv_frames [OF inv k] _ _ sz p(2,3)]) (use out in simp_all)
  ultimately have st: "slab_inv E (on_cache k (sw_caches w ! k) ((sw_state w)\<lparr>ss_mem := ?m'\<rparr>) w)
      (ghost_upd k (gP g k) (gF g k) (gZ g k) (g_free g) (g_frames g) g) H"
    using slab_inv_step(1) [OF inv k, of _ "(sw_state w)\<lparr>ss_mem := ?m'\<rparr>"] by (simp add: pages_of_def)
  have "ghost_upd k (gP g k) (gF g k) (gZ g k) (g_free g) (g_frames g) g = g" by (simp add: ghost_upd_def)
  moreover have "on_cache k (sw_caches w ! k) ((sw_state w)\<lparr>ss_mem := ?m'\<rparr>) w = client_write a bs w"
    by (simp add: on_cache_def client_write_def)
  ultimately show ?thesis using st by auto
qed

lemma grow_inv:
  assumes inv: "slab_inv E w g H" and k: "k < NC" and gr: "cache_grow E i (sw_caches w ! k) (sw_state w) = (b, c', s')"
  shows "\<exists>g'. slab_inv E (on_cache k c' s' w) g' H \<and> live_ptrs g' = live_ptrs g"
proof -
  note ok = slab_invD(2) [OF inv k, unfolded cache_at_def]
  note fr = slab_inv_frames [OF inv k]
  have lk: "live_ptrs g k = (\<lambda>s. s + 4) ` objs (csize k) (pages_of g k) (g_free g)" using k by (simp add: live_ptrs_def)
  show ?thesis
  proof (cases b)
    case True
    then obtain pa fl where 1: "cache_ok (csize k) c' (ss_hdr s') (ss_mem s') (pa # gP g k) (gF g k) (gZ g k) fl"
      "evolves E (sw_state w) (pages_of g k) (g_free g) (g_frames g) s' (set ((pa # gP g k) @ gF g k @ gZ g k)) fl (g_frames g - {pa})"
      "objs (csize k) (set ((pa # gP g k) @ gF g k @ gZ g k)) fl = objs (csize k) (pages_of g k) (g_free g)"
      using cache_grow_ok [OF ok fr [unfolded pages_of_def], folded pages_of_def] gr by metis
    show ?thesis using slab_inv_step [OF inv k 1(1,2)] lk unfolding 1(3) by (metis fun_upd_triv)
  next
    case False
    then have s': "c' = sw_caches w ! k" "ss_hdr s' = ss_hdr (sw_state w)" "ss_mem s' = ss_mem (sw_state w)"
      "alloc_page E (ss_pmm (sw_state w)) = (None, ss_pmm s')"
      using gr by (auto simp: cache_grow_def Let_def split: prod.splits option.splits)
    have ev: "evolves E (sw_state w) (pages_of g k) (g_free g) (g_frames g) s' (set (gP g k @ gF g k @ gZ g k)) (g_free g) (g_frames g)"
      unfolding pages_of_def [symmetric]
      by (rule evolves_same [OF fr]) (use s' pg.alloc_none [OF slab_invD(4) [OF inv] s'(4)] in simp_all)
    have "cache_ok (csize k) c' (ss_hdr s') (ss_mem s') (gP g k) (gF g k) (gZ g k) (g_free g)" using ok s' by simp
    from slab_inv_step [OF inv k this ev] show ?thesis using lk unfolding pages_of_def [symmetric] by (metis fun_upd_triv)
  qed
qed

lemma init_inv: "slab_inv E w g H \<Longrightarrow> \<exists>g'. slab_inv E (slab_init E w) g' H \<and> live_ptrs g' = live_ptrs g"
proof -
  have "\<exists>g'. slab_inv E (slab_init_from E is w) g' H \<and> live_ptrs g' = live_ptrs g"
    if "slab_inv E w g H" "\<forall>i \<in> set is. i < NC" for "is"
    using that
  proof (induction "is" arbitrary: w g)
    case (Cons i "is")
    obtain b c' s' where gr: "cache_grow E (of_nat i) (sw_caches w ! i) (sw_state w) = (b, c', s')" using prod_cases3 by blast
    obtain g1 where g1: "slab_inv E (on_cache i c' s' w) g1 H" "live_ptrs g1 = live_ptrs g"
      using grow_inv [OF Cons.prems(1) _ gr] Cons.prems(2) by auto
    show ?case using Cons.IH [OF g1(1)] Cons.IH [OF Cons.prems(1)] Cons.prems(2) gr g1(2) by (simp add: Let_def)
  qed auto
  then show "slab_inv E w g H \<Longrightarrow> \<exists>g'. slab_inv E (slab_init E w) g' H \<and> live_ptrs g' = live_ptrs g"
    by (simp add: slab_init_def)
qed

subsection \<open>Shrinking\<close>

fun release_all :: "platform \<Rightarrow> nat list \<Rightarrow> pmm \<Rightarrow> pmm panicky" where
  "release_all E [] p = Some p"
| "release_all E (z # zs) p = Option.bind (free_page E z p) (release_all E zs)"

lemma shrink_loop_walk: "dll h q a zs \<Longrightarrow> shrink_loop E a h p = release_all E zs p"
proof (induction zs arbitrary: q a p)
  case Nil
  then show ?case by (subst shrink_loop.simps) simp
next
  case (Cons z zs)
  have "dll h z (sh_next (h z)) zs" using Cons.prems by simp
  then have "shrink_loop E (sh_next (h z)) h = release_all E zs" using Cons.IH by blast
  then show ?case using Cons.prems by (subst shrink_loop.simps) simp
qed

lemma release_all_frames:
  "pmm_frames E p Fr \<Longrightarrow> distinct zs \<Longrightarrow> set zs \<inter> Fr = {} \<Longrightarrow> release_all E zs p = Some p' \<Longrightarrow>
    \<exists>Fr'. pmm_frames E p' Fr' \<and> Fr' \<subseteq> Fr \<union> set zs"
proof (induction zs arbitrary: p Fr)
  case (Cons z zs)
  obtain p1 where p1: "free_page E z p = Some p1" "release_all E zs p1 = Some p'" using Cons.prems(4) by (auto simp: bind_eq_Some_conv)
  obtain F1 where F1: "pmm_frames E p1 F1" "F1 \<subseteq> insert z Fr" using pg.release_some [OF Cons.prems(1) _ p1(1)] Cons.prems(3) by auto
  have "\<exists>Fr'. pmm_frames E p' Fr' \<and> Fr' \<subseteq> F1 \<union> set zs"
    by (rule Cons.IH [OF F1(1) _ _ p1(2)]) (use Cons.prems F1(2) in auto)
  then show ?case using F1(2) by auto
qed auto

lemma empty_no_objs:
  assumes "cache_ok sz c h m P F Z fl"
  shows "objs sz (set (P @ F @ Z)) fl = objs sz (set (P @ F @ [])) fl"
proof -
  note D = cache_okD [OF assms]
  have "slots p sz = set (fl p)" if p: "p \<in> set Z" for p
  proof -
    have ok: "slab_ok sz (h p) m p (fl p)" using cache_ok_page(2) [OF assms] p by simp
    then have "set (fl p) \<subseteq> slots p sz" "card (set (fl p)) = card (slots p sz)"
      using D(11) p card_slots [OF D(1)] by (auto simp: slab_ok_def distinct_card)
    then show ?thesis using card_subset_eq slots_ordered [OF D(1)] by (metis finite_set)
  qed
  then show ?thesis by (auto simp: objs_def)
qed

lemma cache_ok_drop_empty:
  assumes "cache_ok sz c h m P F Z fl"
  shows "cache_ok sz (c\<lparr>c_empty := 0\<rparr>) h m P F [] fl"
proof -
  note D = cache_okD [OF assms]
  have "slabs_ok sz h m (set (P @ F @ [])) fl"
    using D(8) empty_no_objs [OF assms] unfolding slabs_ok_def by auto
  then show ?thesis using D unfolding cache_ok_def by auto
qed

lemma shrink_inv_step:
  assumes inv: "slab_inv E w g H" and k: "k < NC" and sh: "cache_shrink E (sw_caches w ! k) (sw_state w) = Some (c', s')"
  shows "\<exists>g'. slab_inv E (on_cache k c' s' w) g' H \<and> live_ptrs g' = live_ptrs g"
proof -
  note I = slab_invD [OF inv] note ok = I(2) [OF k, unfolded cache_at_def] note D = cache_okD [OF ok]
  obtain p' where p': "release_all E (gZ g k) (ss_pmm (sw_state w)) = Some p'"
    "c' = (sw_caches w ! k)\<lparr>c_empty := 0\<rparr>" "s' = (sw_state w)\<lparr>ss_pmm := p'\<rparr>"
    using sh shrink_loop_walk [OF D(6)] by (auto simp: cache_shrink_def)
  have Z: "distinct (gZ g k)" "set (gZ g k) \<inter> g_frames g = {}" "set (gZ g k) \<subseteq> pages_of g k"
    using D(7) I(7) [OF k] by (auto simp: pages_of_def)
  obtain Fr where Fr: "pmm_frames E p' Fr" "Fr \<subseteq> g_frames g \<union> set (gZ g k)"
    using release_all_frames [OF I(4) Z(1,2) p'(1)] by blast
  define g' where "g' = ghost_upd k (gP g k) (gF g k) [] (g_free g) Fr g"
  let ?w = "on_cache k c' s' w"
  have pgs: "pages_of g' j = (if j = k then set (gP g k @ gF g k @ []) else pages_of g j)" for j
    unfolding g'_def by (rule pages_ghost_upd)
  have sub: "pages_of g' j \<subseteq> pages_of g j" for j unfolding pgs by (auto simp: pages_of_def)
  have noZ: "pages_of g' j \<inter> set (gZ g k) = {}" if "j < NC" for j
  proof (cases "j = k")
    case True
    then show ?thesis using D(7) unfolding pgs by auto
  next
    case False
    then show ?thesis using I(3) [OF that k] Z(3) sub [of j] by blast
  qed
  have "cache_at ?w g' j" if "j < NC" for j
    using I(2) [OF that] cache_ok_drop_empty [OF ok] p'(2,3) that I(1)
    by (cases "j = k") (simp_all add: cache_at_def on_cache_def g'_def ghost_upd_def)
  moreover have "pages_of g' i \<inter> pages_of g' j = {}" if "i < NC" "j < NC" "i \<noteq> j" for i j
    using I(3) [OF that] sub [of i] sub [of j] by blast
  moreover have "pages_of g' j \<inter> (Fr \<union> H) = {}" if "j < NC" for j
    using I(7) [OF that] sub [of j] noZ [OF that] Fr(2) by blast
  moreover have "page_frame q" if "q \<in> Fr \<union> H" for q
  proof (cases "q \<in> set (gZ g k)")
    case True
    then show ?thesis using cache_at_page [OF I(2) [OF k]] Z(3) by blast
  next
    case False
    then show ?thesis using that Fr(2) I(5) by blast
  qed
  moreover have "H \<inter> Fr = {}" using I(6) I(7) [OF k] Fr(2) Z(3) by blast
  ultimately have "slab_inv E ?w g' H"
    using I(1) Fr(1) p'(3) by (simp add: slab_inv_def on_cache_def g'_def ghost_upd_def)
  moreover have "live_ptrs g' j = live_ptrs g j" for j
    using empty_no_objs [OF ok] by (cases "j = k") (simp_all add: live_ptrs_def pgs, simp_all add: pages_of_def g'_def ghost_upd_def)
  ultimately show ?thesis by auto
qed

lemma shrink_inv:
  assumes "slab_inv E w g H" "slab_shrink E w = Some w'"
  shows "\<exists>g'. slab_inv E w' g' H \<and> live_ptrs g' = live_ptrs g"
proof -
  have "\<exists>g'. slab_inv E w' g' H \<and> live_ptrs g' = live_ptrs g"
    if "slab_inv E w g H" "shrink_from E is w = Some w'" "\<forall>i \<in> set is. i < NC" for "is" w g
    using that
  proof (induction "is" arbitrary: w g)
    case (Cons i "is")
    obtain c' s' where c: "cache_shrink E (sw_caches w ! i) (sw_state w) = Some (c', s')"
      "shrink_from E is (on_cache i c' s' w) = Some w'" using Cons.prems(2) by (auto simp: bind_eq_Some_conv)
    obtain g1 where g1: "slab_inv E (on_cache i c' s' w) g1 H" "live_ptrs g1 = live_ptrs g"
      using shrink_inv_step [OF Cons.prems(1) _ c(1)] Cons.prems(3) by auto
    show ?case using Cons.IH [OF g1(1) c(2)] Cons.prems(3) g1(2) by auto
  qed auto
  then show ?thesis using assms by (auto simp: slab_shrink_def)
qed

subsection \<open>Runs\<close>

text \<open>
  The start: fresh caches over any state of the physical memory manager whose frames can be
  addressed. \<open>L k\<close> is the set of pointers to objects of class \<open>k\<close> that clients hold, \<open>H\<close> the
  set of pages that other parts of the kernel hold.
\<close>

definition slab_start :: "platform \<Rightarrow> 'h slab_world \<Rightarrow> bool" where
  "slab_start E w \<longleftrightarrow> sw_caches w = slab_caches \<and> (\<exists>F. pmm_frames E (ss_pmm (sw_state w)) F) \<and>
     pool_base E + POOL_PAGES * PAGE_SIZE \<le> 2 ^ 64 \<and> pi_len (ss_pmm (sw_state w)) \<le> MAX_FRAMES"

definition with_pmm :: "pmm \<Rightarrow> 'h slab_world \<Rightarrow> 'h slab_world" where
  "with_pmm p w = w\<lparr>sw_state := (sw_state w)\<lparr>ss_pmm := p\<rparr>\<rparr>"

inductive slab_reach :: "platform \<Rightarrow> 'h slab_world \<Rightarrow> 'h slab_world \<Rightarrow> (nat \<Rightarrow> nat set) \<Rightarrow> nat set \<Rightarrow> bool" for E w0 where
  slab_begin: "slab_reach E w0 w0 (\<lambda>_. {}) {}"
| slab_initialise: "slab_reach E w0 w L H \<Longrightarrow> slab_reach E w0 (slab_init E w) L H"
| slab_allocate: "slab_reach E w0 w L H \<Longrightarrow> size_class sz = Some k \<Longrightarrow> slab_alloc ha E sz w = (Some u, w') \<Longrightarrow>
    slab_reach E w0 w' (L(k := insert u (L k))) H"
| slab_full: "slab_reach E w0 w L H \<Longrightarrow> size_class sz = Some k \<Longrightarrow> slab_alloc ha E sz w = (None, w') \<Longrightarrow>
    slab_reach E w0 w' L H"
| slab_release: "slab_reach E w0 w L H \<Longrightarrow> size_class sz = Some k \<Longrightarrow> u \<in> L k \<Longrightarrow> slab_free hf u sz w = Some w' \<Longrightarrow>
    slab_reach E w0 w' (L(k := L k - {u})) H"
| slab_write: "slab_reach E w0 w L H \<Longrightarrow> k < length SIZE_CLASSES \<Longrightarrow> u \<in> L k \<Longrightarrow> u \<le> a \<Longrightarrow>
    a + length bs \<le> u + user_size (SIZE_CLASSES ! k) \<Longrightarrow> slab_reach E w0 (client_write a bs w) L H"
| slab_shrunk: "slab_reach E w0 w L H \<Longrightarrow> slab_shrink E w = Some w' \<Longrightarrow> slab_reach E w0 w' L H"
| slab_other_alloc: "slab_reach E w0 w L H \<Longrightarrow> alloc_page E (ss_pmm (sw_state w)) = (Some p, p') \<Longrightarrow>
    slab_reach E w0 (with_pmm p' w) L (insert p H)"
| slab_other_free: "slab_reach E w0 w L H \<Longrightarrow> p \<in> H \<Longrightarrow> free_page E p (ss_pmm (sw_state w)) = Some p' \<Longrightarrow>
    slab_reach E w0 (with_pmm p' w) L (H - {p})"

lemma frame_pages:
  assumes "pmm_frames E s F" "p \<in> F" "pool_base E + POOL_PAGES * PAGE_SIZE \<le> 2 ^ 64" "pi_len s \<le> MAX_FRAMES"
  shows "page_frame p"
proof -
  obtain L B where ok: "pmm_ok E s L B" and F: "F = free_frames E s L B" using assms(1) by (auto simp: pmm_frames_def)
  note K = pmm_okD [OF ok]
  consider j where "j \<in> covered (blocks L)" "p = j * PAGE_SIZE" | i where "i < POOL_PAGES" "p = pool_page E i"
  proof -
    have "\<exists>i < POOL_PAGES. q = pool_page E i" if "q \<in> pool_frames E s B" for q
      using that K(2) unfolding pool_frames_def boot_inv_def by fastforce
    then show thesis using that assms(2) unfolding F free_frames_def by blast
  qed
  then show ?thesis
  proof cases
    case 1
    then obtain n k i where b: "(n, k, i) \<in> blocks L" "j \<in> blk i k" by (auto simp: covered_iff)
    have "block_ok (pi_len s) k i"
      using blocks_wf_okD [OF pmm_inv_wf [OF buddy_ok_blocks [OF K(3) 1(1)]] b(1)] .
    then have "0 < j" "j < MAX_FRAMES" using b(2) assms(4) by (auto simp: blk_def block_ok_def)
    then have "0 < p" "p + PAGE_SIZE \<le> MAX_FRAMES * PAGE_SIZE" using 1(2) by (auto simp: PAGE_SIZE_def)
    then show ?thesis using 1(2) by (auto simp: page_frame_def MAX_FRAMES_def MAX_PA_def PAGE_SIZE_def)
  next
    case 2
    then have "p + PAGE_SIZE \<le> pool_base E + POOL_PAGES * PAGE_SIZE" by (auto simp: pool_page_def PAGE_SIZE_def)
    then show ?thesis using 2 assms(3) pool_page_aligned [OF K(1)] pool_page_pos [OF K(1)] by (simp add: page_frame_def)
  qed
qed

lemma start_inv:
  assumes "slab_start E w"
  shows "\<exists>g. slab_inv E w g {} \<and> live_ptrs g = (\<lambda>_. {})"
proof -
  obtain F where F: "pmm_frames E (ss_pmm (sw_state w)) F" "\<forall>p \<in> F. page_frame p"
    using assms frame_pages by (auto simp: slab_start_def)
  let ?g = "\<lparr>gP = \<lambda>_. [], gF = \<lambda>_. [], gZ = \<lambda>_. [], g_free = \<lambda>_. [], g_frames = F\<rparr>"
  have "cache_at w ?g k" if "k < NC" for k
    using that assms class_size_nth [OF that]
    by (simp add: cache_at_def cache_ok_def slab_start_def slab_caches_def cache_new_def slabs_ok_def objs_def)
  then have "slab_inv E w ?g {}" using assms F by (simp add: slab_inv_def slab_start_def slab_caches_def pages_of_def)
  moreover have "live_ptrs ?g = (\<lambda>_. {})" by (rule ext) (simp add: live_ptrs_def objs_def pages_of_def)
  ultimately show ?thesis by blast
qed

lemma with_pmm_inv:
  assumes inv: "slab_inv E w g H" and "pmm_frames E p' Fr" "\<forall>p \<in> Fr \<union> H'. page_frame p" "H' \<inter> Fr = {}"
    and "\<And>k. k < NC \<Longrightarrow> pages_of g k \<inter> (Fr \<union> H') = {}"
  shows "\<exists>g'. slab_inv E (with_pmm p' w) g' H' \<and> live_ptrs g' = live_ptrs g"
proof -
  have "slab_inv E (with_pmm p' w) (g\<lparr>g_frames := Fr\<rparr>) H'"
    using inv assms(2-5) by (simp add: slab_inv_def with_pmm_def cache_at_def pages_of_def)
  moreover have "live_ptrs (g\<lparr>g_frames := Fr\<rparr>) = live_ptrs g" by (simp add: live_ptrs_def pages_of_def fun_eq_iff)
  ultimately show ?thesis by blast
qed

lemma reach_inv:
  assumes "slab_reach E w0 w L H" "slab_start E w0"
  shows "\<exists>g. slab_inv E w g H \<and> live_ptrs g = L"
  using assms
proof (induction rule: slab_reach.induct)
  case slab_begin
  then show ?case by (rule start_inv)
next
  case (slab_initialise w L H)
  then show ?case using init_inv by metis
next
  case (slab_allocate w L H sz k ha u w')
  then obtain g where "slab_inv E w g H" "live_ptrs g = L" by blast
  then show ?case using alloc_inv [OF _ slab_allocate.hyps(2,3)] by fastforce
next
  case (slab_full w L H sz k ha w')
  then obtain g where "slab_inv E w g H" "live_ptrs g = L" by blast
  then show ?case using alloc_inv [OF _ slab_full.hyps(2,3)] by fastforce
next
  case (slab_release w L H sz k u hf w')
  then obtain g where "slab_inv E w g H" "live_ptrs g = L" by blast
  then show ?case using free_inv [OF _ slab_release.hyps(2), of E w g H u hf] slab_release.hyps(3,4) by auto
next
  case (slab_write w L H k u a bs)
  then show ?case using write_inv by metis
next
  case (slab_shrunk w L H w')
  then show ?case using shrink_inv by metis
next
  case (slab_other_alloc w L H p p')
  then obtain g where g: "slab_inv E w g H" "live_ptrs g = L" by blast
  note I = slab_invD [OF g(1)] note a = pg.alloc_some [OF I(4) slab_other_alloc.hyps(2)]
  have "\<exists>g'. slab_inv E (with_pmm p' w) g' (insert p H) \<and> live_ptrs g' = live_ptrs g"
    by (rule with_pmm_inv [OF g(1) conjunct2 [OF a]]) (use a I(5,6,7) in blast)+
  then show ?case using g(2) by simp
next
  case (slab_other_free w L H p p')
  then obtain g where g: "slab_inv E w g H" "live_ptrs g = L" by blast
  note I = slab_invD [OF g(1)]
  obtain Fr where Fr: "pmm_frames E p' Fr" "Fr \<subseteq> insert p (g_frames g)"
    using pg.release_some [OF I(4) _ slab_other_free.hyps(3)] I(6) slab_other_free.hyps(2) by blast
  have "\<exists>g'. slab_inv E (with_pmm p' w) g' (H - {p}) \<and> live_ptrs g' = live_ptrs g"
    by (rule with_pmm_inv [OF g(1) Fr(1)]) (use Fr(2) I(5,6,7) slab_other_free.hyps(2) in blast)+
  then show ?case using g(2) by simp
qed

subsection \<open>Objects\<close>

lemma live_slot:
  assumes "slab_inv E w g H" "u \<in> live_ptrs g k"
  obtains s p where "k < NC" "u = s + 4" "p \<in> pages_of g k" "s \<in> slots p (csize k)" "s \<notin> set (g_free g p)" "page_frame p"
proof -
  have k: "k < NC" using assms(2) by (auto simp: live_ptrs_def split: if_splits)
  then obtain s p where "u = s + 4" "p \<in> pages_of g k" "s \<in> slots p (csize k)" "s \<notin> set (g_free g p)"
    using assms(2) by (auto simp: live_ptrs_def objs_def)
  then show thesis using that k cache_at_page [OF slab_invD(2) [OF assms(1) k]] by blast
qed

text \<open>The bytes of an object of class \<open>k\<close> with its canaries.\<close>

definition extent :: "nat \<Rightarrow> nat \<Rightarrow> nat set" where
  "extent k u = {u - CANARY_SIZE ..< u - CANARY_SIZE + SIZE_CLASSES ! k}"



subsection \<open>Double release\<close>

lemma take_le_bytes: "n \<le> m \<Longrightarrow> take n (le_bytes m w) = le_bytes n w"
  by (simp add: le_bytes_def take_map)

lemma canary_not_pointer:
  assumes "8 dvd v" "v < 2 ^ 64"
  shows "\<not> canary_check a sz (write_ptr a v m)"
proof
  let ?w = "of_nat v :: u64"
  assume "canary_check a sz (write_ptr a v m)"
  then have c: "read_u32 a (write_ptr a v m) = CANARY_MAGIC" by (simp add: canary_check_def)
  have "mem_read a 4 n = take 4 (mem_read a 8 n)" for n by (simp add: mem_read_def take_map)
  then have "mem_read a 4 (write_ptr a v m) = le_bytes 4 ?w"
    using mem_read_write [of a "le_bytes 8 ?w" m] by (simp add: write_ptr_def take_le_bytes)
  then have r: "read_u32 a (write_ptr a v m) = of_nat (v mod 2 ^ 32)"
    using assms(2) by (simp add: read_u32_def from_le_bytes_le_bytes unat_of_nat)
  have "unat (of_nat (v mod 2 ^ 32) :: u32) = v mod 2 ^ 32" by (simp add: unat_of_nat)
  then have "v mod 2 ^ 32 = 3735929054" using c r by (simp add: CANARY_MAGIC_def)
  moreover have "8 dvd v mod 2 ^ 32" using assms(1) by (simp add: dvd_mod)
  ultimately show False by simp
qed

lemma slot_dvd:
  assumes "class_size sz" "page_frame p" "s \<in> slots p sz"
  shows "8 dvd s"
proof -
  have "8 dvd p" using assms(2) by (auto simp: page_frame_def PAGE_SIZE_def intro: dvd_trans [of 8 4096])
  then show ?thesis using assms(3) class_geometry(3,5) [OF assms(1)] by (auto simp: slots_def)
qed

lemma cache_free_again:
  assumes f: "cache_free u c s = Some (c', s')" and sz: "c_obj_size c' = c_obj_size c"
    and h: "8 dvd sh_free_head (ss_hdr s (user_slot_ptr u AND usize_not (PAGE_SIZE - 1)))"
      "sh_free_head (ss_hdr s (user_slot_ptr u AND usize_not (PAGE_SIZE - 1))) < 2 ^ 64"
  shows "cache_free u c' s' = None"
proof -
  let ?p = "user_slot_ptr u"
  have "ss_mem s' = write_ptr ?p (sh_free_head (ss_hdr s (?p AND usize_not (PAGE_SIZE - 1)))) (mem_write ?p (replicate (c_obj_size c) 0) (ss_mem s))"
    using f unfolding cache_free_def Let_def by (auto split: if_splits prod.splits)
  then have "\<not> canary_check ?p (c_obj_size c') (ss_mem s')" using canary_not_pointer [OF h] by simp
  then show ?thesis by (simp add: cache_free_def Let_def)
qed

lemma free_again:
  assumes inv: "slab_inv E w g H" and k: "size_class sz = Some k" and u: "u \<in> live_ptrs g k" and f: "slab_free hf u sz w = Some w'"
  shows "slab_free hf u sz w' = None"
proof -
  obtain s p where s: "k < NC" "u = s + 4" "p \<in> pages_of g k" "s \<in> slots p (csize k)" "page_frame p"
    using live_slot [OF inv u] by metis
  note cs = class_size_nth [OF s(1)] note ok = slab_invD(2) [OF inv s(1), unfolded cache_at_def]
  obtain c' s' where c: "cache_free u (sw_caches w ! k) (sw_state w) = Some (c', s')" "w' = on_cache k c' s' w"
    using f k s(2) by (auto simp: slab_free_def)
  have ptr: "user_slot_ptr u AND usize_not (PAGE_SIZE - 1) = p"
    using slot_user [OF s(5) cs s(4)] slot_page [OF cs s(5,4)] s(2) by simp
  have ok': "slab_ok (csize k) (ss_hdr (sw_state w) p) (ss_mem (sw_state w)) p (g_free g p)"
    using cache_ok_page(2) [OF ok] s(3) by (simp add: pages_of_def)
  have h: "8 dvd sh_free_head (ss_hdr (sw_state w) p)" "sh_free_head (ss_hdr (sw_state w) p) < 2 ^ 64"
    using ok' slot_dvd [OF cs s(5)] slot_user [OF s(5) cs] by (cases "g_free g p"; auto simp: slab_ok_def)+
  have "c_obj_size c' = c_obj_size (sw_caches w ! k)"
    using c(1) unfolding cache_free_def Let_def by (auto split: if_splits prod.splits)
  then have "cache_free u c' s' = None" by (rule cache_free_again [OF c(1)]) (use h ptr in simp_all)
  then show ?thesis using c(2) k s(1,2) slab_invD(1) [OF inv] by (simp add: slab_free_def on_cache_def)
qed

subsection \<open>Walks over the lists\<close>

lemma count_list_dll: "dll h q a xs \<Longrightarrow> count_list a h = Some (length xs)"
proof (induction xs arbitrary: q a)
  case Nil
  then show ?case by (subst count_list.simps) simp
next
  case (Cons x xs)
  have "dll h x (sh_next (h x)) xs" using Cons.prems by simp
  then show ?case using Cons.prems Cons.IH by (subst count_list.simps) simp
qed

lemma count_in_use_dll: "dll h q a xs \<Longrightarrow> count_in_use a h = Some (\<Sum>p \<leftarrow> xs. unat (sh_in_use (h p)))"
proof (induction xs arbitrary: q a)
  case Nil
  then show ?case by (subst count_in_use.simps) simp
next
  case (Cons x xs)
  have "dll h x (sh_next (h x)) xs" using Cons.prems by simp
  then show ?case using Cons.prems Cons.IH by (subst count_in_use.simps) simp
qed

lemma finite_slots: "class_size sz \<Longrightarrow> finite (slots p sz)"
  by (simp add: slots_ordered)

lemma card_objs:
  assumes ok: "cache_ok sz c h m P F Z fl"
  shows "card (objs sz (set (P @ F @ Z)) fl) = (\<Sum>p \<leftarrow> P. unat (sh_in_use (h p))) + (\<Sum>p \<leftarrow> F. unat (sh_in_use (h p)))"
proof -
  note D = cache_okD [OF ok]
  have one: "card (slots p sz - set (fl p)) = unat (sh_in_use (h p))" if "p \<in> set (P @ F @ Z)" for p
  proof -
    have s: "slab_ok sz (h p) m p (fl p)" by (rule cache_ok_page(2) [OF ok that])
    then have "card (slots p sz - set (fl p)) = slots_per_page sz - length (fl p)"
      using card_Diff_subset [of "set (fl p)" "slots p sz"] card_slots [OF D(1)] by (simp add: slab_ok_def distinct_card)
    then show ?thesis using s unfolding slab_ok_def by linarith
  qed
  have Z: "unat (sh_in_use (h p)) = 0" if "p \<in> set Z" for p
    using cache_ok_page(2) [OF ok, of p] D(11) that by (simp add: slab_ok_def)
  have "objs sz (set (P @ F @ Z)) fl = (\<Union>p \<in> set (P @ F @ Z). slots p sz - set (fl p))" by (auto simp: objs_def)
  moreover have "card (\<Union>p \<in> set (P @ F @ Z). slots p sz - set (fl p)) = (\<Sum>p \<in> set (P @ F @ Z). card (slots p sz - set (fl p)))"
  proof (rule card_UN_disjoint)
    show "\<forall>p \<in> set (P @ F @ Z). \<forall>q \<in> set (P @ F @ Z). p \<noteq> q \<longrightarrow> (slots p sz - set (fl p)) \<inter> (slots q sz - set (fl q)) = {}"
      using slots_same_page [OF D(1) cache_ok_page(1) [OF ok] cache_ok_page(1) [OF ok]] by blast
  qed (simp_all add: finite_slots [OF D(1)])
  moreover have "\<dots> = (\<Sum>p \<in> set (P @ F @ Z). unat (sh_in_use (h p)))" by (rule sum.cong [OF refl one])
  moreover have "\<dots> = (\<Sum>p \<leftarrow> P @ F @ Z. unat (sh_in_use (h p)))" by (rule sum_list_distinct_conv_sum_set [OF D(7), symmetric])
  moreover have "(\<Sum>p \<leftarrow> Z. unat (sh_in_use (h p))) = 0" using Z by simp
  ultimately show ?thesis by simp
qed

lemma cache_stats_ok:
  assumes ok: "cache_ok sz c h m P F Z fl"
  shows "\<exists>x. cache_stats c h = Some x \<and> st_active_objs x = card (objs sz (set (P @ F @ Z)) fl) \<and>
    st_total_slabs x = card (set (P @ F @ Z))"
proof -
  note D = cache_okD [OF ok]
  have "card (set (P @ F @ Z)) = length P + length F + length Z" using distinct_card [OF D(7)] by simp
  then show ?thesis
    using card_objs [OF ok] count_list_dll [OF D(4)] count_list_dll [OF D(5)] count_list_dll [OF D(6)]
      count_in_use_dll [OF D(4)] count_in_use_dll [OF D(5)]
    by (simp add: cache_stats_def)
qed

lemma stats_from_ok:
  assumes "\<And>i. i < length cs \<Longrightarrow> \<exists>x. cache_stats (cs ! i) h = Some x \<and> st_active_objs x = a i \<and> st_total_slabs x = b i"
  shows "\<exists>st'. stats_from cs h st = Some st' \<and> sl_active_objs st' = sl_active_objs st + (\<Sum>i < length cs. a i) \<and>
    sl_total_slabs st' = sl_total_slabs st + (\<Sum>i < length cs. b i)"
  using assms
proof (induction cs arbitrary: st a b)
  case (Cons c cs)
  obtain x where x: "cache_stats c h = Some x" "st_active_objs x = a 0" "st_total_slabs x = b 0" using Cons.prems [of 0] by auto
  have "\<exists>x. cache_stats (cs ! i) h = Some x \<and> st_active_objs x = a (Suc i) \<and> st_total_slabs x = b (Suc i)" if "i < length cs" for i
    using Cons.prems [of "Suc i"] that by simp
  note IH = Cons.IH [OF this]
  let ?st = "\<lparr>sl_total_slabs = sl_total_slabs st + st_total_slabs x, sl_active_objs = sl_active_objs st + st_active_objs x,
    sl_per_cache = sl_per_cache st @ [x]\<rparr>"
  obtain st' where st': "stats_from cs h ?st = Some st'" "sl_active_objs st' = sl_active_objs ?st + (\<Sum>i < length cs. a (Suc i))"
    "sl_total_slabs st' = sl_total_slabs ?st + (\<Sum>i < length cs. b (Suc i))" using IH [of ?st] by blast
  have "(\<Sum>i < length (c # cs). f i) = f 0 + (\<Sum>i < length cs. f (Suc i))" for f :: "nat \<Rightarrow> nat"
    using sum.lessThan_Suc_shift [of f "length cs"] by simp
  then show ?case using st' x by (intro exI [of _ st']) simp
qed simp

lemma release_all_append: "release_all E (xs @ ys) p = Option.bind (release_all E xs p) (release_all E ys)"
  by (induction xs arbitrary: p) (simp_all split: Option.bind_split)

lemma shrink_from_walk:
  assumes "\<And>i. i \<in> set is \<Longrightarrow> i < length (sw_caches w) \<and> dll (ss_hdr (sw_state w)) 0 (c_empty (sw_caches w ! i)) (Z i)" "distinct is"
  shows "map_option (\<lambda>w'. ss_pmm (sw_state w')) (shrink_from E is w) = release_all E (concat (map Z is)) (ss_pmm (sw_state w))"
  using assms
proof (induction "is" arbitrary: w)
  case (Cons i "is")
  have "shrink_loop E (c_empty (sw_caches w ! i)) (ss_hdr (sw_state w)) p = release_all E (Z i) p" for p
    by (rule shrink_loop_walk) (use Cons.prems(1) in auto)
  then have sh: "cache_shrink E (sw_caches w ! i) (sw_state w) =
      map_option (\<lambda>p'. ((sw_caches w ! i)\<lparr>c_empty := 0\<rparr>, (sw_state w)\<lparr>ss_pmm := p'\<rparr>)) (release_all E (Z i) (ss_pmm (sw_state w)))"
    by (simp add: cache_shrink_def)
  show ?case
  proof (cases "release_all E (Z i) (ss_pmm (sw_state w))")
    case None
    then show ?thesis using sh by (simp add: release_all_append)
  next
    case (Some p')
    let ?w = "on_cache i ((sw_caches w ! i)\<lparr>c_empty := 0\<rparr>) ((sw_state w)\<lparr>ss_pmm := p'\<rparr>) w"
    have "map_option (\<lambda>w'. ss_pmm (sw_state w')) (shrink_from E is ?w) = release_all E (concat (map Z is)) (ss_pmm (sw_state ?w))"
      by (rule Cons.IH) (use Cons.prems in \<open>auto simp: on_cache_def nth_list_update\<close>)
    then show ?thesis using sh Some by (simp add: release_all_append on_cache_def)
  qed
qed simp

lemma distinct_concat_map:
  assumes "\<And>i. i \<in> set is \<Longrightarrow> distinct (f i)" "\<And>i j. i \<in> set is \<Longrightarrow> j \<in> set is \<Longrightarrow> i \<noteq> j \<Longrightarrow> set (f i) \<inter> set (f j) = {}" "distinct is"
  shows "distinct (concat (map f is))"
  using assms by (induction "is") fastforce+

lemma inv_empty_slabs:
  assumes inv: "slab_inv E w g H"
  shows "distinct (concat (map (gZ g) [0..<NC])) \<and>
    (\<forall>p \<in> set (concat (map (gZ g) [0..<NC])). \<forall>k. \<forall>u \<in> live_ptrs g k. extent k u \<inter> {p ..< p + PAGE_SIZE} = {})"
proof
  note I = slab_invD [OF inv]
  have sub: "set (gZ g k) \<subseteq> pages_of g k" for k by (auto simp: pages_of_def)
  show "distinct (concat (map (gZ g) [0..<NC]))"
  proof (rule distinct_concat_map)
    show "distinct (gZ g i)" if "i \<in> set [0..<NC]" for i using I(2) [of i] that by (simp add: cache_at_def cache_ok_def)
    show "set (gZ g i) \<inter> set (gZ g j) = {}" if "i \<in> set [0..<NC]" "j \<in> set [0..<NC]" "i \<noteq> j" for i j
      using I(3) [of i j] that sub [of i] sub [of j] by auto
  qed simp
  show "\<forall>p \<in> set (concat (map (gZ g) [0..<NC])). \<forall>k. \<forall>u \<in> live_ptrs g k. extent k u \<inter> {p ..< p + PAGE_SIZE} = {}"
  proof (intro ballI allI)
    fix p k u
    assume "p \<in> set (concat (map (gZ g) [0..<NC]))" and u: "u \<in> live_ptrs g k"
    then obtain j where j: "j < NC" "p \<in> set (gZ g j)" by auto
    obtain s q where s: "k < NC" "u = s + 4" "q \<in> pages_of g k" "s \<in> slots q (csize k)" "s \<notin> set (g_free g q)" "page_frame q"
      using live_slot [OF inv u] by metis
    have "p \<noteq> q"
    proof
      assume pq: "p = q"
      then have "j = k" using I(3) [OF j(1) s(1)] j(2) sub [of j] s(3) by blast
      then have Z: "q \<in> set (gZ g k)" using j(2) pq by simp
      note ok = I(2) [OF s(1), unfolded cache_at_def]
      have "slab_ok (csize k) (ss_hdr (sw_state w) q) (ss_mem (sw_state w)) q (g_free g q)"
        using cache_ok_page(2) [OF ok] Z by simp
      from slab_has_free [OF class_size_nth [OF s(1)] this s(4,5)] show False using cache_okD(11) [OF ok] Z by simp
    qed
    moreover have "page_frame p" using cache_at_page [OF I(2) [OF j(1)]] j(2) sub by blast
    ultimately have "p + PAGE_SIZE \<le> q \<or> q + PAGE_SIZE \<le> p" using page_apart s(6) by (simp add: page_frame_def)
    then show "extent k u \<inter> {p ..< p + PAGE_SIZE} = {}"
      using slot_in_page [OF class_size_nth [OF s(1)] s(4)] s(2) by (auto simp: extent_def CANARY_SIZE_def)
  qed
qed

subsection \<open>A small run\<close>

definition demo_slab :: "unit slab_world" where
  "demo_slab = \<lparr>sw_caches = slab_caches,
     sw_state = \<lparr>ss_hdr = \<lambda>_. \<lparr>sh_next = 0, sh_prev = 0, sh_free_head = 0, sh_in_use = 0, sh_capacity = 0, sh_class_idx = 0\<rparr>,
                 ss_mem = \<lambda>_. 0, ss_pmm = demo_pmm\<rparr>, sw_heap = ()\<rparr>"

definition no_heap :: "nat \<Rightarrow> unit \<Rightarrow> nat \<times> unit" where
  "no_heap n h = (0, h)"

lemma demo_classes: "size_class 24 = Some 2" "size_class 100 = Some 4"
  by (simp_all add: size_class_def SIZE_CLASSES_def saturating_add_def usize_max_def CANARY_SIZE_def upt_rec)

lemma fresh_alloc:
  assumes "size_class sz = Some k" "c_partial (sw_caches w ! k) = 0" "c_empty (sw_caches w ! k) = 0"
    and "alloc_page E (ss_pmm (sw_state w)) = (Some pa, p')"
  shows "\<exists>u w'. slab_alloc ha E sz w = (Some u, w') \<and> ss_pmm (sw_state w') = p' \<and>
    (\<forall>j. j \<noteq> k \<longrightarrow> sw_caches w' ! j = sw_caches w ! j)"
  using assms
  by (auto simp: slab_alloc_def cache_alloc_def cache_ready_def cache_grow_def cache_take_def on_cache_def Let_def split: prod.split)

lemma demo_slab_start: "slab_start demo_platform demo_slab"
proof -
  have "pi_len demo_pmm \<le> MAX_FRAMES" by (simp add: demo_lists MAX_FRAMES_def MAX_PA_def PAGE_SIZE_def)
  then show ?thesis
    using demo_pmm_ok by (auto simp: slab_start_def demo_slab_def pmm_frames_def demo_platform_def POOL_PAGES_def PAGE_SIZE_def)
qed

lemma demo_slab_one:
  "\<exists>u w. slab_reach demo_platform demo_slab w ((\<lambda>_. {})(2 := {u})) {} \<and> alloc_page demo_platform (ss_pmm (sw_state w)) =
     (Some 0x2000, snd (alloc_page demo_platform (ss_pmm (sw_state w)))) \<and> sw_caches w ! 4 = cache_new 128"
proof -
  obtain p1 where p1: "alloc_page demo_platform demo_pmm = (Some 0x3000, p1)" using demo_alloc(1) by (metis prod.collapse)
  have c: "sw_caches demo_slab ! 2 = cache_new 32" "sw_caches demo_slab ! 4 = cache_new 128"
    by (simp_all add: demo_slab_def slab_caches_def SIZE_CLASSES_def)
  obtain u w where w: "slab_alloc no_heap demo_platform 24 demo_slab = (Some u, w)" "ss_pmm (sw_state w) = p1"
    "sw_caches w ! 4 = cache_new 128"
    using fresh_alloc [OF demo_classes(1), of demo_slab demo_platform "0x3000" p1 no_heap] p1 c
    by (auto simp: cache_new_def demo_slab_def)
  have "slab_reach demo_platform demo_slab w ((\<lambda>_. {})(2 := insert u {})) {}"
    by (rule slab_allocate [OF slab_begin demo_classes(1) w(1)])
  moreover have "fst (alloc_page demo_platform p1) = Some 0x2000" using demo_alloc(2) p1 by simp
  ultimately show ?thesis using w by (metis prod.collapse)
qed

subsection \<open>Properties\<close>



text \<open>
  C31. A held object can be released, and only once. In every reachable state the release of a held
  object does not panic, whatever its holder wrote to the payload; a second release of it right
  after the first panics, because the canary has become a link of the free list.
\<close>

theorem slab_free_once:
  assumes "slab_start E w0" "slab_reach E w0 w L H" "size_class sz = Some k" "u \<in> L k"
  shows "\<exists>w'. slab_free hf u sz w = Some w' \<and> slab_free hf u sz w' = None"
proof -
  obtain g where g: "slab_inv E w g H" "live_ptrs g = L" using reach_inv [OF assms(2,1)] by blast
  have u: "u \<in> live_ptrs g k" using g(2) assms(4) by simp
  obtain w' where f: "slab_free hf u sz w = Some w'" using free_inv [OF g(1) assms(3) u] by blast
  then show ?thesis using free_again [OF g(1) assms(3) u f] by blast
qed

theorem slab_free_once_witness:
  "\<exists>w u w'. slab_reach demo_platform demo_slab w ((\<lambda>_. {})(2 := {u})) {} \<and>
     slab_free (\<lambda>_ _ h. h) u 24 w = Some w' \<and> slab_free (\<lambda>_ _ h. h) u 24 w' = None"
proof -
  obtain u w where w: "slab_reach demo_platform demo_slab w ((\<lambda>_. {})(2 := {u})) {}" using demo_slab_one by blast
  show ?thesis using slab_free_once [OF demo_slab_start w demo_classes(1), of u "\<lambda>_ _ h. h"] w by auto
qed

text \<open>
  The statistics are exact. In every reachable state the walks over the lists of slabs end, and
  the number of active objects that \<open>slab_stats\<close> reports is the number of objects that are held.
\<close>

theorem slab_stats_exact:
  assumes "slab_start E w0" "slab_reach E w0 w L H"
  shows "\<exists>st. slab_stats w = Some st \<and> sl_active_objs st = (\<Sum>k < length SIZE_CLASSES. card (L k))"
proof -
  obtain g where g: "slab_inv E w g H" "live_ptrs g = L" using reach_inv [OF assms(2,1)] by blast
  note I = slab_invD [OF g(1)]
  have "\<exists>x. cache_stats (sw_caches w ! k) (ss_hdr (sw_state w)) = Some x \<and> st_active_objs x = card (L k) \<and>
      st_total_slabs x = card (pages_of g k)" if "k < length (sw_caches w)" for k
  proof -
    have k: "k < NC" using that I(1) by simp
    have "card (L k) = card (objs (csize k) (pages_of g k) (g_free g))"
      unfolding g(2) [symmetric] using k by (simp add: live_ptrs_def card_image)
    then show ?thesis using cache_stats_ok [OF I(2) [OF k, unfolded cache_at_def]] by (simp add: pages_of_def)
  qed
  from stats_from_ok [OF this] show ?thesis unfolding slab_stats_def I(1) by fastforce
qed

theorem slab_stats_exact_witness:
  "\<exists>w u st. slab_reach demo_platform demo_slab w ((\<lambda>_. {})(2 := {u})) {} \<and> slab_stats w = Some st \<and> sl_active_objs st = 1"
proof -
  obtain u w where w: "slab_reach demo_platform demo_slab w ((\<lambda>_. {})(2 := {u})) {}" using demo_slab_one by blast
  have "(\<Sum>k < length SIZE_CLASSES. card (((\<lambda>_. {})(2 := {u})) k)) = 1"
    by (simp add: SIZE_CLASSES_def lessThan_nat_numeral)
  then show ?thesis using slab_stats_exact [OF demo_slab_start w] w by auto
qed

text \<open>
  C32. Shrinking ends. In every reachable state the walks of \<open>slab_shrink\<close> over the empty slabs end:
  the call releases a list of distinct pages, one after the other, none of which holds an
  object, so it fails to return only if a release of one of these pages panics.
\<close>

theorem slab_shrink_ends:
  assumes "slab_start E w0" "slab_reach E w0 w L H"
  shows "\<exists>zs. distinct zs \<and> (\<forall>p \<in> set zs. \<forall>k. \<forall>u \<in> L k. extent k u \<inter> {p ..< p + PAGE_SIZE} = {}) \<and>
    map_option (\<lambda>w'. ss_pmm (sw_state w')) (slab_shrink E w) = release_all E zs (ss_pmm (sw_state w))"
proof -
  obtain g where g: "slab_inv E w g H" "live_ptrs g = L" using reach_inv [OF assms(2,1)] by blast
  let ?zs = "concat (map (gZ g) [0..<NC])"
  have "map_option (\<lambda>w'. ss_pmm (sw_state w')) (slab_shrink E w) = release_all E ?zs (ss_pmm (sw_state w))"
    unfolding slab_shrink_def
    by (rule shrink_from_walk) (use slab_invD(1,2) [OF g(1)] in \<open>auto simp: cache_at_def cache_ok_def\<close>)
  then show ?thesis using inv_empty_slabs [OF g(1)] g(2) by blast
qed

theorem slab_shrink_ends_witness:
  "\<exists>w u zs. slab_reach demo_platform demo_slab w ((\<lambda>_. {})(2 := {u})) {} \<and>
     map_option (\<lambda>w'. ss_pmm (sw_state w')) (slab_shrink demo_platform w) = release_all demo_platform zs (ss_pmm (sw_state w))"
proof -
  obtain u w where w: "slab_reach demo_platform demo_slab w ((\<lambda>_. {})(2 := {u})) {}" using demo_slab_one by blast
  show ?thesis using slab_shrink_ends [OF demo_slab_start w] w by blast
qed

end
