(* ===== verification/Paging.thy ===== *)
theory Paging
  imports Pmm_Safety
begin

unbundle bit_operations_syntax

section \<open>Page tables\<close>

text \<open>
  \<^verbatim>\<open>src/arch/x86_64/paging.rs\<close> and the paging part of \<^verbatim>\<open>src/arch/x86_64/hal.rs\<close>: four levels of
  tables of 512 entries in physical memory, walked, extended, written and cloned. Physical
  memory is read and written by whole entries, so it is a function from the byte address of an
  entry to its 64 bits. The pages of new tables come from the physical memory manager; \<open>None\<close> of
  a panicky result is the panic of \<open>alloc_table\<close> when there is none. Translation buffers are not
  part of the state, and the instruction that invalidates one is left out.
\<close>

subsection \<open>Entries\<close>

definition PTE_PRESENT :: u64 where "PTE_PRESENT = 1"
definition PTE_WRITABLE :: u64 where "PTE_WRITABLE = 2"
definition PTE_USER :: u64 where "PTE_USER = 4"
definition PTE_COW :: u64 where "PTE_COW = 0x200"
definition PTE_NX :: u64 where "PTE_NX = 0x8000000000000000"
definition PTE_ADDR_MASK :: u64 where "PTE_ADDR_MASK = 0x000FFFFFFFFFF000"
definition TABLE_ENTRIES :: nat where "TABLE_ENTRIES = 512"

definition pte_addr_of :: "u64 \<Rightarrow> nat" where
  "pte_addr_of e = unat (e AND PTE_ADDR_MASK)"

definition table_entry :: "nat \<Rightarrow> u64" where
  "table_entry t = of_nat t OR PTE_PRESENT OR PTE_WRITABLE OR PTE_USER"

record vm_state =
  vm_mem :: "nat \<Rightarrow> u64"
  vm_pmm :: pmm
  vm_cr3 :: nat
  vm_kernel_cr3 :: nat

definition poke :: "nat \<Rightarrow> u64 \<Rightarrow> vm_state \<Rightarrow> vm_state" where
  "poke p e s = s\<lparr>vm_mem := (vm_mem s)(p := e)\<rparr>"

definition zero_frame :: "nat \<Rightarrow> (nat \<Rightarrow> u64) \<Rightarrow> nat \<Rightarrow> u64" where
  "zero_frame pa m = (\<lambda>a. if pa \<le> a \<and> a < pa + PAGE_SIZE then 0 else m a)"

subsection \<open>Control register\<close>

definition current_cr3 :: "vm_state \<Rightarrow> nat" where
  "current_cr3 s = vm_cr3 s AND usize_not (PAGE_SIZE - 1)"

definition load_cr3 :: "nat \<Rightarrow> vm_state \<Rightarrow> vm_state" where
  "load_cr3 cr3 s = s\<lparr>vm_cr3 := cr3\<rparr>"

definition kernel_cr3 :: "vm_state \<Rightarrow> nat \<times> vm_state" where
  "kernel_cr3 s =
     (if vm_kernel_cr3 s \<noteq> 0 then (vm_kernel_cr3 s, s)
      else (current_cr3 s, s\<lparr>vm_kernel_cr3 := current_cr3 s\<rparr>))"

subsection \<open>Walks\<close>

definition alloc_table :: "platform \<Rightarrow> vm_state \<Rightarrow> (nat \<times> vm_state) panicky" where
  "alloc_table E s =
     (case alloc_page E (vm_pmm s) of
        (None, _) \<Rightarrow> None
      | (Some pa, p') \<Rightarrow> Some (pa, s\<lparr>vm_mem := zero_frame pa (vm_mem s), vm_pmm := p'\<rparr>))"

definition pte_ptr :: "nat \<Rightarrow> nat \<Rightarrow> nat" where
  "pte_ptr table_pa idx = wadd table_pa (idx * 8)"

definition pml4_idx :: "nat \<Rightarrow> nat" where "pml4_idx va = drop_bit 39 va AND 0x1FF"
definition pdpt_idx :: "nat \<Rightarrow> nat" where "pdpt_idx va = drop_bit 30 va AND 0x1FF"
definition pd_idx :: "nat \<Rightarrow> nat" where "pd_idx va = drop_bit 21 va AND 0x1FF"
definition pt_idx :: "nat \<Rightarrow> nat" where "pt_idx va = drop_bit 12 va AND 0x1FF"

text \<open>One level of \<open>walk_mut\<close>: the table under the entry at \<open>p\<close>, created when it is missing.\<close>

definition walk_level :: "platform \<Rightarrow> nat \<Rightarrow> vm_state \<Rightarrow> (nat \<times> vm_state) panicky" where
  "walk_level E p s = do {
     s' \<leftarrow> (if vm_mem s p AND PTE_PRESENT = 0
            then do { (t, s1) \<leftarrow> alloc_table E s; Some (poke p (table_entry t) s1) }
            else Some s);
     Some (pte_addr_of (vm_mem s' p), s') }"

definition walk_mut :: "platform \<Rightarrow> nat \<Rightarrow> nat \<Rightarrow> vm_state \<Rightarrow> (nat \<times> vm_state) panicky" where
  "walk_mut E cr3 va s = do {
     (pdpt, s1) \<leftarrow> walk_level E (pte_ptr cr3 (pml4_idx va)) s;
     (pd, s2) \<leftarrow> walk_level E (pte_ptr pdpt (pdpt_idx va)) s1;
     (pt, s3) \<leftarrow> walk_level E (pte_ptr pd (pd_idx va)) s2;
     Some (pte_ptr pt (pt_idx va), s3) }"

definition walk_ro :: "(nat \<Rightarrow> u64) \<Rightarrow> nat \<Rightarrow> nat \<Rightarrow> nat option" where
  "walk_ro m cr3 va =
     (let pml4e = m (pte_ptr cr3 (pml4_idx va)) in
      if pml4e AND PTE_PRESENT = 0 then None
      else let pdpte = m (pte_ptr (pte_addr_of pml4e) (pdpt_idx va)) in
      if pdpte AND PTE_PRESENT = 0 then None
      else let pde = m (pte_ptr (pte_addr_of pdpte) (pd_idx va)) in
      if pde AND PTE_PRESENT = 0 then None
      else Some (pte_ptr (pte_addr_of pde) (pt_idx va)))"

subsection \<open>Mapping\<close>

definition map_page :: "platform \<Rightarrow> nat \<Rightarrow> nat \<Rightarrow> nat \<Rightarrow> u64 \<Rightarrow> vm_state \<Rightarrow> vm_state panicky" where
  "map_page E cr3 va pa fl s = do {
     (pte, s') \<leftarrow> walk_mut E cr3 va s;
     Some (poke pte ((of_nat pa AND PTE_ADDR_MASK) OR (fl AND NOT PTE_ADDR_MASK) OR PTE_PRESENT) s') }"

definition unmap_page :: "nat \<Rightarrow> vm_state \<Rightarrow> nat option \<times> vm_state" where
  "unmap_page va s =
     (case walk_ro (vm_mem s) (current_cr3 s) va of
        None \<Rightarrow> (None, s)
      | Some pte \<Rightarrow>
          if vm_mem s pte AND PTE_PRESENT = 0 then (None, s)
          else (Some (pte_addr_of (vm_mem s pte)), poke pte 0 s))"

definition virt_to_phys :: "(nat \<Rightarrow> u64) \<Rightarrow> nat \<Rightarrow> nat \<Rightarrow> nat option" where
  "virt_to_phys m cr3 va =
     (case walk_ro m cr3 va of
        None \<Rightarrow> None
      | Some pte \<Rightarrow> if m pte AND PTE_PRESENT = 0 then None else Some (pte_addr_of (m pte)))"

subsection \<open>The architecture interface\<close>

definition PF_PRESENT :: u32 where "PF_PRESENT = 1"
definition PF_WRITE :: u32 where "PF_WRITE = 2"
definition PF_USER :: u32 where "PF_USER = 4"
definition PF_NX :: u32 where "PF_NX = 8"
definition PF_COW :: u32 where "PF_COW = 16"

definition pf_contains :: "u32 \<Rightarrow> u32 \<Rightarrow> bool" where
  "pf_contains fl other \<longleftrightarrow> fl AND other = other"

definition hal_pte_flags :: "u32 \<Rightarrow> u64" where
  "hal_pte_flags fl =
     PTE_PRESENT OR (if pf_contains fl PF_WRITE then PTE_WRITABLE else 0)
       OR (if pf_contains fl PF_USER then PTE_USER else 0)
       OR (if pf_contains fl PF_NX then PTE_NX else 0)
       OR (if pf_contains fl PF_COW then PTE_COW else 0)"

definition hal_map_page :: "platform \<Rightarrow> nat \<Rightarrow> nat \<Rightarrow> nat \<Rightarrow> u32 \<Rightarrow> vm_state \<Rightarrow> (bool \<times> vm_state) panicky" where
  "hal_map_page E cr3 va pa fl s = do { s' \<leftarrow> map_page E cr3 va pa (hal_pte_flags fl) s; Some (True, s') }"

definition hal_unmap_page :: "nat \<Rightarrow> nat \<Rightarrow> vm_state \<Rightarrow> nat option \<times> vm_state" where
  "hal_unmap_page cr3 va s =
     (let cur = current_cr3 s;
          (r, s1) = unmap_page va (if cur \<noteq> cr3 then load_cr3 cr3 s else s)
      in (r, if cur \<noteq> cr3 then load_cr3 cur s1 else s1))"

definition new_user_address_space :: "platform \<Rightarrow> vm_state \<Rightarrow> nat option \<times> vm_state" where
  "new_user_address_space E s =
     (case alloc_page E (vm_pmm s) of
        (None, p') \<Rightarrow> (None, s\<lparr>vm_pmm := p'\<rparr>)
      | (Some cr3, p') \<Rightarrow>
          let s1 = s\<lparr>vm_mem := zero_frame cr3 (vm_mem s), vm_pmm := p'\<rparr>;
              (kc3, s2) = kernel_cr3 s1;
              m = vm_mem s2
          in (Some cr3, s2\<lparr>vm_mem := (\<lambda>a. if cr3 + 256 * 8 \<le> a \<and> a < cr3 + 512 * 8
                                           then m (kc3 + 256 * 8 + (a - (cr3 + 256 * 8))) else m a)\<rparr>))"

end
