(* ===== verification/Paging_Inv.thy ===== *)
theory Paging_Inv
  imports Paging
begin

unbundle bit_operations_syntax

section \<open>Page tables as trees\<close>

text \<open>
  The tables under a root form a tree: the tables below different entries are disjoint. The walk
  by levels \<open>gwalk\<close> is the walk of the code, and the lemmas on it go by induction on the level. A
  subtree that changes within its own tables and new pages leaves the rest of the tree alone
  (\<open>subtree_change\<close>); the writes of the leaf, of a missing table and of the clone are instances.
\<close>

subsection \<open>Entries and indices\<close>

definition present :: "u64 \<Rightarrow> bool" where "present e \<longleftrightarrow> e AND PTE_PRESENT \<noteq> 0"

definition table_frame :: "nat \<Rightarrow> bool" where "table_frame t \<longleftrightarrow> PAGE_SIZE dvd t \<and> t < 2 ^ 52"

definition lidx :: "nat \<Rightarrow> nat \<Rightarrow> nat" where "lidx l va = va div 2 ^ (12 + 9 * l) mod 512"

definition vpn :: "nat \<Rightarrow> nat" where "vpn va = va div 4096 mod 2 ^ 36"

lemma lidx_less [simp]: "lidx l va < 512"
  by (simp add: lidx_def)

lemma idx_levels:
  "pml4_idx va = lidx 3 va" "pdpt_idx va = lidx 2 va" "pd_idx va = lidx 1 va" "pt_idx va = lidx 0 va"
proof -
  have "drop_bit n va AND 0x1FF = va div 2 ^ n mod 512" for n
    using take_bit_eq_mask [of 9 "drop_bit n va"] by (simp add: take_bit_eq_mod drop_bit_eq_div mask_eq_exp_minus_1)
  then show "pml4_idx va = lidx 3 va" "pdpt_idx va = lidx 2 va" "pd_idx va = lidx 1 va" "pt_idx va = lidx 0 va"
    by (simp_all add: pml4_idx_def pdpt_idx_def pd_idx_def pt_idx_def lidx_def)
qed

lemma vpn_digits: "vpn va = lidx 0 va + 512 * (lidx 1 va + 512 * (lidx 2 va + 512 * lidx 3 va))"
proof -
  let ?n = "va div 4096"
  have d: "lidx 0 va = ?n mod 512" "lidx 1 va = ?n div 512 mod 512" "lidx 2 va = ?n div 512 div 512 mod 512"
    "lidx 3 va = ?n div 512 div 512 div 512 mod 512"
    by (simp_all add: lidx_def div_mult2_eq [symmetric])
  have p: "(2 :: nat) ^ 36 = 512 * (512 * (512 * 512))" by simp
  show ?thesis unfolding vpn_def d p mod_mult2_eq by (simp only: add.commute)
qed

lemma vpn_eq_iff: "vpn va = vpn va' \<longleftrightarrow> (\<forall>k \<le> 3. lidx k va = lidx k va')"
proof
  assume v: "vpn va = vpn va'"
  have digit: "a = b \<and> x = y" if "a + 512 * x = b + 512 * y" "a < 512" "b < 512" for a b x y :: nat
  proof -
    have "(a + 512 * x) mod 512 = a" "(b + 512 * y) mod 512 = b" using that(2,3) by simp_all
    then have "a = b" using that(1) by metis
    then show ?thesis using that(1) by simp
  qed
  note d = digit [OF _ lidx_less lidx_less]
  note d0 = d [OF v [unfolded vpn_digits]]
  note d1 = d [OF d0 [THEN conjunct2]]
  note d2 = d [OF d1 [THEN conjunct2]]
  have "lidx 0 va = lidx 0 va'" "lidx 1 va = lidx 1 va'" "lidx 2 va = lidx 2 va'" "lidx 3 va = lidx 3 va'"
    using d0 d1 d2 by blast+
  moreover have "k = 0 \<or> k = 1 \<or> k = 2 \<or> k = 3" if "k \<le> 3" for k :: nat using that by auto
  ultimately show "\<forall>k \<le> 3. lidx k va = lidx k va'" by metis
qed (simp add: vpn_digits)

lemma pte_addr_frame [simp]: "table_frame (pte_addr_of e)"
proof -
  have "take_bit 12 (e AND PTE_ADDR_MASK) = (0 :: u64)"
    by (simp add: take_bit_and PTE_ADDR_MASK_def)
  then have "take_bit 12 (pte_addr_of e) = 0"
    unfolding pte_addr_of_def by (metis unsigned_0 unsigned_take_bit_eq)
  then have "PAGE_SIZE dvd pte_addr_of e" by (simp add: take_bit_eq_0_iff PAGE_SIZE_def)
  moreover have "e AND PTE_ADDR_MASK \<le> PTE_ADDR_MASK" by (rule word_and_le1)
  then have "pte_addr_of e \<le> unat PTE_ADDR_MASK" by (simp add: pte_addr_of_def word_le_nat_alt)
  ultimately show ?thesis by (simp add: table_frame_def PTE_ADDR_MASK_def)
qed

lemma frame_word:
  assumes "table_frame t"
  shows "(of_nat t :: u64) AND PTE_ADDR_MASK = of_nat t"
proof (rule bit_word_eqI)
  fix n assume "n < LENGTH(64)"
  then have n: "n < 64" by simp
  have m: "PTE_ADDR_MASK = mask 52 AND NOT (mask 12)"
    by (simp add: PTE_ADDR_MASK_def mask_eq_exp_minus_1)
  have "take_bit 12 t = 0" "take_bit 52 t = t"
    using assms by (simp_all add: table_frame_def PAGE_SIZE_def take_bit_eq_0_iff take_bit_nat_eq_self)
  then have "bit t n \<longrightarrow> \<not> n < 12 \<and> n < 52"
    using bit_take_bit_iff [of 12 t n] bit_take_bit_iff [of 52 t n] by auto
  then show "bit ((of_nat t :: u64) AND PTE_ADDR_MASK) n = bit (of_nat t :: u64) n"
    using n by (auto simp: m bit_and_iff bit_not_iff bit_mask_iff bit_of_nat_iff)
qed

lemma present_bit: "present e \<longleftrightarrow> bit e 0"
  by (simp add: present_def PTE_PRESENT_def and_one_eq bit_0 odd_iff_mod_2_eq_one)

lemma table_entry_simps [simp]:
  assumes "table_frame t"
  shows "present (table_entry t)" "pte_addr_of (table_entry t) = t"
proof -
  show "present (table_entry t)"
    unfolding present_bit table_entry_def bit_or_iff by (simp add: PTE_PRESENT_def)
  have "table_entry t AND PTE_ADDR_MASK = of_nat t"
    using frame_word [OF assms]
    by (simp add: table_entry_def bit.conj_disj_distrib2 PTE_PRESENT_def PTE_WRITABLE_def PTE_USER_def PTE_ADDR_MASK_def)
  then show "pte_addr_of (table_entry t) = t"
    using assms by (simp add: pte_addr_of_def table_frame_def unat_of_nat take_bit_nat_eq_self)
qed

lemma pte_ptr_frame: "table_frame t \<Longrightarrow> i < 512 \<Longrightarrow> pte_ptr t i = t + 8 * i"
  by (simp add: pte_ptr_def table_frame_def wadd_eq)

lemma not_present_0 [simp]: "\<not> present 0"
  by (simp add: present_def)

subsection \<open>The tree under a table\<close>

type_synonym pmem = "nat \<Rightarrow> u64"

abbreviation entry :: "pmem \<Rightarrow> nat \<Rightarrow> nat \<Rightarrow> u64" where "entry m t i \<equiv> m (t + 8 * i)"

abbreviation below :: "pmem \<Rightarrow> nat \<Rightarrow> nat \<Rightarrow> nat" where "below m t i \<equiv> pte_addr_of (entry m t i)"

fun tables :: "nat \<Rightarrow> pmem \<Rightarrow> nat \<Rightarrow> nat set" where
  "tables 0 m t = {t}"
| "tables (Suc l) m t = insert t (\<Union>i \<in> {i. i < 512 \<and> present (entry m t i)}. tables l m (below m t i))"

fun ptree :: "nat \<Rightarrow> pmem \<Rightarrow> nat \<Rightarrow> bool" where
  "ptree 0 m t \<longleftrightarrow> table_frame t"
| "ptree (Suc l) m t \<longleftrightarrow> table_frame t \<and>
     (\<forall>i < 512. present (entry m t i) \<longrightarrow> ptree l m (below m t i) \<and> t \<notin> tables l m (below m t i)) \<and>
     (\<forall>i < 512. \<forall>j < 512. i \<noteq> j \<longrightarrow> present (entry m t i) \<longrightarrow> present (entry m t j) \<longrightarrow>
        tables l m (below m t i) \<inter> tables l m (below m t j) = {})"

fun gwalk :: "nat \<Rightarrow> pmem \<Rightarrow> nat \<Rightarrow> nat \<Rightarrow> nat option" where
  "gwalk 0 m t va = Some (t + 8 * lidx 0 va)"
| "gwalk (Suc l) m t va =
     (if present (entry m t (lidx (Suc l) va)) then gwalk l m (below m t (lidx (Suc l) va)) va else None)"

definition leaf :: "nat \<Rightarrow> pmem \<Rightarrow> nat \<Rightarrow> nat \<Rightarrow> u64 option" where
  "leaf l m t va = (case gwalk l m t va of None \<Rightarrow> None | Some p \<Rightarrow> if present (m p) then Some (m p) else None)"

definition cells :: "nat set \<Rightarrow> nat set" where "cells S = (\<Union>t \<in> S. {t..<t + PAGE_SIZE})"

definition same_on :: "nat set \<Rightarrow> pmem \<Rightarrow> pmem \<Rightarrow> bool" where
  "same_on S m m' \<longleftrightarrow> (\<forall>a \<in> cells S. m' a = m a)"

definition same_off :: "nat set \<Rightarrow> pmem \<Rightarrow> pmem \<Rightarrow> bool" where
  "same_off S m m' \<longleftrightarrow> (\<forall>a. a \<notin> cells S \<longrightarrow> m' a = m a)"

lemma tables_root [simp]: "t \<in> tables l m t"
  by (cases l) auto

lemma ptree_root [dest]: "ptree l m t \<Longrightarrow> table_frame t"
  by (cases l) auto

lemma tables_frames: "ptree l m t \<Longrightarrow> x \<in> tables l m t \<Longrightarrow> table_frame x"
  by (induction l arbitrary: t) auto

lemma same_frame:
  assumes "table_frame x" "table_frame y" "x \<le> a" "a < x + PAGE_SIZE" "y \<le> a" "a < y + PAGE_SIZE"
  shows "x = y"
proof -
  obtain j k where "x = PAGE_SIZE * j" "y = PAGE_SIZE * k" using assms(1,2) unfolding table_frame_def by (elim conjE dvdE)
  then show ?thesis using assms(3-) by (auto simp: PAGE_SIZE_def)
qed

lemma cells_frame_iff:
  assumes "table_frame x" "i < 512" "\<forall>y \<in> S. table_frame y"
  shows "x + 8 * i \<in> cells S \<longleftrightarrow> x \<in> S"
proof
  assume "x + 8 * i \<in> cells S"
  then obtain y where y: "y \<in> S" "y \<le> x + 8 * i" "x + 8 * i < y + PAGE_SIZE" by (auto simp: cells_def)
  have "x = y" by (rule same_frame [of x y "x + 8 * i"]) (use assms y in \<open>auto simp: PAGE_SIZE_def\<close>)
  then show "x \<in> S" using y(1) by simp
qed (use assms(2) in \<open>auto simp: cells_def PAGE_SIZE_def intro!: bexI [of _ x]\<close>)

lemma same_off_on:
  assumes "same_off S m m'" "S \<inter> T = {}" "\<forall>y \<in> S. table_frame y" "\<forall>y \<in> T. table_frame y"
  shows "same_on T m m'"
  unfolding same_on_def
proof
  fix a assume "a \<in> cells T"
  then obtain y where y: "y \<in> T" "y \<le> a" "a < y + PAGE_SIZE" by (auto simp: cells_def)
  have "a \<notin> cells S"
  proof
    assume "a \<in> cells S"
    then obtain x where x: "x \<in> S" "x \<le> a" "a < x + PAGE_SIZE" by (auto simp: cells_def)
    have "x = y" by (rule same_frame [of x y a]) (use assms x y in auto)
    then show False using x(1) y(1) assms(2) by auto
  qed
  then show "m' a = m a" using assms(1) by (simp add: same_off_def)
qed

lemma same_on_mono: "same_on S m m' \<Longrightarrow> T \<subseteq> S \<Longrightarrow> same_on T m m'"
  by (auto simp: same_on_def cells_def)

lemma same_off_mono: "same_off S m m' \<Longrightarrow> S \<subseteq> T \<Longrightarrow> same_off T m m'"
  by (auto simp: same_off_def cells_def)

lemma same_off_trans: "same_off S m m' \<Longrightarrow> same_off S m' m'' \<Longrightarrow> same_off S m m''"
  by (auto simp: same_off_def)

lemma same_on_trans: "same_on S m m' \<Longrightarrow> same_on S m' m'' \<Longrightarrow> same_on S m m''"
  by (auto simp: same_on_def)

lemma same_on_entry: "same_on S m m' \<Longrightarrow> t \<in> S \<Longrightarrow> i < 512 \<Longrightarrow> entry m' t i = entry m t i"
  unfolding same_on_def cells_def by (auto simp: PAGE_SIZE_def)

lemma tree_cong:
  assumes "same_on (tables l m t) m m'"
  shows "tables l m' t = tables l m t" "ptree l m' t = ptree l m t" "gwalk l m' t va = gwalk l m t va"
proof -
  have "tables l m' t = tables l m t \<and> ptree l m' t = ptree l m t \<and> gwalk l m' t va = gwalk l m t va"
    using assms
  proof (induction l arbitrary: t)
    case (Suc l)
    have e: "entry m' t i = entry m t i" if "i < 512" for i
      using same_on_entry [OF Suc.prems _ that] by simp
    have IH: "tables l m' (below m t i) = tables l m (below m t i) \<and> ptree l m' (below m t i) = ptree l m (below m t i) \<and>
        gwalk l m' (below m t i) va = gwalk l m (below m t i) va"
      if "i < 512" "present (entry m t i)" for i
      using that by (intro Suc.IH same_on_mono [OF Suc.prems]) auto
    have "tables (Suc l) m' t = tables (Suc l) m t" using e IH by auto
    moreover have "ptree (Suc l) m' t = ptree (Suc l) m t" using e IH by auto
    moreover have "gwalk (Suc l) m' t va = gwalk (Suc l) m t va" using e IH by simp
    ultimately show ?case by blast
  qed simp
  then show "tables l m' t = tables l m t" "ptree l m' t = ptree l m t" "gwalk l m' t va = gwalk l m t va" by auto
qed

lemma gwalk_in:
  "ptree l m t \<Longrightarrow> gwalk l m t va = Some p \<Longrightarrow> \<exists>x \<in> tables l m t. p = x + 8 * lidx 0 va"
proof (induction l arbitrary: t)
  case (Suc l)
  let ?i = "lidx (Suc l) va"
  have pr: "present (entry m t ?i)" "gwalk l m (below m t ?i) va = Some p"
    using Suc.prems(2) by (auto split: if_splits)
  have "ptree l m (below m t ?i)" using Suc.prems(1) pr(1) by simp
  from Suc.IH [OF this pr(2)] pr(1) show ?case by auto
qed simp

lemma leaf_cong:
  assumes "ptree l m t" "same_on (tables l m t) m m'"
  shows "leaf l m' t va = leaf l m t va"
proof (cases "gwalk l m t va")
  case (Some p)
  then obtain x where x: "x \<in> tables l m t" "p = x + 8 * lidx 0 va" using gwalk_in [OF assms(1)] by blast
  have "m' p = m p" using same_on_entry [OF assms(2) x(1) lidx_less] x(2) by simp
  then show ?thesis using Some tree_cong(3) [OF assms(2)] by (simp add: leaf_def)
qed (use tree_cong(3) [OF assms(2)] in \<open>simp add: leaf_def\<close>)

subsection \<open>Changes below one entry\<close>

text \<open>The tables below the entries of \<open>t\<close> other than \<open>i\<close>.\<close>

definition others :: "nat \<Rightarrow> pmem \<Rightarrow> nat \<Rightarrow> nat \<Rightarrow> nat set" where
  "others l m t i = (\<Union>j \<in> {j. j < 512 \<and> j \<noteq> i \<and> present (entry m t j)}. tables l m (below m t j))"

lemma tables_others:
  "i < 512 \<Longrightarrow> tables (Suc l) m t = insert t (others l m t i \<union> (if present (entry m t i) then tables l m (below m t i) else {}))"
  by (auto simp: others_def)

lemma below_subset: "i < 512 \<Longrightarrow> present (entry m t i) \<Longrightarrow> tables l m (below m t i) \<subseteq> tables (Suc l) m t"
  by auto

lemma others_disjoint:
  assumes "ptree (Suc l) m t" "i < 512"
  shows "t \<notin> others l m t i" "present (entry m t i) \<Longrightarrow> others l m t i \<inter> tables l m (below m t i) = {}"
    "present (entry m t i) \<Longrightarrow> t \<notin> tables l m (below m t i)"
    "\<forall>x \<in> others l m t i. table_frame x"
proof -
  show "t \<notin> others l m t i" using assms(1) by (auto simp: others_def)
  show "present (entry m t i) \<Longrightarrow> t \<notin> tables l m (below m t i)" using assms by simp
  show "others l m t i \<inter> tables l m (below m t i) = {}" if "present (entry m t i)"
    using assms that unfolding others_def by auto
  show "\<forall>x \<in> others l m t i. table_frame x"
    using tables_frames [OF assms(1)] unfolding tables_others [OF assms(2)] by blast
qed

lemma subtree_change:
  assumes T: "ptree (Suc l) m t" and i: "i < 512"
    and W: "t \<notin> W" "W \<inter> others l m t i = {}" "\<forall>x \<in> W. table_frame x"
    and off: "\<forall>a. a \<notin> cells W \<longrightarrow> a \<noteq> t + 8 * i \<longrightarrow> m' a = m a"
    and sub: "present (entry m' t i)" "ptree l m' (below m' t i)" "tables l m' (below m' t i) \<subseteq> W"
  shows "ptree (Suc l) m' t" "others l m' t i = others l m t i"
    "tables (Suc l) m' t = insert t (others l m t i \<union> tables l m' (below m' t i))"
    "lidx (Suc l) va = i \<Longrightarrow> leaf (Suc l) m' t va = leaf l m' (below m' t i) va"
    "lidx (Suc l) va \<noteq> i \<Longrightarrow> leaf (Suc l) m' t va = leaf (Suc l) m t va"
proof -
  have fr: "table_frame t" using T by auto
  note od = others_disjoint [OF T i]
  have e: "entry m' t j = entry m t j" if "j < 512" "j \<noteq> i" for j
    using off [rule_format, of "t + 8 * j"] cells_frame_iff [OF fr that(1) W(3)] W(1) that(2) by simp
  have on: "same_on (others l m t i) m m'"
    unfolding same_on_def
  proof
    fix a assume "a \<in> cells (others l m t i)"
    then obtain y where y: "y \<in> others l m t i" "y \<le> a" "a < y + PAGE_SIZE" by (auto simp: cells_def)
    have "a \<notin> cells W"
    proof
      assume "a \<in> cells W"
      then obtain x where x: "x \<in> W" "x \<le> a" "a < x + PAGE_SIZE" by (auto simp: cells_def)
      have "x = y" by (rule same_frame [of x y a]) (use W(3) od(4) x y in auto)
      then show False using W(2) x(1) y(1) by auto
    qed
    moreover have "a \<noteq> t + 8 * i"
    proof
      assume a: "a = t + 8 * i"
      have "t = y" by (rule same_frame [of t y a]) (use fr od(4) y a i in \<open>auto simp: PAGE_SIZE_def\<close>)
      then show False using od(1) y(1) by simp
    qed
    ultimately show "m' a = m a" using off by blast
  qed
  have sib: "same_on (tables l m (below m t j)) m m'" if "j < 512" "j \<noteq> i" "present (entry m t j)" for j
    using that by (intro same_on_mono [OF on]) (auto simp: others_def)
  show O: "others l m' t i = others l m t i"
    unfolding others_def using e tree_cong(1) [OF sib] by auto
  show Tb: "tables (Suc l) m' t = insert t (others l m t i \<union> tables l m' (below m' t i))"
    using tables_others [OF i, of l m' t] sub(1) O by simp
  have d: "others l m t i \<inter> tables l m' (below m' t i) = {}" "t \<notin> tables l m' (below m' t i)"
    using W(1,2) sub(3) by auto
  have "ptree l m' (below m' t j) \<and> t \<notin> tables l m' (below m' t j)" if "j < 512" "present (entry m' t j)" for j
    using that T sub(2) d(2) e tree_cong(1,2) [OF sib] by (cases "j = i") auto
  moreover have "tables l m' (below m' t j) \<inter> tables l m' (below m' t k) = {}"
    if "j < 512" "k < 512" "j \<noteq> k" "present (entry m' t j)" "present (entry m' t k)" for j k
  proof -
    have in_others: "tables l m' (below m' t n) \<subseteq> others l m t i" if "n < 512" "n \<noteq> i" "present (entry m' t n)" for n
      using that O unfolding others_def by auto
    consider "j = i" | "k = i" | "j \<noteq> i" "k \<noteq> i" by blast
    then show ?thesis
    proof cases
      case 3
      then show ?thesis using that T e tree_cong(1) [OF sib] by simp
    qed (use in_others that d(1) in blast)+
  qed
  ultimately show "ptree (Suc l) m' t" using fr by simp
  show "leaf (Suc l) m' t va = leaf l m' (below m' t i) va" if "lidx (Suc l) va = i"
    using sub(1) that by (simp add: leaf_def)
  show "leaf (Suc l) m' t va = leaf (Suc l) m t va" if ne: "lidx (Suc l) va \<noteq> i"
  proof (cases "present (entry m t (lidx (Suc l) va))")
    case True
    have "ptree l m (below m t (lidx (Suc l) va))" using T True by simp
    from leaf_cong [OF this sib [OF lidx_less ne True], of va] True show ?thesis
      using e [OF lidx_less ne] by (simp add: leaf_def)
  qed (use e [OF lidx_less ne] in \<open>simp add: leaf_def\<close>)
qed

text \<open>Writing the entry a walk ends at changes the mapping of that page and of no other.\<close>

lemma leaf_write:
  assumes "ptree l m t" "gwalk l m t va = Some p"
  shows "ptree l (m(p := v)) t \<and> tables l (m(p := v)) t = tables l m t \<and>
    (\<forall>va'. leaf l (m(p := v)) t va' =
       (if \<forall>k \<le> l. lidx k va' = lidx k va then (if present v then Some v else None) else leaf l m t va'))"
  using assms
proof (induction l arbitrary: t)
  case 0
  then show ?case by (auto simp: leaf_def)
next
  case (Suc l)
  let ?i = "lidx (Suc l) va"
  define m' where "m' = m(p := v)"
  let ?c = "below m t ?i"
  have pr: "present (entry m t ?i)" "gwalk l m ?c va = Some p" using Suc.prems(2) by (auto split: if_splits)
  have c: "ptree l m ?c" "t \<notin> tables l m ?c" using Suc.prems(1) pr(1) by auto
  obtain x where x: "x \<in> tables l m ?c" "p = x + 8 * lidx 0 va" using gwalk_in [OF c(1) pr(2)] by blast
  have fr: "\<forall>x \<in> tables l m ?c. table_frame x" using tables_frames [OF c(1)] by blast
  have pW: "p \<in> cells (tables l m ?c)" using x cells_frame_iff [OF _ lidx_less fr] fr by blast
  have "t + 8 * ?i \<notin> cells (tables l m ?c)"
    using cells_frame_iff [OF _ lidx_less fr] c(2) Suc.prems(1) by auto
  then have e: "m' (t + 8 * ?i) = entry m t ?i" using pW by (auto simp: m'_def)
  have off: "m' a = m a" if "a \<notin> cells (tables l m ?c)" for a using pW that by (auto simp: m'_def)
  note IH = Suc.IH [OF c(1) pr(2), folded m'_def]
  note ch = subtree_change [OF Suc.prems(1) lidx_less [of "Suc l" va], where W = "tables l m ?c" and m' = m']
  have a: "t \<notin> tables l m ?c" "tables l m ?c \<inter> others l m t ?i = {}"
    "\<forall>a. a \<notin> cells (tables l m ?c) \<longrightarrow> a \<noteq> t + 8 * ?i \<longrightarrow> m' a = m a"
    "present (m' (t + 8 * ?i))" "ptree l m' (pte_addr_of (m' (t + 8 * ?i)))"
    "tables l m' (pte_addr_of (m' (t + 8 * ?i))) \<subseteq> tables l m ?c"
    using c(2) others_disjoint(2) [OF Suc.prems(1) lidx_less pr(1)] off pr(1) IH unfolding e by auto
  note ch = ch [OF a(1,2) fr a(3-6)]
  have "tables (Suc l) m' t = tables (Suc l) m t"
    using ch(3) IH pr(1) unfolding e tables_others [OF lidx_less [of "Suc l" va]] by simp
  moreover have "leaf (Suc l) m' t va' =
      (if \<forall>k \<le> Suc l. lidx k va' = lidx k va then (if present v then Some v else None) else leaf (Suc l) m t va')" for va'
  proof (cases "lidx (Suc l) va' = ?i")
    case True
    have "leaf (Suc l) m t va' = leaf l m ?c va'" using pr(1) True by (simp add: leaf_def)
    then show ?thesis using ch(4) [OF True] IH True unfolding e by (auto simp: le_Suc_eq)
  qed (use ch(5) in auto)
  ultimately show ?case using ch(1) unfolding m'_def by blast
qed

subsection \<open>Extending the tree\<close>

definition vm_ok :: "platform \<Rightarrow> vm_state \<Rightarrow> nat set \<Rightarrow> bool" where
  "vm_ok E s F \<longleftrightarrow> pmm_frames E (vm_pmm s) F \<and> (\<forall>f \<in> F. table_frame f)"

lemma zero_table:
  assumes "table_frame t" "\<forall>i < 512. entry m t i = 0"
  shows "ptree l m t" "tables l m t = {t}" "leaf l m t va = None"
  using assms by (cases l; auto simp: leaf_def)+

lemma alloc_table_ok:
  assumes "alloc_table E s = Some (t, s')" "vm_ok E s F"
  shows "t \<in> F" "table_frame t" "vm_ok E s' (F - {t})" "vm_mem s' = zero_frame t (vm_mem s)"
    "vm_cr3 s' = vm_cr3 s" "vm_kernel_cr3 s' = vm_kernel_cr3 s" "same_off {t} (vm_mem s) (vm_mem s')"
    "\<forall>i < 512. entry (vm_mem s') t i = 0"
proof -
  obtain p' where p': "alloc_page E (vm_pmm s) = (Some t, p')"
      "s' = s\<lparr>vm_mem := zero_frame t (vm_mem s), vm_pmm := p'\<rparr>"
    using assms(1) by (auto simp: alloc_table_def split: prod.splits option.splits)
  show t: "t \<in> F" "vm_ok E s' (F - {t})"
    using pg.alloc_some [OF _ p'(1)] assms(2) p'(2) by (auto simp: vm_ok_def)
  then show "table_frame t" using assms(2) by (simp add: vm_ok_def)
  show "vm_mem s' = zero_frame t (vm_mem s)" "vm_cr3 s' = vm_cr3 s" "vm_kernel_cr3 s' = vm_kernel_cr3 s"
    using p'(2) by simp_all
  then show "same_off {t} (vm_mem s) (vm_mem s')" "\<forall>i < 512. entry (vm_mem s') t i = 0"
    by (auto simp: same_off_def cells_def zero_frame_def PAGE_SIZE_def)
qed

lemma poke_simps [simp]:
  "vm_mem (poke p e s) = (vm_mem s)(p := e)" "vm_pmm (poke p e s) = vm_pmm s" "vm_cr3 (poke p e s) = vm_cr3 s"
  "vm_kernel_cr3 (poke p e s) = vm_kernel_cr3 s" "vm_ok E (poke p e s) F = vm_ok E s F"
  by (simp_all add: poke_def vm_ok_def)

text \<open>
  What an extension of the tree under \<open>t\<close> keeps: the tree grows by the pages that left the
  allocator, nothing else is written, and every mapping is as before.
\<close>

definition tree_extends :: "platform \<Rightarrow> nat \<Rightarrow> nat \<Rightarrow> vm_state \<Rightarrow> nat set \<Rightarrow> vm_state \<Rightarrow> nat set \<Rightarrow> bool" where
  "tree_extends E l t s F s' F' \<longleftrightarrow> F' \<subseteq> F \<and> vm_ok E s' F' \<and> ptree l (vm_mem s') t \<and>
     tables l (vm_mem s') t = tables l (vm_mem s) t \<union> (F - F') \<and>
     (\<forall>va. leaf l (vm_mem s') t va = leaf l (vm_mem s) t va) \<and>
     same_off (tables l (vm_mem s) t \<union> (F - F')) (vm_mem s) (vm_mem s') \<and>
     vm_cr3 s' = vm_cr3 s \<and> vm_kernel_cr3 s' = vm_kernel_cr3 s"

lemma tree_extends_refl: "vm_ok E s F \<Longrightarrow> ptree l (vm_mem s) t \<Longrightarrow> tree_extends E l t s F s F"
  by (simp add: tree_extends_def same_off_def)

lemma tree_extendsD:
  assumes "tree_extends E l t s F s' F'"
  shows "F' \<subseteq> F" "vm_ok E s' F'" "ptree l (vm_mem s') t"
    "tables l (vm_mem s') t = tables l (vm_mem s) t \<union> (F - F')"
    "\<And>va. leaf l (vm_mem s') t va = leaf l (vm_mem s) t va"
    "same_off (tables l (vm_mem s) t \<union> (F - F')) (vm_mem s) (vm_mem s')"
    "vm_cr3 s' = vm_cr3 s" "vm_kernel_cr3 s' = vm_kernel_cr3 s"
  using assms by (auto simp: tree_extends_def)

lemma tree_extends_trans:
  assumes "tree_extends E l t s F s1 F1" "tree_extends E l t s1 F1 s2 F2"
  shows "tree_extends E l t s F s2 F2"
proof -
  note a = tree_extendsD [OF assms(1)] and b = tree_extendsD [OF assms(2)]
  have "same_off (tables l (vm_mem s) t \<union> (F - F2)) (vm_mem s) (vm_mem s2)"
    using a(1,4) b(1) by (intro same_off_trans [OF same_off_mono [OF a(6)] same_off_mono [OF b(6)]]) auto
  then show ?thesis using a b by (auto simp: tree_extends_def)
qed

text \<open>One level of the walk leaves a table below the entry.\<close>

lemma walk_level_ok:
  assumes T: "ptree (Suc l) (vm_mem s) t" and i: "i < 512" and ok: "vm_ok E s F"
    and disj: "tables (Suc l) (vm_mem s) t \<inter> F = {}" and run: "walk_level E (t + 8 * i) s = Some (c, s')"
  shows "\<exists>F'. tree_extends E (Suc l) t s F s' F' \<and> present (entry (vm_mem s') t i) \<and> c = below (vm_mem s') t i"
proof (cases "present (entry (vm_mem s) t i)")
  case True
  then have "s' = s" "c = below (vm_mem s) t i" using run by (auto simp: walk_level_def present_def)
  then show ?thesis using True tree_extends_refl [OF ok T] by blast
next
  case False
  then obtain f s1 where f: "alloc_table E s = Some (f, s1)" "s' = poke (t + 8 * i) (table_entry f) s1"
      "c = pte_addr_of (table_entry f)"
    using run by (auto simp: walk_level_def present_def split: bind_splits)
  note a = alloc_table_ok [OF f(1) ok]
  let ?m = "vm_mem s" and ?m' = "vm_mem s'"
  have fr: "table_frame t" using T by auto
  have ne: "f \<noteq> t" "f \<notin> tables (Suc l) ?m t" using a(1) disj by auto
  have e: "entry ?m' t i = table_entry f" using f(2) by simp
  have b: "below ?m' t i = f" using e a(2) by simp
  have z: "\<forall>j < 512. entry ?m' f j = 0"
  proof (intro allI impI)
    fix j :: nat assume j: "j < 512"
    have "f + 8 * j \<noteq> t + 8 * i"
      using same_frame [of f t "f + 8 * j"] a(2) fr ne(1) j i by (auto simp: PAGE_SIZE_def)
    then show "entry ?m' f j = 0" using a(8) j f(2) by simp
  qed
  note zt = zero_table [OF a(2) z]
  have off: "\<forall>x. x \<notin> cells {f} \<longrightarrow> x \<noteq> t + 8 * i \<longrightarrow> ?m' x = ?m x"
    using a(7) f(2) by (auto simp: same_off_def)
  have W: "t \<notin> {f}" "{f} \<inter> others l ?m t i = {}" "\<forall>x \<in> {f}. table_frame x"
    using ne a(2) unfolding tables_others [OF i] by auto
  note ch = subtree_change [OF T i W off, unfolded e table_entry_simps(2) [OF a(2)], OF table_entry_simps(1) [OF a(2)] zt(1)]
  have sub: "tables l ?m' f \<subseteq> {f}" using zt(2) by simp
  have Ff: "F - (F - {f}) = {f}" using a(1) by auto
  have misc: "F - {f} \<subseteq> F" "vm_ok E s' (F - {f})" "vm_cr3 s' = vm_cr3 s" "vm_kernel_cr3 s' = vm_kernel_cr3 s"
    using a(3,5,6) f(2) by auto
  have "tables (Suc l) ?m' t = tables (Suc l) ?m t \<union> {f}"
    using ch(3) [OF sub] zt(2) False unfolding tables_others [OF i, of l ?m t] by auto
  moreover have "leaf (Suc l) ?m' t va = leaf (Suc l) ?m t va" for va
  proof (cases "lidx (Suc l) va = i")
    case True
    then show ?thesis using ch(4) [OF sub True] zt(3) False by (simp add: leaf_def)
  qed (rule ch(5) [OF sub])
  moreover have "same_off (tables (Suc l) ?m t \<union> {f}) ?m ?m'"
    using off i by (auto simp: same_off_def cells_def PAGE_SIZE_def)
  ultimately have "tree_extends E (Suc l) t s F s' (F - {f})"
    using ch(1) [OF sub] misc unfolding tree_extends_def Ff by blast
  then show ?thesis using e b f(3) table_entry_simps [OF a(2)] by metis
qed

fun gmut :: "platform \<Rightarrow> nat \<Rightarrow> nat \<Rightarrow> nat \<Rightarrow> vm_state \<Rightarrow> (nat \<times> vm_state) panicky" where
  "gmut E 0 t va s = Some (t + 8 * lidx 0 va, s)"
| "gmut E (Suc l) t va s = do { (c, s1) \<leftarrow> walk_level E (t + 8 * lidx (Suc l) va) s; gmut E l c va s1 }"

lemma tree_extends_below:
  assumes T: "ptree (Suc l) (vm_mem s) t" and i: "i < 512" "present (entry (vm_mem s) t i)"
    and disj: "tables (Suc l) (vm_mem s) t \<inter> F = {}" "\<forall>f \<in> F. table_frame f"
    and sub: "tree_extends E l (below (vm_mem s) t i) s F s' F'"
  shows "tree_extends E (Suc l) t s F s' F'" "entry (vm_mem s') t i = entry (vm_mem s) t i"
proof -
  let ?m = "vm_mem s" and ?m' = "vm_mem s'" and ?W = "tables l (vm_mem s) (below (vm_mem s) t i) \<union> (F - F')"
  note x = tree_extendsD [OF sub] and od = others_disjoint [OF T i(1)]
  have fr: "table_frame t" using T by auto
  have tb: "tables (Suc l) ?m t = insert t (others l ?m t i \<union> tables l ?m (below ?m t i))"
    using tables_others [OF i(1)] i(2) by simp
  have W: "t \<notin> ?W" "?W \<inter> others l ?m t i = {}" "\<forall>x \<in> ?W. table_frame x"
    using od(2,3) i(2) disj x(1) tables_frames [OF T] unfolding tb by auto
  have "t + 8 * i \<notin> cells ?W" using cells_frame_iff [OF fr i(1) W(3)] W(1) by simp
  then show e: "entry ?m' t i = entry ?m t i" using x(6) by (simp add: same_off_def)
  have off: "\<forall>a. a \<notin> cells ?W \<longrightarrow> a \<noteq> t + 8 * i \<longrightarrow> ?m' a = ?m a" using x(6) by (simp add: same_off_def)
  note ch = subtree_change [OF T i(1) W off, unfolded e, OF i(2) x(3)]
  have s: "tables l ?m' (below ?m t i) \<subseteq> ?W" using x(4) by simp
  have "leaf (Suc l) ?m' t va = leaf (Suc l) ?m t va" for va
  proof (cases "lidx (Suc l) va = i")
    case True
    then show ?thesis using ch(4) [OF s True] x(5) i(2) by (simp add: leaf_def)
  qed (rule ch(5) [OF s])
  moreover have "same_off (tables (Suc l) ?m t \<union> (F - F')) ?m ?m'"
    unfolding tb by (rule same_off_mono [OF x(6)]) blast
  moreover have "tables (Suc l) ?m' t = tables (Suc l) ?m t \<union> (F - F')"
    using ch(3) [OF s] x(4) unfolding tb by blast
  ultimately show "tree_extends E (Suc l) t s F s' F'"
    using ch(1) [OF s] x unfolding tree_extends_def by blast
qed

lemma gmut_ok:
  assumes "ptree l (vm_mem s) t" "vm_ok E s F" "tables l (vm_mem s) t \<inter> F = {}" "gmut E l t va s = Some (p, s')"
  shows "\<exists>F'. tree_extends E l t s F s' F' \<and> gwalk l (vm_mem s') t va = Some p"
  using assms
proof (induction l arbitrary: t s F)
  case 0
  then show ?case using tree_extends_refl [OF 0(2,1)] by auto
next
  case (Suc l)
  let ?i = "lidx (Suc l) va"
  obtain c s1 where r: "walk_level E (t + 8 * ?i) s = Some (c, s1)" "gmut E l c va s1 = Some (p, s')"
    using Suc.prems(4) by (auto split: bind_splits)
  obtain F1 where F1: "tree_extends E (Suc l) t s F s1 F1" "present (entry (vm_mem s1) t ?i)" "c = below (vm_mem s1) t ?i"
    using walk_level_ok [OF Suc.prems(1) lidx_less Suc.prems(2,3) r(1)] by blast
  note x = tree_extendsD [OF F1(1)]
  have d: "tables (Suc l) (vm_mem s1) t \<inter> F1 = {}" using x(1,4) Suc.prems(3) by auto
  have c: "ptree l (vm_mem s1) c" using x(3) F1(2,3) by simp
  have cd: "tables l (vm_mem s1) c \<inter> F1 = {}"
    using d below_subset [of ?i "vm_mem s1" t l] F1(2) lidx_less unfolding F1(3) by blast
  obtain F2 where F2: "tree_extends E l c s1 F1 s' F2" "gwalk l (vm_mem s') c va = Some p"
    using Suc.IH [OF c x(2) cd r(2)] by blast
  note y = tree_extends_below [OF x(3) lidx_less [of "Suc l" va] F1(2) d _ F2(1) [unfolded F1(3)]]
  have fr: "\<forall>f \<in> F1. table_frame f" using x(2) by (simp add: vm_ok_def)
  show ?case using tree_extends_trans [OF F1(1) y(1) [OF fr]] y(2) [OF fr] F1(2,3) F2(2) by (intro exI [of _ F2]) simp
qed

subsection \<open>The walks of the code\<close>

lemma three_levels:
  "(3 :: nat) = Suc (Suc (Suc 0))"
  by simp

lemma pte_ptr_idx:
  assumes "table_frame t"
  shows "pte_ptr t (pml4_idx va) = t + 8 * lidx 3 va" "pte_ptr t (pdpt_idx va) = t + 8 * lidx 2 va"
    "pte_ptr t (pd_idx va) = t + 8 * lidx 1 va" "pte_ptr t (pt_idx va) = t + 8 * lidx 0 va"
  using pte_ptr_frame [OF assms] by (simp_all add: idx_levels)

lemma walk_ro_gwalk: "table_frame cr3 \<Longrightarrow> walk_ro m cr3 va = gwalk 3 m cr3 va"
  by (simp add: walk_ro_def three_levels pte_ptr_idx present_def Let_def numeral_2_eq_2)

lemma walk_level_frame: "walk_level E p s = Some (t, s') \<Longrightarrow> table_frame t"
  by (auto simp: walk_level_def split: bind_splits)

lemma walk_mut_gmut:
  assumes "table_frame cr3"
  shows "walk_mut E cr3 va s = gmut E 3 cr3 va s"
proof -
  have tail: "gmut E (Suc 0) pd va s2 = do { (pt, s3) \<leftarrow> walk_level E (pte_ptr pd (pd_idx va)) s2; Some (pte_ptr pt (pt_idx va), s3) }"
    if "table_frame pd" for pd s2
    using that walk_level_frame by (auto simp: pte_ptr_idx split: bind_splits)
  have mid: "gmut E (Suc (Suc 0)) pdpt va s1 = do { (pd, s2) \<leftarrow> walk_level E (pte_ptr pdpt (pdpt_idx va)) s1;
      (pt, s3) \<leftarrow> walk_level E (pte_ptr pd (pd_idx va)) s2; Some (pte_ptr pt (pt_idx va), s3) }"
    if "table_frame pdpt" for pdpt s1
    unfolding gmut.simps(2) [of E "Suc 0"] using that walk_level_frame tail
    by (auto simp: pte_ptr_idx numeral_2_eq_2 simp del: gmut.simps split: bind_splits)
  show ?thesis
    unfolding three_levels gmut.simps(2) [of E "Suc (Suc 0)"] walk_mut_def using assms walk_level_frame mid
    by (auto simp: pte_ptr_idx three_levels simp del: gmut.simps split: bind_splits)
qed

text \<open>The walk runs out of pages only when the allocator cannot give as many as it may need.\<close>

lemma alloc_seq_prefix:
  "fst (alloc_seq alloc (Suc n) p) \<noteq> None \<Longrightarrow> fst (alloc_seq alloc n p) \<noteq> None"
proof (induction n arbitrary: p)
  case (Suc n)
  from Suc.prems obtain x p1 where x: "alloc p = (Some x, p1)" "fst (alloc_seq alloc (Suc n) p1) \<noteq> None"
    by (cases "alloc p"; cases "fst (alloc p)") (auto split: prod.splits option.splits)
  from Suc.IH [OF x(2)] x(1) show ?case by (auto split: prod.splits option.splits)
qed simp

lemma walk_level_None: "walk_level E p s = None \<Longrightarrow> fst (alloc_page E (vm_pmm s)) = None"
  by (auto simp: walk_level_def alloc_table_def split: if_splits prod.splits option.splits bind_splits)

lemma walk_level_pmm:
  "walk_level E p s = Some (t, s') \<Longrightarrow> vm_pmm s' = vm_pmm s \<or> (\<exists>f. alloc_page E (vm_pmm s) = (Some f, vm_pmm s'))"
  by (auto simp: walk_level_def alloc_table_def split: if_splits prod.splits option.splits bind_splits)

lemma gmut_None: "gmut E l t va s = None \<Longrightarrow> fst (alloc_seq (alloc_page E) l (vm_pmm s)) = None"
proof (induction l arbitrary: t s)
  case (Suc l)
  show ?case
  proof (cases "walk_level E (t + 8 * lidx (Suc l) va) s")
    case None
    then show ?thesis using walk_level_None [OF None] by (auto split: prod.splits option.splits)
  next
    case (Some r)
    obtain c s1 where r: "r = (c, s1)" by (cases r)
    have ih: "fst (alloc_seq (alloc_page E) l (vm_pmm s1)) = None" using Suc Some r by simp
    from walk_level_pmm [OF Some [unfolded r]] show ?thesis
    proof
      assume "vm_pmm s1 = vm_pmm s"
      then show ?thesis using ih alloc_seq_prefix by metis
    next
      assume "\<exists>f. alloc_page E (vm_pmm s) = (Some f, vm_pmm s1)"
      then show ?thesis using ih by (auto split: prod.splits option.splits)
    qed
  qed
qed simp

end
