(* ===== verification/Paging_Correct.thy ===== *)
theory Paging_Correct
  imports Paging_Inv
begin

unbundle bit_operations_syntax

section \<open>Address spaces\<close>

text \<open>
  What an address space maps is the function \<open>aspace\<close> from virtual addresses to present leaf
  entries. The operations of the code refine updates of that function: a mapping sets one page, an
  unmapping clears one, a new address space has the kernel half and nothing else.
\<close>

definition address_space :: "platform \<Rightarrow> vm_state \<Rightarrow> nat \<Rightarrow> nat set \<Rightarrow> bool" where
  "address_space E s cr3 F \<longleftrightarrow>
     vm_ok E s F \<and> ptree 3 (vm_mem s) cr3 \<and> tables 3 (vm_mem s) cr3 \<inter> F = {}"

definition aspace :: "vm_state \<Rightarrow> nat \<Rightarrow> nat \<Rightarrow> u64 option" where
  "aspace s cr3 = leaf 3 (vm_mem s) cr3"

definition pte_value :: "nat \<Rightarrow> u64 \<Rightarrow> u64" where
  "pte_value pa fl = (of_nat pa AND PTE_ADDR_MASK) OR (fl AND NOT PTE_ADDR_MASK) OR PTE_PRESENT"

text \<open>The tables one walk reads. Another address space is unaffected where its walk stays clear.\<close>

fun visited :: "nat \<Rightarrow> pmem \<Rightarrow> nat \<Rightarrow> nat \<Rightarrow> nat set" where
  "visited 0 m t va = {t}"
| "visited (Suc l) m t va =
     insert t (if present (entry m t (lidx (Suc l) va)) then visited l m (below m t (lidx (Suc l) va)) va else {})"

lemma visited_frames: "table_frame t \<Longrightarrow> x \<in> visited l m t va \<Longrightarrow> table_frame x"
proof (induction l arbitrary: t)
  case (Suc l)
  then show ?case using Suc.IH [OF pte_addr_frame] by (auto split: if_splits)
qed simp

lemma visited_cong:
  "same_on (visited l m t va) m m' \<Longrightarrow> leaf l m' t va = leaf l m t va"
proof (induction l arbitrary: t)
  case 0
  then show ?case using same_on_entry [OF 0, of t "lidx 0 va"] by (simp add: leaf_def)
next
  case (Suc l)
  have e: "entry m' t (lidx (Suc l) va) = entry m t (lidx (Suc l) va)"
    using same_on_entry [OF Suc.prems, of t "lidx (Suc l) va"] by simp
  show ?case
  proof (cases "present (entry m t (lidx (Suc l) va))")
    case True
    then have "same_on (visited l m (below m t (lidx (Suc l) va)) va) m m'"
      by (intro same_on_mono [OF Suc.prems]) auto
    from Suc.IH [OF this] show ?thesis using e True by (simp add: leaf_def)
  qed (use e in \<open>simp add: leaf_def\<close>)
qed

lemma pte_value_simps:
  "present (pte_value pa fl)" "table_frame pa \<Longrightarrow> pte_addr_of (pte_value pa fl) = pa"
proof -
  show "present (pte_value pa fl)"
    unfolding present_bit pte_value_def bit_or_iff by (simp add: PTE_PRESENT_def)
  assume pa: "table_frame pa"
  have "PTE_PRESENT AND PTE_ADDR_MASK = 0" "(fl AND NOT PTE_ADDR_MASK) AND PTE_ADDR_MASK = 0"
    by (simp_all add: PTE_PRESENT_def PTE_ADDR_MASK_def and.assoc)
  then have "pte_value pa fl AND PTE_ADDR_MASK = of_nat pa"
    unfolding pte_value_def bit.conj_disj_distrib2 frame_word [OF pa] by (simp add: frame_word [OF pa])
  then show "pte_addr_of (pte_value pa fl) = pa"
    using pa by (simp add: pte_addr_of_def table_frame_def unat_of_nat take_bit_nat_eq_self)
qed

lemma virt_to_phys_aspace:
  "table_frame cr3 \<Longrightarrow> virt_to_phys (vm_mem s) cr3 va = map_option pte_addr_of (aspace s cr3 va)"
  by (auto simp: virt_to_phys_def walk_ro_gwalk aspace_def leaf_def present_def split: option.splits)

lemma address_space_frame: "address_space E s cr3 F \<Longrightarrow> table_frame cr3"
  by (auto simp: address_space_def)

subsection \<open>Writing one page\<close>

lemma aspace_write:
  assumes "address_space E s cr3 F" "gwalk 3 (vm_mem s) cr3 va = Some p"
  shows "address_space E (poke p v s) cr3 F" "tables 3 (vm_mem (poke p v s)) cr3 = tables 3 (vm_mem s) cr3"
    "aspace (poke p v s) cr3 va' =
       (if vpn va' = vpn va then (if present v then Some v else None) else aspace s cr3 va')"
    "same_off (tables 3 (vm_mem s) cr3) (vm_mem s) (vm_mem (poke p v s))"
proof -
  have T: "ptree 3 (vm_mem s) cr3" using assms(1) by (simp add: address_space_def)
  note w = leaf_write [OF T assms(2), of v]
  show tb: "tables 3 (vm_mem (poke p v s)) cr3 = tables 3 (vm_mem s) cr3" using w by simp
  show "address_space E (poke p v s) cr3 F" using assms(1) w tb unfolding address_space_def by simp
  show "aspace (poke p v s) cr3 va' =
       (if vpn va' = vpn va then (if present v then Some v else None) else aspace s cr3 va')"
    using w unfolding aspace_def vpn_eq_iff by simp
  obtain x where x: "x \<in> tables 3 (vm_mem s) cr3" "p = x + 8 * lidx 0 va" using gwalk_in [OF T assms(2)] by blast
  have "8 * lidx 0 va < PAGE_SIZE" using lidx_less [of 0 va] by (simp add: PAGE_SIZE_def)
  then show "same_off (tables 3 (vm_mem s) cr3) (vm_mem s) (vm_mem (poke p v s))"
    using x by (auto simp: same_off_def cells_def)
qed

lemma map_page_ok:
  assumes as: "address_space E s cr3 F" and run: "map_page E cr3 va pa fl s = Some s'"
  shows "\<exists>F' \<subseteq> F. address_space E s' cr3 F' \<and> tables 3 (vm_mem s') cr3 = tables 3 (vm_mem s) cr3 \<union> (F - F') \<and>
    (\<forall>va'. aspace s' cr3 va' = (if vpn va' = vpn va then Some (pte_value pa fl) else aspace s cr3 va')) \<and>
    same_off (tables 3 (vm_mem s) cr3 \<union> (F - F')) (vm_mem s) (vm_mem s') \<and>
    vm_cr3 s' = vm_cr3 s \<and> vm_kernel_cr3 s' = vm_kernel_cr3 s"
proof -
  have A: "ptree 3 (vm_mem s) cr3" "vm_ok E s F" "tables 3 (vm_mem s) cr3 \<inter> F = {}"
    using as by (auto simp: address_space_def)
  obtain p s1 where r: "gmut E 3 cr3 va s = Some (p, s1)" "s' = poke p (pte_value pa fl) s1"
    using run walk_mut_gmut [OF address_space_frame [OF as]] by (auto simp: map_page_def pte_value_def split: bind_splits)
  obtain F' where F': "tree_extends E 3 cr3 s F s1 F'" "gwalk 3 (vm_mem s1) cr3 va = Some p"
    using gmut_ok [OF A r(1)] by blast
  note x = tree_extendsD [OF F'(1)]
  have "tables 3 (vm_mem s1) cr3 \<inter> F' = {}" using A(3) x(1,4) by blast
  then have "address_space E s1 cr3 F'" using x by (simp add: address_space_def)
  note w = aspace_write [OF this F'(2), of "pte_value pa fl", folded r(2)]
  have "same_off (tables 3 (vm_mem s) cr3 \<union> (F - F')) (vm_mem s) (vm_mem s')"
    by (rule same_off_trans [OF x(6)]) (rule w(4) [unfolded x(4)])
  moreover have "aspace s1 cr3 = aspace s cr3" using x(5) by (auto simp: aspace_def)
  ultimately show ?thesis using w x r(2) pte_value_simps(1) by (intro exI [of _ F']) simp
qed

lemma other_space_ok:
  assumes "same_off W (vm_mem s) (vm_mem s')" "table_frame c" "visited 3 (vm_mem s) c va \<inter> W = {}" "\<forall>x \<in> W. table_frame x"
  shows "aspace s' c va = aspace s c va"
proof -
  have "same_on (visited 3 (vm_mem s) c va) (vm_mem s) (vm_mem s')"
    using assms visited_frames [OF assms(2)] by (intro same_off_on [OF assms(1)]) blast+
  then show ?thesis unfolding aspace_def by (rule visited_cong)
qed

lemma unmap_page_ok:
  assumes as: "address_space E s cr3 F" and cur: "current_cr3 s = cr3"
  shows "fst (unmap_page va s) = map_option pte_addr_of (aspace s cr3 va)"
    "address_space E (snd (unmap_page va s)) cr3 F"
    "aspace (snd (unmap_page va s)) cr3 va' = (if vpn va' = vpn va then None else aspace s cr3 va')"
    "tables 3 (vm_mem (snd (unmap_page va s))) cr3 = tables 3 (vm_mem s) cr3"
    "same_off (tables 3 (vm_mem s) cr3) (vm_mem s) (vm_mem (snd (unmap_page va s)))"
    "vm_cr3 (snd (unmap_page va s)) = vm_cr3 s" "vm_pmm (snd (unmap_page va s)) = vm_pmm s"
proof -
  note g = walk_ro_gwalk [OF address_space_frame [OF as], of "vm_mem s" va]
  have "fst (unmap_page va s) = map_option pte_addr_of (aspace s cr3 va) \<and>
    address_space E (snd (unmap_page va s)) cr3 F \<and>
    aspace (snd (unmap_page va s)) cr3 va' = (if vpn va' = vpn va then None else aspace s cr3 va') \<and>
    tables 3 (vm_mem (snd (unmap_page va s))) cr3 = tables 3 (vm_mem s) cr3 \<and>
    same_off (tables 3 (vm_mem s) cr3) (vm_mem s) (vm_mem (snd (unmap_page va s))) \<and>
    vm_cr3 (snd (unmap_page va s)) = vm_cr3 s \<and> vm_pmm (snd (unmap_page va s)) = vm_pmm s"
  proof (cases "aspace s cr3 va")
    case None
    then have u: "unmap_page va s = (None, s)"
      by (auto simp: unmap_page_def cur g aspace_def leaf_def present_def split: option.splits if_splits)
    have "aspace s cr3 va' = None" if "vpn va' = vpn va"
    proof -
      have "gwalk 3 (vm_mem s) cr3 va' = gwalk 3 (vm_mem s) cr3 va"
        using that unfolding vpn_eq_iff three_levels gwalk.simps by simp
      then show ?thesis using None by (simp add: aspace_def leaf_def)
    qed
    then show ?thesis using u as None by (simp add: same_off_def)
  next
    case (Some e)
    then obtain p where p: "gwalk 3 (vm_mem s) cr3 va = Some p" "vm_mem s p = e" "present e"
      by (auto simp: aspace_def leaf_def split: option.splits if_splits)
    then have u: "unmap_page va s = (Some (pte_addr_of e), poke p 0 s)"
      by (auto simp: unmap_page_def cur g present_def)
    show ?thesis using aspace_write [OF as p(1), of 0] u Some by simp
  qed
  then show "fst (unmap_page va s) = map_option pte_addr_of (aspace s cr3 va)"
    "address_space E (snd (unmap_page va s)) cr3 F"
    "aspace (snd (unmap_page va s)) cr3 va' = (if vpn va' = vpn va then None else aspace s cr3 va')"
    "tables 3 (vm_mem (snd (unmap_page va s))) cr3 = tables 3 (vm_mem s) cr3"
    "same_off (tables 3 (vm_mem s) cr3) (vm_mem s) (vm_mem (snd (unmap_page va s)))"
    "vm_cr3 (snd (unmap_page va s)) = vm_cr3 s" "vm_pmm (snd (unmap_page va s)) = vm_pmm s" by auto
qed

lemma aligned_mask:
  assumes "table_frame t"
  shows "t AND usize_not (PAGE_SIZE - 1) = t"
proof -
  have "t < 2 ^ 64" using assms by (simp add: table_frame_def)
  then have "t AND usize_not (2 ^ 12 - 1) = t div 2 ^ 12 * 2 ^ 12" by (intro and_usize_not_mask) simp_all
  then show ?thesis using assms by (simp add: table_frame_def PAGE_SIZE_def)
qed

lemma current_cr3_load: "table_frame t \<Longrightarrow> current_cr3 (load_cr3 t s) = t"
  using aligned_mask [of t] by (simp add: current_cr3_def load_cr3_def)

lemma current_cr3_idem: "current_cr3 (load_cr3 (current_cr3 s) s') = current_cr3 s"
  by (simp add: current_cr3_def load_cr3_def and.assoc)

lemma load_cr3_simps [simp]:
  "vm_mem (load_cr3 c s) = vm_mem s" "vm_pmm (load_cr3 c s) = vm_pmm s" "aspace (load_cr3 c s) = aspace s"
  "address_space E (load_cr3 c s) cr3 F = address_space E s cr3 F"
  by (simp_all add: load_cr3_def aspace_def [abs_def] address_space_def vm_ok_def)

lemma hal_unmap_page_ok:
  assumes as: "address_space E s cr3 F" and run: "hal_unmap_page cr3 va s = (r, s')"
  shows "r = map_option pte_addr_of (aspace s cr3 va)" "address_space E s' cr3 F"
    "aspace s' cr3 va' = (if vpn va' = vpn va then None else aspace s cr3 va')"
    "tables 3 (vm_mem s') cr3 = tables 3 (vm_mem s) cr3"
    "same_off (tables 3 (vm_mem s) cr3) (vm_mem s) (vm_mem s')" "current_cr3 s' = current_cr3 s" "vm_pmm s' = vm_pmm s"
proof -
  define s1 where "s1 = (if current_cr3 s \<noteq> cr3 then load_cr3 cr3 s else s)"
  have s1: "address_space E s1 cr3 F" "current_cr3 s1 = cr3" "vm_mem s1 = vm_mem s" "aspace s1 = aspace s"
    "vm_pmm s1 = vm_pmm s"
    using as current_cr3_load [OF address_space_frame [OF as]] by (auto simp: s1_def)
  note u = unmap_page_ok [OF s1(1,2), of va]
  have r: "r = fst (unmap_page va s1)"
    "s' = (if current_cr3 s \<noteq> cr3 then load_cr3 (current_cr3 s) (snd (unmap_page va s1)) else snd (unmap_page va s1))"
    using run by (auto simp: hal_unmap_page_def s1_def Let_def split: prod.splits)
  have s': "vm_mem s' = vm_mem (snd (unmap_page va s1))" "aspace s' = aspace (snd (unmap_page va s1))"
      "address_space E s' cr3 F" "vm_pmm s' = vm_pmm (snd (unmap_page va s1))"
    using u(2) by (simp_all add: r(2))
  show "r = map_option pte_addr_of (aspace s cr3 va)" "address_space E s' cr3 F"
    "aspace s' cr3 va' = (if vpn va' = vpn va then None else aspace s cr3 va')"
    "tables 3 (vm_mem s') cr3 = tables 3 (vm_mem s) cr3"
    "same_off (tables 3 (vm_mem s) cr3) (vm_mem s) (vm_mem s')" "vm_pmm s' = vm_pmm s"
    using u s1 s' r(1) by auto
  have "current_cr3 (snd (unmap_page va s1)) = current_cr3 s1" using u(6) by (simp add: current_cr3_def)
  then show "current_cr3 s' = current_cr3 s"
    using s1(2) current_cr3_idem by (auto simp: r(2))
qed

subsection \<open>A new address space\<close>

lemma new_space_ok:
  assumes k: "address_space E s k F" "k = fst (kernel_cr3 s)" and run: "new_user_address_space E s = (Some cr3, s')"
  shows "cr3 \<in> F" "address_space E s' cr3 (F - {cr3})"
    "aspace s' cr3 va = (if 256 \<le> pml4_idx va then aspace s k va else None)"
    "same_off {cr3} (vm_mem s) (vm_mem s')"
proof -
  let ?m = "vm_mem s" and ?m' = "vm_mem s'"
  obtain p' where p': "alloc_page E (vm_pmm s) = (Some cr3, p')"
    using run by (auto simp: new_user_address_space_def Let_def split: prod.splits option.splits)
  have K: "vm_ok E s F" "ptree 3 ?m k" "tables 3 ?m k \<inter> F = {}" "table_frame k"
    using k(1) address_space_frame by (auto simp: address_space_def)
  show cF: "cr3 \<in> F" using pg.alloc_some [OF _ p'] K(1) by (auto simp: vm_ok_def)
  then have fr: "table_frame cr3" using K(1) by (simp add: vm_ok_def)
  have nk: "cr3 \<notin> tables 3 ?m k" using K(3) cF by auto
  have kc: "fst (kernel_cr3 (s\<lparr>vm_mem := x, vm_pmm := p'\<rparr>)) = k" for x
    using k(2) by (simp add: kernel_cr3_def current_cr3_def)
  have m': "?m' = (\<lambda>a. if cr3 + 256 * 8 \<le> a \<and> a < cr3 + 512 * 8
      then zero_frame cr3 ?m (k + 256 * 8 + (a - (cr3 + 256 * 8))) else zero_frame cr3 ?m a)" and pm: "vm_pmm s' = p'"
    using run p' kc by (auto simp: new_user_address_space_def kernel_cr3_def Let_def split: prod.splits if_splits)
  show off: "same_off {cr3} ?m ?m'"
    by (auto simp: same_off_def cells_def m' zero_frame_def PAGE_SIZE_def)
  have "k \<noteq> cr3" using nk by auto
  then have zk: "zero_frame cr3 ?m (k + 8 * i) = entry ?m k i" if "i < 512" for i
    using same_frame [OF fr K(4), of "k + 8 * i"] that by (auto simp: zero_frame_def PAGE_SIZE_def)
  have e: "entry ?m' cr3 i = (if 256 \<le> i then entry ?m k i else 0)" if "i < 512" for i
  proof (cases "256 \<le> i")
    case True
    have "k + 256 * 8 + (cr3 + 8 * i - (cr3 + 256 * 8)) = k + 8 * i" using True by simp
    then show ?thesis using zk [OF that] True that by (simp add: m')
  qed (use that in \<open>simp add: m' zero_frame_def PAGE_SIZE_def\<close>)
  have three: "(3 :: nat) = Suc 2" by simp
  note K2 = K(2) [unfolded three ptree.simps(2)]
  have sub: "tables 2 ?m (below ?m k i) \<subseteq> tables 3 ?m k" "ptree 2 ?m (below ?m k i)"
    if "i < 512" "present (entry ?m k i)" for i
    using that K2 below_subset [of i ?m k 2] unfolding three by auto
  have on: "same_on (tables 2 ?m (below ?m k i)) ?m ?m'" if "i < 512" "present (entry ?m k i)" for i
    using sub [OF that] nk fr tables_frames [OF sub(2) [OF that]] by (intro same_off_on [OF off]) auto
  note cong = tree_cong [OF on] leaf_cong [OF sub(2) on]
  have T: "ptree (Suc 2) ?m' cr3"
  proof -
    have "ptree 2 ?m' (below ?m' cr3 i) \<and> cr3 \<notin> tables 2 ?m' (below ?m' cr3 i)" if "i < 512" "present (entry ?m' cr3 i)" for i
      using that e sub nk cong(1,2) by (auto split: if_splits)
    moreover have "tables 2 ?m' (below ?m' cr3 i) \<inter> tables 2 ?m' (below ?m' cr3 j) = {}"
      if "i < 512" "j < 512" "i \<noteq> j" "present (entry ?m' cr3 i)" "present (entry ?m' cr3 j)" for i j
      using that e cong(1) K2 by (auto split: if_splits)
    ultimately show ?thesis using fr unfolding ptree.simps(2) by blast
  qed
  have "tables (Suc 2) ?m' cr3 \<subseteq> insert cr3 (tables 3 ?m k)"
  proof
    fix x assume "x \<in> tables (Suc 2) ?m' cr3"
    then consider "x = cr3" | i where "i < 512" "present (entry ?m' cr3 i)" "x \<in> tables 2 ?m' (below ?m' cr3 i)"
      unfolding tables.simps(2) by auto
    then show "x \<in> insert cr3 (tables 3 ?m k)"
    proof cases
      case 2
      then have i: "present (entry ?m k i)" "entry ?m' cr3 i = entry ?m k i" using e by (auto split: if_splits)
      then show ?thesis using 2 sub(1) [OF 2(1) i(1)] cong(1) [OF 2(1) i(1)] by auto
    qed simp
  qed
  moreover have "vm_ok E s' (F - {cr3})"
    using pg.alloc_some [OF _ p'] K(1) pm by (auto simp: vm_ok_def)
  ultimately show "address_space E s' cr3 (F - {cr3})" using T K(3) unfolding address_space_def by auto
  have i: "pml4_idx va = lidx (Suc 2) va" by (simp add: idx_levels)
  have "leaf (Suc 2) ?m' cr3 va = (if 256 \<le> pml4_idx va then leaf (Suc 2) ?m k va else None)"
    using e [OF lidx_less] cong(4) [OF lidx_less] unfolding i leaf_def gwalk.simps by (auto split: option.splits)
  then show "aspace s' cr3 va = (if 256 \<le> pml4_idx va then aspace s k va else None)" by (simp add: aspace_def)
qed

subsection \<open>A small machine\<close>

definition demo_vm :: vm_state where
  "demo_vm = \<lparr>vm_mem = \<lambda>_. 0, vm_pmm = pmm_boot, vm_cr3 = 0x1000, vm_kernel_cr3 = 0x1000\<rparr>"

definition demo_frames :: "nat set" where
  "demo_frames = free_frames demo_platform pmm_boot (\<lambda>_ _. []) []"

lemma demo_alloc_boot:
  "n < POOL_PAGES \<Longrightarrow> alloc_page demo_platform (pmm_boot\<lparr>bump := n\<rparr>) = (Some (0x100000 + n * 0x1000), pmm_boot\<lparr>bump := Suc n\<rparr>)"
  by (simp add: alloc_page_def pmm_boot_def boot_alloc_def boot_pop_def demo_platform_def Let_def PAGE_SIZE_def)

lemma demo_frames_range: "f \<in> demo_frames \<Longrightarrow> table_frame f \<and> 0x100000 \<le> f"
proof -
  assume "f \<in> demo_frames"
  then obtain i where i: "i < POOL_PAGES" "f = pool_page demo_platform i"
    using pool_frames_pool [OF pmm_okD(2) [OF pmm_boot_ok [OF demo_platform_ok]], of f]
    by (auto simp: demo_frames_def free_frames_def covered_def blocks_def)
  then show ?thesis by (auto simp: pool_page_def demo_platform_def table_frame_def PAGE_SIZE_def POOL_PAGES_def)
qed

lemma demo_vm_space: "address_space demo_platform demo_vm 0x1000 demo_frames"
proof -
  have fr: "table_frame 0x1000" by (simp add: table_frame_def PAGE_SIZE_def)
  have "\<forall>i < 512. entry (vm_mem demo_vm) 0x1000 i = 0" by (simp add: demo_vm_def)
  note z = zero_table [OF fr this, of 3]
  have "vm_ok demo_platform demo_vm demo_frames"
    using demo_frames_range pmm_boot_ok [OF demo_platform_ok]
    by (auto simp: vm_ok_def demo_vm_def pmm_frames_def demo_frames_def)
  moreover have "0x1000 \<notin> demo_frames" using demo_frames_range [of "0x1000"] by auto
  ultimately show ?thesis unfolding address_space_def z(2) using z(1) by blast
qed

lemma demo_seq: "fst (alloc_seq (alloc_page demo_platform) 3 pmm_boot) \<noteq> None"
proof -
  have b: "pmm_boot = pmm_boot\<lparr>bump := 0\<rparr>" by (simp add: pmm_boot_def)
  have p: "0 < POOL_PAGES" "Suc 0 < POOL_PAGES" "Suc (Suc 0) < POOL_PAGES" by (simp_all add: POOL_PAGES_def)
  show ?thesis unfolding three_levels by (subst b) (simp add: demo_alloc_boot [OF p(1)] demo_alloc_boot [OF p(2)] demo_alloc_boot [OF p(3)])
qed

lemma demo_space_empty: "aspace demo_vm 0x1000 va = None"
proof -
  have "table_frame 0x1000" "\<forall>i < 512. entry (vm_mem demo_vm) 0x1000 i = 0"
    by (simp_all add: table_frame_def PAGE_SIZE_def demo_vm_def)
  then show ?thesis unfolding aspace_def by (rule zero_table(3))
qed

subsection \<open>Properties\<close>

text \<open>
  C33. Mapping a page refines the update of the address space. On a well-formed tree, \<open>map_page\<close>
  leaves a well-formed tree in which the page has exactly the given entry, every other page is
  mapped as before, and every other address space whose walk does not use these tables is
  unchanged. It panics only when the allocator cannot give three pages in a row.
\<close>

theorem map_page_refines:
  assumes "address_space E s cr3 F"
  shows "case map_page E cr3 va pa fl s of
      None \<Rightarrow> fst (alloc_seq (alloc_page E) 3 (vm_pmm s)) = None
    | Some s' \<Rightarrow> (\<exists>F' \<subseteq> F. address_space E s' cr3 F') \<and>
        (\<forall>va'. aspace s' cr3 va' = (if vpn va' = vpn va then Some (pte_value pa fl) else aspace s cr3 va')) \<and>
        (\<forall>c va'. table_frame c \<and> visited 3 (vm_mem s) c va' \<inter> (tables 3 (vm_mem s) cr3 \<union> F) = {} \<longrightarrow>
           aspace s' c va' = aspace s c va')"
proof (cases "map_page E cr3 va pa fl s")
  case None
  then have "gmut E 3 cr3 va s = None"
    using walk_mut_gmut [OF address_space_frame [OF assms]] by (auto simp: map_page_def split: bind_splits)
  then show ?thesis using None gmut_None by simp
next
  case (Some s')
  from map_page_ok [OF assms Some] obtain F' where F': "F' \<subseteq> F" "address_space E s' cr3 F'"
    "\<forall>va'. aspace s' cr3 va' = (if vpn va' = vpn va then Some (pte_value pa fl) else aspace s cr3 va')"
    "same_off (tables 3 (vm_mem s) cr3 \<union> (F - F')) (vm_mem s) (vm_mem s')" by blast
  have fr: "\<forall>x \<in> tables 3 (vm_mem s) cr3 \<union> (F - F'). table_frame x"
    using assms tables_frames by (auto simp: address_space_def vm_ok_def)
  have "aspace s' c va' = aspace s c va'"
    if "table_frame c" "visited 3 (vm_mem s) c va' \<inter> (tables 3 (vm_mem s) cr3 \<union> F) = {}" for c va'
    using that by (intro other_space_ok [OF F'(4) _ _ fr]) blast+
  then show ?thesis using Some F' by auto
qed

theorem map_page_refines_witness:
  "\<exists>s. map_page demo_platform 0x1000 0x400000 0x7000 PTE_WRITABLE demo_vm = Some s \<and>
     aspace s 0x1000 0x400123 = Some (pte_value 0x7000 PTE_WRITABLE) \<and> aspace s 0x1000 0x401000 = None"
proof -
  have v: "vpn 0x400123 = vpn 0x400000" "vpn 0x401000 \<noteq> vpn 0x400000" by (simp_all add: vpn_def)
  have "vm_pmm demo_vm = pmm_boot" by (simp add: demo_vm_def)
  with demo_seq have "fst (alloc_seq (alloc_page demo_platform) 3 (vm_pmm demo_vm)) \<noteq> None" by simp
  with map_page_refines [OF demo_vm_space, of "0x400000" "0x7000" PTE_WRITABLE] v demo_space_empty show ?thesis
    by (auto split: option.splits)
qed

text \<open>
  C34. Mapping and unmapping round trip through the architecture interface. After a page frame
  is mapped, the translation of the address is that frame; the unmapping returns it, leaves the
  page unmapped, every other page as it was before the mapping, and the same address space
  loaded, whichever one was loaded before.
\<close>

theorem map_unmap_roundtrip:
  assumes "address_space E s cr3 F" "table_frame pa" "hal_map_page E cr3 va pa fl s = Some (b, s1)"
    and "hal_unmap_page cr3 va s1 = (r, s2)"
  shows "b \<and> virt_to_phys (vm_mem s1) cr3 va = Some pa \<and> r = Some pa \<and> virt_to_phys (vm_mem s2) cr3 va = None \<and>
    (\<forall>va'. vpn va' \<noteq> vpn va \<longrightarrow> aspace s2 cr3 va' = aspace s cr3 va') \<and> current_cr3 s2 = current_cr3 s"
proof -
  have m: "map_page E cr3 va pa (hal_pte_flags fl) s = Some s1" and b: "b"
    using assms(3) by (auto simp: hal_map_page_def split: bind_splits)
  obtain F' where F': "address_space E s1 cr3 F'" "vm_cr3 s1 = vm_cr3 s"
    "\<forall>va'. aspace s1 cr3 va' = (if vpn va' = vpn va then Some (pte_value pa (hal_pte_flags fl)) else aspace s cr3 va')"
    using map_page_ok [OF assms(1) m] by blast
  note u = hal_unmap_page_ok [OF F'(1) assms(4)] and fr = address_space_frame [OF assms(1)]
  have "current_cr3 s1 = current_cr3 s" using F'(2) by (simp add: current_cr3_def)
  then show ?thesis
    using u F'(3) b pte_value_simps(2) [OF assms(2)] by (simp add: virt_to_phys_aspace [OF fr])
qed

theorem map_unmap_roundtrip_witness:
  "\<exists>s1 s2. hal_map_page demo_platform 0x1000 0x400000 0x7000 PF_WRITE demo_vm = Some (True, s1) \<and>
     hal_unmap_page 0x1000 0x400000 s1 = (Some 0x7000, s2) \<and> virt_to_phys (vm_mem s2) 0x1000 0x400000 = None"
proof -
  have "map_page demo_platform 0x1000 0x400000 0x7000 (hal_pte_flags PF_WRITE) demo_vm \<noteq> None"
  proof
    assume "map_page demo_platform 0x1000 0x400000 0x7000 (hal_pte_flags PF_WRITE) demo_vm = None"
    then have "gmut demo_platform 3 0x1000 0x400000 demo_vm = None"
      using walk_mut_gmut [OF address_space_frame [OF demo_vm_space]] by (auto simp: map_page_def split: bind_splits)
    from gmut_None [OF this] demo_seq show False by (simp add: demo_vm_def)
  qed
  then obtain s1 where s1: "hal_map_page demo_platform 0x1000 0x400000 0x7000 PF_WRITE demo_vm = Some (True, s1)"
    by (auto simp: hal_map_page_def)
  obtain r s2 where s2: "hal_unmap_page 0x1000 0x400000 s1 = (r, s2)" by (cases "hal_unmap_page 0x1000 0x400000 s1")
  have "table_frame 0x7000" by (simp add: table_frame_def PAGE_SIZE_def)
  from map_unmap_roundtrip [OF demo_vm_space this s1 s2] s1 s2 show ?thesis by blast
qed

text \<open>
  C35. A new user address space is a page of its own with the kernel half of the kernel's tables and
  nothing in the user half; it is well formed, and no address space whose walk avoids the new
  page changes.
\<close>

theorem new_space_kernel_half:
  assumes "address_space E s k F" "k = fst (kernel_cr3 s)" "new_user_address_space E s = (Some cr3, s')"
  shows "cr3 \<in> F \<and> address_space E s' cr3 (F - {cr3}) \<and>
    (\<forall>va. aspace s' cr3 va = (if 256 \<le> pml4_idx va then aspace s k va else None)) \<and>
    (\<forall>c va. table_frame c \<and> cr3 \<notin> visited 3 (vm_mem s) c va \<longrightarrow> aspace s' c va = aspace s c va)"
proof -
  note n = new_space_ok [OF assms]
  have fr: "\<forall>x \<in> {cr3}. table_frame x" using n(1) assms(1) by (auto simp: address_space_def vm_ok_def)
  have "aspace s' c va = aspace s c va" if "table_frame c" "cr3 \<notin> visited 3 (vm_mem s) c va" for c va
    using that by (intro other_space_ok [OF n(4) _ _ fr]) auto
  then show ?thesis using n by blast
qed

theorem new_space_kernel_half_witness:
  "\<exists>s. new_user_address_space demo_platform demo_vm = (Some 0x100000, s) \<and>
     address_space demo_platform s 0x100000 (demo_frames - {0x100000}) \<and> aspace s 0x100000 0x400000 = None"
proof -
  have "pmm_boot = pmm_boot\<lparr>bump := 0\<rparr>" by (simp add: pmm_boot_def)
  then have a: "alloc_page demo_platform (vm_pmm demo_vm) = (Some 0x100000, pmm_boot\<lparr>bump := Suc 0\<rparr>)"
    using demo_alloc_boot [of 0] by (simp add: demo_vm_def POOL_PAGES_def)
  then obtain s where s: "new_user_address_space demo_platform demo_vm = (Some 0x100000, s)"
    by (cases "vm_kernel_cr3 demo_vm = 0") (auto simp: new_user_address_space_def kernel_cr3_def Let_def)
  have k: "0x1000 = fst (kernel_cr3 demo_vm)" by (simp add: kernel_cr3_def demo_vm_def)
  from new_space_kernel_half [OF demo_vm_space k s] s demo_space_empty show ?thesis by auto
qed

end
