(* ===== verification/Cow.thy ===== *)
theory Cow
  imports Paging_Correct Proc_Table
begin

unbundle bit_operations_syntax

section \<open>Copy on write\<close>

text \<open>
  The clone of an address space in \<^verbatim>\<open>src/arch/x86_64/paging.rs\<close> and the handler of write faults in
  \<^verbatim>\<open>src/mm/cow_fault.rs\<close>. The four nested loops of the clone are the functions \<open>clone_pt\<close> to
  \<open>clone_pml4\<close>; the three outer ones have the same body around the next inner loop.
\<close>

fun for_each :: "('a \<Rightarrow> 's \<Rightarrow> 's panicky) \<Rightarrow> 'a list \<Rightarrow> 's \<Rightarrow> 's panicky" where
  "for_each f [] s = Some s"
| "for_each f (x # xs) s = do { s' \<leftarrow> f x s; for_each f xs s' }"

definition cow_entry :: "u64 \<Rightarrow> u64" where
  "cow_entry e = (if e AND PTE_WRITABLE \<noteq> 0 then (e AND NOT PTE_WRITABLE) OR PTE_COW else e)"

definition clone_pte :: "nat \<Rightarrow> nat \<Rightarrow> nat \<Rightarrow> vm_state \<Rightarrow> vm_state panicky" where
  "clone_pte parent_pt child_pt pti s =
     (let e = vm_mem s (pte_ptr parent_pt pti) in
      if e AND PTE_PRESENT = 0 then Some s
      else let s1 = (if e AND PTE_WRITABLE \<noteq> 0 then poke (pte_ptr parent_pt pti) (cow_entry e) s else s)
           in Some (poke (pte_ptr child_pt pti) (cow_entry e) s1))"

definition clone_pt :: "nat \<Rightarrow> nat \<Rightarrow> vm_state \<Rightarrow> vm_state panicky" where
  "clone_pt parent_pt child_pt = for_each (clone_pte parent_pt child_pt) [0..<TABLE_ENTRIES]"

definition clone_entry ::
  "platform \<Rightarrow> (nat \<Rightarrow> nat \<Rightarrow> vm_state \<Rightarrow> vm_state panicky) \<Rightarrow> nat \<Rightarrow> nat \<Rightarrow> nat \<Rightarrow> vm_state \<Rightarrow> vm_state panicky" where
  "clone_entry E inner parent child i s =
     (if vm_mem s (pte_ptr parent i) AND PTE_PRESENT = 0 then Some s
      else do {
        (t, s1) \<leftarrow> alloc_table E s;
        let s2 = poke (pte_ptr child i) (table_entry t) s1;
        inner (pte_addr_of (vm_mem s2 (pte_ptr parent i))) t s2 })"

definition clone_pd :: "platform \<Rightarrow> nat \<Rightarrow> nat \<Rightarrow> vm_state \<Rightarrow> vm_state panicky" where
  "clone_pd E parent_pd child_pd = for_each (clone_entry E clone_pt parent_pd child_pd) [0..<TABLE_ENTRIES]"

definition clone_pdpt :: "platform \<Rightarrow> nat \<Rightarrow> nat \<Rightarrow> vm_state \<Rightarrow> vm_state panicky" where
  "clone_pdpt E parent_pdpt child_pdpt = for_each (clone_entry E (clone_pd E) parent_pdpt child_pdpt) [0..<TABLE_ENTRIES]"

definition clone_pml4 :: "platform \<Rightarrow> nat \<Rightarrow> nat \<Rightarrow> vm_state \<Rightarrow> vm_state panicky" where
  "clone_pml4 E parent_cr3 child_cr3 = for_each (clone_entry E (clone_pdpt E) parent_cr3 child_cr3) [0..<TABLE_ENTRIES]"

definition clone_pml4_cow :: "platform \<Rightarrow> nat \<Rightarrow> vm_state \<Rightarrow> (nat \<times> vm_state) panicky" where
  "clone_pml4_cow E parent_cr3 s = do {
     (child_cr3, s1) \<leftarrow> alloc_table E s;
     s2 \<leftarrow> clone_pml4 E parent_cr3 child_cr3 s1;
     Some (child_cr3, s2) }"

declare tables.simps(2) [simp del]

subsection \<open>Pages drawn from the allocator\<close>

definition draws :: "platform \<Rightarrow> nat \<Rightarrow> pmm \<Rightarrow> pmm \<Rightarrow> bool" where
  "draws E n p p' \<longleftrightarrow> (\<exists>ps. alloc_seq (alloc_page E) n p = (Some ps, p'))"

definition dry :: "platform \<Rightarrow> nat \<Rightarrow> pmm \<Rightarrow> bool" where
  "dry E n p \<longleftrightarrow> fst (alloc_seq (alloc_page E) n p) = None"

lemma draws_0 [simp]: "draws E 0 p p' \<longleftrightarrow> p' = p"
  by (auto simp: draws_def)

lemma draws_Suc: "draws E (Suc n) p p' \<longleftrightarrow> (\<exists>f p1. alloc_page E p = (Some f, p1) \<and> draws E n p1 p')"
  by (auto simp: draws_def split: prod.splits option.splits)

lemma dry_Suc: "dry E (Suc n) p \<longleftrightarrow> (case alloc_page E p of (None, _) \<Rightarrow> True | (Some _, p1) \<Rightarrow> dry E n p1)"
  by (auto simp: dry_def split: prod.splits option.splits)

lemma dry_0 [simp]: "\<not> dry E 0 p"
  by (simp add: dry_def)

lemma draws_add: "draws E a p p1 \<Longrightarrow> draws E b p1 p2 \<Longrightarrow> draws E (a + b) p p2"
  by (induction a arbitrary: p) (auto simp: draws_Suc)

lemma dry_add: "dry E a p \<Longrightarrow> dry E (a + b) p" "draws E a p p1 \<Longrightarrow> dry E b p1 \<Longrightarrow> dry E (a + b) p"
proof -
  show "dry E a p \<Longrightarrow> dry E (a + b) p"
    by (induction a arbitrary: p) (auto simp: dry_Suc split: prod.splits option.splits)
  show "draws E a p p1 \<Longrightarrow> dry E b p1 \<Longrightarrow> dry E (a + b) p"
    by (induction a arbitrary: p) (auto simp: dry_Suc draws_Suc)
qed

lemma alloc_table_draws:
  "alloc_table E s = Some (t, s') \<Longrightarrow> draws E 1 (vm_pmm s) (vm_pmm s')"
  "alloc_table E s = None \<Longrightarrow> dry E 1 (vm_pmm s)"
  by (auto simp: alloc_table_def draws_Suc dry_Suc split: prod.splits option.splits)

fun table_count :: "nat \<Rightarrow> pmem \<Rightarrow> nat \<Rightarrow> nat" where
  "table_count 0 m t = 1"
| "table_count (Suc l) m t =
     1 + (\<Sum>i \<leftarrow> [0..<512]. if present (entry m t i) then table_count l m (below m t i) else 0)"

lemma table_count_pos: "0 < table_count l m t"
  by (cases l) auto

lemma table_count_cong: "same_on (tables l m t) m m' \<Longrightarrow> table_count l m' t = table_count l m t"
proof (induction l arbitrary: t)
  case (Suc l)
  have "(if present (entry m' t i) then table_count l m' (below m' t i) else 0) =
      (if present (entry m t i) then table_count l m (below m t i) else 0)" if "i < 512" for i
    using same_on_entry [OF Suc.prems _ that] Suc.IH [OF same_on_mono [OF Suc.prems]] below_subset [OF that] by auto
  then show ?case unfolding table_count.simps by (intro arg_cong [of _ _ "\<lambda>xs. 1 + sum_list xs"] map_cong) auto
qed simp

subsection \<open>The clone of a table and what is below it\<close>

lemma cow_entry_present [simp]: "present (cow_entry e) = present e"
proof -
  have "\<not> bit PTE_WRITABLE 0" "\<not> bit PTE_COW 0" by (simp_all add: PTE_WRITABLE_def PTE_COW_def)
  then have "bit ((e AND NOT PTE_WRITABLE) OR PTE_COW) 0 = bit e 0"
    unfolding bit_or_iff bit_and_iff bit_not_iff by simp
  then show ?thesis unfolding cow_entry_def present_bit by presburger
qed

definition clones :: "platform \<Rightarrow> nat \<Rightarrow> nat \<Rightarrow> nat \<Rightarrow> vm_state \<Rightarrow> nat set \<Rightarrow> vm_state \<Rightarrow> nat set \<Rightarrow> bool" where
  "clones E l p c s F s' F' \<longleftrightarrow> F' \<subseteq> F \<and> vm_ok E s' F' \<and>
     ptree l (vm_mem s') p \<and> tables l (vm_mem s') p = tables l (vm_mem s) p \<and>
     ptree l (vm_mem s') c \<and> tables l (vm_mem s') c = insert c (F - F') \<and>
     (\<forall>va. leaf l (vm_mem s') p va = map_option cow_entry (leaf l (vm_mem s) p va)) \<and>
     (\<forall>va. leaf l (vm_mem s') c va = map_option cow_entry (leaf l (vm_mem s) p va)) \<and>
     same_off (tables l (vm_mem s) p \<union> insert c (F - F')) (vm_mem s) (vm_mem s') \<and>
     vm_cr3 s' = vm_cr3 s \<and> vm_kernel_cr3 s' = vm_kernel_cr3 s"

definition clonable :: "platform \<Rightarrow> nat \<Rightarrow> nat \<Rightarrow> nat \<Rightarrow> vm_state \<Rightarrow> nat set \<Rightarrow> bool" where
  "clonable E l p c s F \<longleftrightarrow> ptree l (vm_mem s) p \<and> table_frame c \<and> (\<forall>i < 512. entry (vm_mem s) c i = 0) \<and>
     vm_ok E s F \<and> tables l (vm_mem s) p \<inter> insert c F = {} \<and> c \<notin> F"

definition clone_spec :: "platform \<Rightarrow> nat \<Rightarrow> (nat \<Rightarrow> nat \<Rightarrow> vm_state \<Rightarrow> vm_state panicky) \<Rightarrow> bool" where
  "clone_spec E l inner \<longleftrightarrow> (\<forall>p c s F. clonable E l p c s F \<longrightarrow>
     (case inner p c s of
        None \<Rightarrow> dry E (table_count l (vm_mem s) p - 1) (vm_pmm s)
      | Some s' \<Rightarrow> (\<exists>F'. clones E l p c s F s' F') \<and> draws E (table_count l (vm_mem s) p - 1) (vm_pmm s) (vm_pmm s')))"

text \<open>The state of a loop over the entries of \<open>p\<close>, after the entries below \<open>i\<close>.\<close>

definition clone_inv ::
  "platform \<Rightarrow> nat \<Rightarrow> nat \<Rightarrow> nat \<Rightarrow> vm_state \<Rightarrow> nat set \<Rightarrow> nat \<Rightarrow> vm_state \<Rightarrow> nat set \<Rightarrow> bool" where
  "clone_inv E l p c s0 F0 i s F \<longleftrightarrow> F \<subseteq> F0 \<and> vm_ok E s F \<and>
     ptree (Suc l) (vm_mem s) p \<and> tables (Suc l) (vm_mem s) p = tables (Suc l) (vm_mem s0) p \<and>
     ptree (Suc l) (vm_mem s) c \<and> tables (Suc l) (vm_mem s) c = insert c (F0 - F) \<and>
     (\<forall>j < 512. entry (vm_mem s) p j = entry (vm_mem s0) p j) \<and>
     (\<forall>j < 512. i \<le> j \<longrightarrow> entry (vm_mem s) c j = 0) \<and>
     (\<forall>j < 512. i \<le> j \<longrightarrow> present (entry (vm_mem s0) p j) \<longrightarrow>
        same_on (tables l (vm_mem s0) (below (vm_mem s0) p j)) (vm_mem s0) (vm_mem s)) \<and>
     (\<forall>va. leaf (Suc l) (vm_mem s) p va = (if lidx (Suc l) va < i then map_option cow_entry else id) (leaf (Suc l) (vm_mem s0) p va)) \<and>
     (\<forall>va. leaf (Suc l) (vm_mem s) c va = (if lidx (Suc l) va < i then map_option cow_entry (leaf (Suc l) (vm_mem s0) p va) else None)) \<and>
     same_off (tables (Suc l) (vm_mem s0) p \<union> insert c (F0 - F)) (vm_mem s0) (vm_mem s) \<and>
     vm_cr3 s = vm_cr3 s0 \<and> vm_kernel_cr3 s = vm_kernel_cr3 s0"

lemma clone_invD:
  assumes "clone_inv E l p c s0 F0 i s F"
  shows "F \<subseteq> F0" "vm_ok E s F" "ptree (Suc l) (vm_mem s) p" "tables (Suc l) (vm_mem s) p = tables (Suc l) (vm_mem s0) p"
    "ptree (Suc l) (vm_mem s) c" "tables (Suc l) (vm_mem s) c = insert c (F0 - F)"
    "\<And>j. j < 512 \<Longrightarrow> entry (vm_mem s) p j = entry (vm_mem s0) p j"
    "\<And>j. j < 512 \<Longrightarrow> i \<le> j \<Longrightarrow> entry (vm_mem s) c j = 0"
    "\<And>j. j < 512 \<Longrightarrow> i \<le> j \<Longrightarrow> present (entry (vm_mem s0) p j) \<Longrightarrow>
        same_on (tables l (vm_mem s0) (below (vm_mem s0) p j)) (vm_mem s0) (vm_mem s)"
    "\<And>va. leaf (Suc l) (vm_mem s) p va = (if lidx (Suc l) va < i then map_option cow_entry else id) (leaf (Suc l) (vm_mem s0) p va)"
    "\<And>va. leaf (Suc l) (vm_mem s) c va = (if lidx (Suc l) va < i then map_option cow_entry (leaf (Suc l) (vm_mem s0) p va) else None)"
    "same_off (tables (Suc l) (vm_mem s0) p \<union> insert c (F0 - F)) (vm_mem s0) (vm_mem s)"
    "vm_cr3 s = vm_cr3 s0" "vm_kernel_cr3 s = vm_kernel_cr3 s0"
  using assms unfolding clone_inv_def by blast+

lemma clonesD:
  assumes "clones E l p c s F s' F'"
  shows "F' \<subseteq> F" "vm_ok E s' F'" "ptree l (vm_mem s') p" "tables l (vm_mem s') p = tables l (vm_mem s) p"
    "ptree l (vm_mem s') c" "tables l (vm_mem s') c = insert c (F - F')"
    "\<And>va. leaf l (vm_mem s') p va = map_option cow_entry (leaf l (vm_mem s) p va)"
    "\<And>va. leaf l (vm_mem s') c va = map_option cow_entry (leaf l (vm_mem s) p va)"
    "same_off (tables l (vm_mem s) p \<union> insert c (F - F')) (vm_mem s) (vm_mem s')"
    "vm_cr3 s' = vm_cr3 s" "vm_kernel_cr3 s' = vm_kernel_cr3 s"
  using assms unfolding clones_def by blast+

lemma clone_inv_start:
  assumes "clonable E (Suc l) p c s F"
  shows "clone_inv E l p c s F 0 s F"
proof -
  have A: "ptree (Suc l) (vm_mem s) p" "table_frame c" "\<forall>i < 512. entry (vm_mem s) c i = 0" "vm_ok E s F"
    using assms by (auto simp: clonable_def)
  note z = zero_table [OF A(2,3), of "Suc l"]
  show ?thesis using A z unfolding clone_inv_def by (simp add: same_on_def same_off_def)
qed

lemma clone_inv_end:
  assumes "clone_inv E l p c s F 512 s' F'"
  shows "clones E (Suc l) p c s F s' F'"
  using clone_invD [OF assms] unfolding clones_def by simp

text \<open>An entry that is not present is passed over.\<close>

lemma clone_inv_skip:
  assumes inv: "clone_inv E l p c s0 F0 i s F" and i: "i < 512" "\<not> present (entry (vm_mem s) p i)"
  shows "clone_inv E l p c s0 F0 (Suc i) s F"
proof -
  note d = clone_invD [OF inv]
  have np: "\<not> present (entry (vm_mem s0) p i)" using i d(7) by simp
  have n: "leaf (Suc l) (vm_mem s0) p va = None" if "lidx (Suc l) va = i" for va
    using np that by (simp add: leaf_def)
  have "leaf (Suc l) (vm_mem s) p va = (if lidx (Suc l) va < Suc i then map_option cow_entry else id) (leaf (Suc l) (vm_mem s0) p va)" for va
    using d(10) [of va] n [of va] by (auto simp: less_Suc_eq)
  moreover have "leaf (Suc l) (vm_mem s) c va = (if lidx (Suc l) va < Suc i then map_option cow_entry (leaf (Suc l) (vm_mem s0) p va) else None)" for va
    using d(11) [of va] n [of va] by (auto simp: less_Suc_eq)
  ultimately show ?thesis using d unfolding clone_inv_def by (simp add: Suc_le_eq)
qed

lemma off_cells:
  assumes "\<forall>a. a \<notin> cells W \<longrightarrow> a \<noteq> c + 8 * i \<longrightarrow> m' a = m a" "\<forall>x \<in> W. table_frame x" "table_frame c" "i < 512"
    and "S \<inter> insert c W = {}" "\<forall>x \<in> S. table_frame x"
  shows "same_on S m m'"
proof -
  have "same_off (insert c W) m m'"
    using assms(1,4) by (auto simp: same_off_def cells_def PAGE_SIZE_def)
  then show ?thesis by (rule same_off_on) (use assms(2,3,5,6) in auto)
qed

text \<open>A present entry: the new table is ready to receive the clone of the table below.\<close>

lemma clone_ready:
  assumes inv: "clone_inv E l p c s0 F0 i s F" and C0: "clonable E (Suc l) p c s0 F0"
    and i: "i < 512" "present (entry (vm_mem s) p i)"
    and run: "alloc_table E s = Some (t, s1)" and s2: "s2 = poke (c + 8 * i) (table_entry t) s1"
  shows "clonable E l (below (vm_mem s) p i) t s2 (F - {t})"
    and "\<forall>a. a \<notin> cells {t} \<longrightarrow> a \<noteq> c + 8 * i \<longrightarrow> vm_mem s2 a = vm_mem s a"
    and "same_on (tables (Suc l) (vm_mem s) p) (vm_mem s) (vm_mem s2)"
    and "vm_cr3 s2 = vm_cr3 s" "vm_kernel_cr3 s2 = vm_kernel_cr3 s" "t \<in> F" "table_frame t"
proof -
  note d = clone_invD [OF inv] and a = alloc_table_ok [OF run clone_invD(2) [OF inv]]
  have C: "tables (Suc l) (vm_mem s0) p \<inter> insert c F0 = {}" "c \<notin> F0" "table_frame c"
    using C0 by (auto simp: clonable_def)
  have tc: "t \<noteq> c" using a(1) d(1) C(2) by auto
  have pt: "tables (Suc l) (vm_mem s) p \<inter> insert c F = {}" using C(1) d(1,4) by blast
  show off: "\<forall>x. x \<notin> cells {t} \<longrightarrow> x \<noteq> c + 8 * i \<longrightarrow> vm_mem s2 x = vm_mem s x"
    using a(7) s2 by (auto simp: same_off_def)
  have "tables (Suc l) (vm_mem s) p \<inter> insert c {t} = {}" using pt a(1) by blast
  then show on: "same_on (tables (Suc l) (vm_mem s) p) (vm_mem s) (vm_mem s2)"
    using a(2) C(3) i(1) tables_frames [OF d(3)] by (intro off_cells [OF off]) blast+
  show "vm_cr3 s2 = vm_cr3 s" "vm_kernel_cr3 s2 = vm_kernel_cr3 s" "t \<in> F" "table_frame t" using a s2 by simp_all
  have sub: "tables l (vm_mem s) (below (vm_mem s) p i) \<subseteq> tables (Suc l) (vm_mem s) p"
    using i by (rule below_subset)
  note cong = tree_cong [OF same_on_mono [OF on sub]]
  have "entry (vm_mem s2) t j = 0" if "j < 512" for j
  proof -
    have "t + 8 * j \<noteq> c + 8 * i"
      using same_frame [of t c "t + 8 * j"] a(2) C(3) tc that i(1) by (auto simp: PAGE_SIZE_def)
    then show ?thesis using a(8) that s2 by simp
  qed
  moreover have "ptree l (vm_mem s2) (below (vm_mem s) p i)" using cong(2) d(3) i by simp
  moreover have "tables l (vm_mem s2) (below (vm_mem s) p i) \<inter> insert t (F - {t}) = {}"
    using cong(1) sub pt a(1) by blast
  ultimately show "clonable E l (below (vm_mem s) p i) t s2 (F - {t})"
    using a(2,3) s2 unfolding clonable_def by simp
qed

text \<open>
  The step of the loop at a present entry, from \<open>s\<close> to \<open>s'\<close>: the new table \<open>t\<close> is linked and
  the table below the entry is cloned into it.
\<close>

definition clone_at :: "platform \<Rightarrow> nat \<Rightarrow> nat \<Rightarrow> nat \<Rightarrow> vm_state \<Rightarrow> nat set \<Rightarrow> nat \<Rightarrow> vm_state \<Rightarrow> nat set \<Rightarrow>
    nat \<Rightarrow> vm_state \<Rightarrow> nat set \<Rightarrow> bool" where
  "clone_at E l p c s0 F0 i s F t s' F' \<longleftrightarrow> clone_inv E l p c s0 F0 i s F \<and> clonable E (Suc l) p c s0 F0 \<and>
     i < 512 \<and> present (entry (vm_mem s) p i) \<and>
     (\<exists>s1. alloc_table E s = Some (t, s1) \<and>
        clones E l (below (vm_mem s) p i) t (poke (c + 8 * i) (table_entry t) s1) (F - {t}) s' F')"

abbreviation touched :: "nat \<Rightarrow> vm_state \<Rightarrow> nat \<Rightarrow> nat \<Rightarrow> nat set \<Rightarrow> nat set \<Rightarrow> nat set" where
  "touched l s p i F F' \<equiv> tables l (vm_mem s) (below (vm_mem s) p i) \<union> (F - F')"

lemma clone_at_touched:
  assumes "clone_at E l p c s0 F0 i s F t s' F'"
  shows "F' \<subseteq> F" "vm_ok E s' F'" "\<forall>x \<in> touched l s p i F F'. table_frame x" "c \<notin> touched l s p i F F'"
    "\<forall>a. a \<notin> cells (touched l s p i F F') \<longrightarrow> a \<noteq> c + 8 * i \<longrightarrow> vm_mem s' a = vm_mem s a"
    "entry (vm_mem s') c i = table_entry t" "table_frame t"
    "ptree l (vm_mem s') (below (vm_mem s) p i)" "tables l (vm_mem s') (below (vm_mem s) p i) = tables l (vm_mem s) (below (vm_mem s) p i)"
    "ptree l (vm_mem s') t" "tables l (vm_mem s') t = F - F'"
    "\<And>va. leaf l (vm_mem s') (below (vm_mem s) p i) va = map_option cow_entry (leaf l (vm_mem s) (below (vm_mem s) p i) va)"
    "\<And>va. leaf l (vm_mem s') t va = map_option cow_entry (leaf l (vm_mem s) (below (vm_mem s) p i) va)"
    "vm_cr3 s' = vm_cr3 s" "vm_kernel_cr3 s' = vm_kernel_cr3 s"
proof -
  let ?m = "vm_mem s" and ?m' = "vm_mem s'" and ?q = "below (vm_mem s) p i" and ?W = "touched l s p i F F'"
  from assms obtain s1 where inv: "clone_inv E l p c s0 F0 i s F" and C0: "clonable E (Suc l) p c s0 F0"
    and i: "i < 512" "present (entry ?m p i)" and run: "alloc_table E s = Some (t, s1)"
    and cl: "clones E l ?q t (poke (c + 8 * i) (table_entry t) s1) (F - {t}) s' F'"
    unfolding clone_at_def by blast
  define s2 where "s2 = poke (c + 8 * i) (table_entry t) s1"
  note d = clone_invD [OF inv] and r = clone_ready [OF inv C0 i run s2_def] and k = clonesD [OF cl [folded s2_def]]
  have sub: "tables l ?m ?q \<subseteq> tables (Suc l) ?m p" using i by (rule below_subset)
  note on = same_on_mono [OF r(3) sub]
  note cq = tree_cong [OF on]
  have lq: "leaf l (vm_mem s2) ?q va = leaf l ?m ?q va" for va using leaf_cong [OF _ on] d(3) i by simp
  have Fr: "insert t (F - {t} - F') = F - F'" using r(6) k(1) by auto
  have C: "tables (Suc l) ?m p \<inter> insert c F0 = {}" "c \<notin> F0" "table_frame c" using C0 d(4) by (auto simp: clonable_def)
  show "F' \<subseteq> F" "vm_ok E s' F'" "table_frame t" "vm_cr3 s' = vm_cr3 s" "vm_kernel_cr3 s' = vm_kernel_cr3 s"
    "ptree l ?m' ?q" "tables l ?m' ?q = tables l ?m ?q" "ptree l ?m' t" "tables l ?m' t = F - F'"
    "\<And>va. leaf l ?m' ?q va = map_option cow_entry (leaf l ?m ?q va)" "\<And>va. leaf l ?m' t va = map_option cow_entry (leaf l ?m ?q va)"
    using k r cq lq Fr by auto
  show fr: "\<forall>x \<in> ?W. table_frame x" using tables_frames [OF d(3)] sub d(2) unfolding vm_ok_def by blast
  show cW: "c \<notin> ?W" using C(1,2) d(1) sub by blast
  have off2: "?m' a = vm_mem s2 a" if "a \<notin> cells ?W" for a
    using k(9) that unfolding cq(1) Fr by (simp add: same_off_def)
  have "c + 8 * i \<notin> cells ?W" using cells_frame_iff [OF C(3) i(1) fr] cW by simp
  then show "entry ?m' c i = table_entry t" using off2 by (simp add: s2_def)
  have "a \<notin> cells {t}" if "a \<notin> cells ?W" for a using that r(6) Fr by (auto simp: cells_def)
  then show "\<forall>a. a \<notin> cells ?W \<longrightarrow> a \<noteq> c + 8 * i \<longrightarrow> ?m' a = ?m a" using off2 r(2) by simp
qed

lemma clone_at_parent:
  assumes at: "clone_at E l p c s0 F0 i s F t s' F'"
  shows "ptree (Suc l) (vm_mem s') p" "tables (Suc l) (vm_mem s') p = tables (Suc l) (vm_mem s) p"
    "\<And>j. j < 512 \<Longrightarrow> entry (vm_mem s') p j = entry (vm_mem s) p j"
    "same_on (others l (vm_mem s) p i) (vm_mem s) (vm_mem s')"
    "leaf (Suc l) (vm_mem s') p va =
       (if lidx (Suc l) va = i then map_option cow_entry else id) (leaf (Suc l) (vm_mem s) p va)"
proof -
  let ?m = "vm_mem s" and ?m' = "vm_mem s'" and ?q = "below (vm_mem s) p i" and ?W = "insert c (touched l s p i F F')"
  note w = clone_at_touched [OF at]
  have inv: "clone_inv E l p c s0 F0 i s F" and C0: "clonable E (Suc l) p c s0 F0"
    and i: "i < 512" "present (entry ?m p i)" using at unfolding clone_at_def by blast+
  note d = clone_invD [OF inv] and odp = others_disjoint [OF clone_invD(3) [OF inv] i(1)]
  have C: "tables (Suc l) ?m p \<inter> insert c F0 = {}" "table_frame c" "table_frame p" using C0 d(4) by (auto simp: clonable_def)
  have po: "tables (Suc l) ?m p = insert p (others l ?m p i \<union> tables l ?m ?q)" using tables_others [OF i(1)] i(2) by simp
  have W: "p \<notin> ?W" "?W \<inter> others l ?m p i = {}" "\<forall>x \<in> ?W. table_frame x"
    using odp(2,3) i(2) C(1,2) d(1) w(3) unfolding po by blast+
  have off: "same_off ?W ?m ?m'" using w(5) i(1) by (auto simp: same_off_def cells_def PAGE_SIZE_def)
  show e: "entry ?m' p j = entry ?m p j" if "j < 512" for j
    using off cells_frame_iff [OF C(3) that W(3)] W(1) by (simp add: same_off_def)
  show "same_on (others l ?m p i) ?m ?m'" by (rule same_off_on [OF off W(2,3)]) (rule odp(4))
  have sub: "present (entry ?m' p i)" "ptree l ?m' (below ?m' p i)" "tables l ?m' (below ?m' p i) \<subseteq> ?W"
    using e [OF i(1)] i(2) w(8,9) by auto
  have off': "\<forall>a. a \<notin> cells ?W \<longrightarrow> a \<noteq> p + 8 * i \<longrightarrow> ?m' a = ?m a" using off by (simp add: same_off_def)
  note P = subtree_change [OF d(3) i(1) W off' sub, unfolded e [OF i(1)]]
  show "ptree (Suc l) ?m' p" by (rule P(1))
  show "tables (Suc l) ?m' p = tables (Suc l) ?m p" using P(3) w(9) po by simp
  show "leaf (Suc l) ?m' p va = (if lidx (Suc l) va = i then map_option cow_entry else id) (leaf (Suc l) ?m p va)"
  proof (cases "lidx (Suc l) va = i")
    case True
    then have "leaf (Suc l) ?m p va = leaf l ?m ?q va" using i(2) by (simp add: leaf_def)
    then show ?thesis using P(4) [OF True] w(12) True by simp
  qed (use P(5) in simp)
qed

lemma clone_at_child:
  assumes at: "clone_at E l p c s0 F0 i s F t s' F'"
  shows "ptree (Suc l) (vm_mem s') c" "tables (Suc l) (vm_mem s') c = insert c (F0 - F')"
    "\<And>j. j < 512 \<Longrightarrow> j \<noteq> i \<Longrightarrow> entry (vm_mem s') c j = entry (vm_mem s) c j"
    "leaf (Suc l) (vm_mem s') c va =
       (if lidx (Suc l) va = i then map_option cow_entry (leaf (Suc l) (vm_mem s) p va) else leaf (Suc l) (vm_mem s) c va)"
proof -
  let ?m = "vm_mem s" and ?m' = "vm_mem s'" and ?q = "below (vm_mem s) p i" and ?W = "touched l s p i F F'"
  note w = clone_at_touched [OF at]
  have inv: "clone_inv E l p c s0 F0 i s F" and C0: "clonable E (Suc l) p c s0 F0"
    and i: "i < 512" "present (entry ?m p i)" using at unfolding clone_at_def by blast+
  note d = clone_invD [OF inv]
  have C: "tables (Suc l) ?m p \<inter> insert c F0 = {}" "c \<notin> F0" "table_frame c" using C0 d(4) by (auto simp: clonable_def)
  have q: "tables l ?m ?q \<subseteq> tables (Suc l) ?m p" using i by (rule below_subset)
  show "entry ?m' c j = entry ?m c j" if "j < 512" "j \<noteq> i" for j
    using w(5) cells_frame_iff [OF C(3) that(1) w(3)] w(4) that(2) by simp
  have co: "tables (Suc l) ?m c = insert c (others l ?m c i)" using tables_others [OF i(1)] d(8) [OF i(1)] by simp
  have "c \<notin> others l ?m c i" using others_disjoint(1) [OF d(5) i(1)] .
  then have oc: "others l ?m c i = F0 - F" using d(6) co C(2) by (metis Diff_iff insert_ident)
  have W: "?W \<inter> others l ?m c i = {}" using oc q C(1) by blast
  have b: "below ?m' c i = t" using w(6,7) by simp
  have sub: "present (entry ?m' c i)" "ptree l ?m' (below ?m' c i)" "tables l ?m' (below ?m' c i) \<subseteq> ?W"
    using w(6,7,10,11) by auto
  note Q = subtree_change [OF d(5) i(1) w(4) W w(3,5) sub, unfolded b]
  show "ptree (Suc l) ?m' c" by (rule Q(1))
  have "(F0 - F) \<union> (F - F') = F0 - F'" using w(1) d(1) by blast
  then show "tables (Suc l) ?m' c = insert c (F0 - F')" using Q(3) w(11) oc by simp
  show "leaf (Suc l) ?m' c va =
       (if lidx (Suc l) va = i then map_option cow_entry (leaf (Suc l) ?m p va) else leaf (Suc l) ?m c va)"
  proof (cases "lidx (Suc l) va = i")
    case True
    then have "leaf (Suc l) ?m p va = leaf l ?m ?q va" using i(2) by (simp add: leaf_def)
    then show ?thesis using Q(4) [OF True] w(13) True by simp
  qed (use Q(5) in simp)
qed

text \<open>When the clone below is done, the loop has passed the entry.\<close>

lemma clone_passed:
  assumes at: "clone_at E l p c s0 F0 i s F t s' F'"
  shows "clone_inv E l p c s0 F0 (Suc i) s' F'"
proof -
  let ?o = "vm_mem s0" and ?m = "vm_mem s" and ?m' = "vm_mem s'"
  note w = clone_at_touched [OF at] and P = clone_at_parent [OF at] and Q = clone_at_child [OF at]
  have inv: "clone_inv E l p c s0 F0 i s F" and i: "i < 512" "present (entry ?m p i)" using at unfolding clone_at_def by blast+
  note d = clone_invD [OF inv]
  have "same_on (tables l ?o (below ?o p j)) ?o ?m'"
    if j: "j < 512" "Suc i \<le> j" "present (entry ?o p j)" for j
  proof -
    have m: "same_on (tables l ?o (below ?o p j)) ?o ?m" using d(9) j by simp
    have "tables l ?o (below ?o p j) = tables l ?m (below ?m p j)" using tree_cong(1) [OF m] d(7) [OF j(1)] by simp
    then have "tables l ?o (below ?o p j) \<subseteq> others l ?m p i" using j d(7) by (auto simp: others_def)
    then show ?thesis by (rule same_on_trans [OF m same_on_mono [OF P(4)]])
  qed
  moreover have "leaf (Suc l) ?m' p va = (if lidx (Suc l) va < Suc i then map_option cow_entry else id) (leaf (Suc l) ?o p va)"
    "leaf (Suc l) ?m' c va = (if lidx (Suc l) va < Suc i then map_option cow_entry (leaf (Suc l) ?o p va) else None)" for va
    using P(5) [of va] Q(4) [of va] d(10,11) [of va] by (auto simp: less_Suc_eq)
  moreover have "same_off (tables (Suc l) ?o p \<union> insert c (F0 - F')) ?o ?m'"
  proof (rule same_off_trans [OF same_off_mono [OF d(12)]])
    show "tables (Suc l) ?o p \<union> insert c (F0 - F) \<subseteq> tables (Suc l) ?o p \<union> insert c (F0 - F')" using w(1) by blast
    have "same_off (insert c (touched l s p i F F')) ?m ?m'"
      using w(5) i(1) by (auto simp: same_off_def cells_def PAGE_SIZE_def)
    moreover have "tables l ?m (below ?m p i) \<subseteq> tables (Suc l) ?m p" using i by (rule below_subset)
    ultimately show "same_off (tables (Suc l) ?o p \<union> insert c (F0 - F')) ?m ?m'"
      using d(1,4) by (elim same_off_mono) blast
  qed
  ultimately show ?thesis
    using w(1,2,14,15) d(1,4,7,8,13,14) P(1-3) Q(1-3) unfolding clone_inv_def by auto
qed

subsection \<open>The loops\<close>

definition entry_count :: "nat \<Rightarrow> pmem \<Rightarrow> nat \<Rightarrow> nat \<Rightarrow> nat" where
  "entry_count l m p i = (if present (entry m p i) then table_count l m (below m p i) else 0)"

lemma clone_entry_step:
  assumes spec: "clone_spec E l inner" and inv: "clone_inv E l p c s0 F0 i s F"
    and C0: "clonable E (Suc l) p c s0 F0" and i: "i < 512"
  shows "case clone_entry E inner p c i s of
      None \<Rightarrow> dry E (entry_count l (vm_mem s0) p i) (vm_pmm s)
    | Some s' \<Rightarrow> (\<exists>F'. clone_inv E l p c s0 F0 (Suc i) s' F') \<and>
        draws E (entry_count l (vm_mem s0) p i) (vm_pmm s) (vm_pmm s')"
proof -
  note d = clone_invD [OF inv]
  have fr: "table_frame p" "table_frame c" using C0 by (auto simp: clonable_def)
  have e: "entry (vm_mem s) p i = entry (vm_mem s0) p i" using d(7) [OF i] .
  show ?thesis
  proof (cases "present (entry (vm_mem s) p i)")
    case False
    then have "clone_entry E inner p c i s = Some s"
      by (simp add: clone_entry_def pte_ptr_frame [OF fr(1) i] present_def)
    moreover have "entry_count l (vm_mem s0) p i = 0" using False e by (simp add: entry_count_def)
    ultimately show ?thesis using clone_inv_skip [OF inv i False] by auto
  next
    case True
    have "same_on (tables l (vm_mem s0) (below (vm_mem s0) p i)) (vm_mem s0) (vm_mem s)"
      using d(9) [OF i] True e by simp
    then have n: "entry_count l (vm_mem s0) p i = table_count l (vm_mem s) (below (vm_mem s) p i)"
      using True e table_count_cong by (simp add: entry_count_def)
    obtain k where k: "table_count l (vm_mem s) (below (vm_mem s) p i) = Suc k"
      using table_count_pos gr0_implies_Suc by blast
    show ?thesis
    proof (cases "alloc_table E s")
      case None
      then have "clone_entry E inner p c i s = None"
        using True by (simp add: clone_entry_def pte_ptr_frame [OF fr(1) i] present_def)
      moreover have "dry E (1 + k) (vm_pmm s)" using dry_add(1) alloc_table_draws(2) [OF None] by blast
      ultimately show ?thesis using n k by simp
    next
      case (Some r)
      obtain t s1 where r: "alloc_table E s = Some (t, s1)" using Some by (cases r) auto
      define s2 where "s2 = poke (c + 8 * i) (table_entry t) s1"
      have rd: "clonable E l (below (vm_mem s) p i) t s2 (F - {t})"
        "same_on (tables (Suc l) (vm_mem s) p) (vm_mem s) (vm_mem s2)"
        using clone_ready(1,3) [OF inv C0 i True r s2_def] by auto
      have e2: "entry (vm_mem s2) p i = entry (vm_mem s) p i" using same_on_entry [OF rd(2) tables_root i] .
      have run: "clone_entry E inner p c i s = inner (below (vm_mem s) p i) t s2"
        using True r e2 unfolding s2_def
        by (simp add: clone_entry_def pte_ptr_frame [OF fr(1) i] pte_ptr_frame [OF fr(2) i] present_def)
      have "tables l (vm_mem s) (below (vm_mem s) p i) \<subseteq> tables (Suc l) (vm_mem s) p" using i True by (rule below_subset)
      then have "table_count l (vm_mem s2) (below (vm_mem s) p i) = Suc k"
        using table_count_cong [OF same_on_mono [OF rd(2)]] k by simp
      then have in_spec: "case inner (below (vm_mem s) p i) t s2 of None \<Rightarrow> dry E k (vm_pmm s2)
          | Some s' \<Rightarrow> (\<exists>F'. clones E l (below (vm_mem s) p i) t s2 (F - {t}) s' F') \<and> draws E k (vm_pmm s2) (vm_pmm s')"
        using spec [unfolded clone_spec_def, rule_format, OF rd(1)] by (auto split: option.splits)
      have dr: "draws E 1 (vm_pmm s) (vm_pmm s2)" using alloc_table_draws(1) [OF r] by (simp add: s2_def)
      have passed: "clone_inv E l p c s0 F0 (Suc i) s' F'"
        if "clones E l (below (vm_mem s) p i) t s2 (F - {t}) s' F'" for s' F'
        using inv C0 i True r that unfolding s2_def by (intro clone_passed) (auto simp: clone_at_def)
      show ?thesis
      proof (cases "inner (below (vm_mem s) p i) t s2")
        case None
        then show ?thesis using in_spec run dry_add(2) [OF dr, of k] n k by simp
      next
        case (Some s')
        then show ?thesis
          using in_spec run passed draws_add [OF dr, of k] n k by auto
      qed
    qed
  qed
qed

lemma clone_loop:
  assumes spec: "clone_spec E l inner" and C0: "clonable E (Suc l) p c s0 F0"
  shows "i \<le> 512 \<Longrightarrow> clone_inv E l p c s0 F0 i s F \<Longrightarrow>
    case for_each (clone_entry E inner p c) [i..<512] s of
      None \<Rightarrow> dry E (\<Sum>j \<leftarrow> [i..<512]. entry_count l (vm_mem s0) p j) (vm_pmm s)
    | Some s' \<Rightarrow> (\<exists>F'. clone_inv E l p c s0 F0 512 s' F') \<and>
        draws E (\<Sum>j \<leftarrow> [i..<512]. entry_count l (vm_mem s0) p j) (vm_pmm s) (vm_pmm s')"
proof (induction "512 - i" arbitrary: i s F)
  case 0
  then show ?case by auto
next
  case (Suc n)
  then have i: "i < 512" by simp
  let ?k = "entry_count l (vm_mem s0) p i" and ?r = "\<Sum>j \<leftarrow> [Suc i..<512]. entry_count l (vm_mem s0) p j"
  have l: "[i..<512] = i # [Suc i..<512]" using i by (rule upt_conv_Cons)
  note st = clone_entry_step [OF spec Suc.prems(2) C0 i]
  show ?case
  proof (cases "clone_entry E inner p c i s")
    case None
    then have "dry E (?k + ?r) (vm_pmm s)" using st dry_add(1) by auto
    then show ?thesis using None l by simp
  next
    case (Some s1)
    then obtain F1 where F1: "clone_inv E l p c s0 F0 (Suc i) s1 F1" "draws E ?k (vm_pmm s) (vm_pmm s1)"
      using st by auto
    have "n = 512 - Suc i" using Suc.hyps(2) by simp
    from Suc.hyps(1) [OF this _ F1(1)] i show ?thesis
      using Some l dry_add(2) [OF F1(2)] draws_add [OF F1(2)] by (auto split: option.splits)
  qed
qed

lemma clone_level:
  assumes "clone_spec E l inner"
  shows "clone_spec E (Suc l) (\<lambda>p c. for_each (clone_entry E inner p c) [0..<TABLE_ENTRIES])"
  unfolding clone_spec_def
proof (intro allI impI)
  fix p c s F assume C: "clonable E (Suc l) p c s F"
  have "table_count (Suc l) (vm_mem s) p - 1 = (\<Sum>j \<leftarrow> [0..<512]. entry_count l (vm_mem s) p j)"
    by (simp add: entry_count_def [abs_def])
  then show "case for_each (clone_entry E inner p c) [0..<TABLE_ENTRIES] s of
      None \<Rightarrow> dry E (table_count (Suc l) (vm_mem s) p - 1) (vm_pmm s)
    | Some s' \<Rightarrow> (\<exists>F'. clones E (Suc l) p c s F s' F') \<and> draws E (table_count (Suc l) (vm_mem s) p - 1) (vm_pmm s) (vm_pmm s')"
    using clone_loop [OF assms C _ clone_inv_start [OF C]] clone_inv_end unfolding TABLE_ENTRIES_def
    by (fastforce split: option.splits)
qed

text \<open>The innermost loop copies the leaf entries and draws no page.\<close>

definition pt_inv :: "nat \<Rightarrow> nat \<Rightarrow> vm_state \<Rightarrow> nat \<Rightarrow> vm_state \<Rightarrow> bool" where
  "pt_inv p c s0 i s \<longleftrightarrow> vm_pmm s = vm_pmm s0 \<and> vm_cr3 s = vm_cr3 s0 \<and> vm_kernel_cr3 s = vm_kernel_cr3 s0 \<and>
     (\<forall>j < 512. let e = entry (vm_mem s0) p j in
        entry (vm_mem s) p j = (if j < i \<and> present e then cow_entry e else e) \<and>
        entry (vm_mem s) c j = (if j < i \<and> present e then cow_entry e else 0)) \<and>
     same_off {p, c} (vm_mem s0) (vm_mem s)"

lemma clone_pte_step:
  assumes fr: "table_frame p" "table_frame c" "p \<noteq> c" and inv: "pt_inv p c s0 i s" and i: "i < 512"
  shows "\<exists>s'. clone_pte p c i s = Some s' \<and> pt_inv p c s0 (Suc i) s'"
proof -
  let ?e = "entry (vm_mem s0) p i"
  have e: "vm_mem s (p + 8 * i) = ?e" using inv i by (simp add: pt_inv_def Let_def)
  have ne: "p + 8 * j \<noteq> c + 8 * k" if "j < 512" "k < 512" for j k
    using same_frame [of p c "p + 8 * j"] fr that by (auto simp: PAGE_SIZE_def)
  show ?thesis
  proof (cases "present ?e")
    case False
    then have "clone_pte p c i s = Some s"
      using e by (simp add: clone_pte_def pte_ptr_frame [OF fr(1) i] present_def Let_def)
    then show ?thesis using inv False by (auto simp: pt_inv_def Let_def less_Suc_eq)
  next
    case True
    let ?s1 = "if ?e AND PTE_WRITABLE \<noteq> 0 then poke (p + 8 * i) (cow_entry ?e) s else s"
    let ?s' = "poke (c + 8 * i) (cow_entry ?e) ?s1"
    have "clone_pte p c i s = Some ?s'"
      using True e
      by (simp add: clone_pte_def pte_ptr_frame [OF fr(1) i] pte_ptr_frame [OF fr(2) i] present_def Let_def)
    moreover have p1: "vm_mem ?s1 = (vm_mem s)(p + 8 * i := cow_entry ?e)"
      using e by (auto simp: cow_entry_def fun_eq_iff)
    have "pt_inv p c s0 (Suc i) ?s'"
      unfolding pt_inv_def Let_def
    proof (intro conjI allI impI)
      show "vm_pmm ?s' = vm_pmm s0" "vm_cr3 ?s' = vm_cr3 s0" "vm_kernel_cr3 ?s' = vm_kernel_cr3 s0"
        using inv by (auto simp: pt_inv_def)
      fix j :: nat assume j: "j < 512"
      show "entry (vm_mem ?s') p j = (if j < Suc i \<and> present (entry (vm_mem s0) p j) then cow_entry (entry (vm_mem s0) p j) else entry (vm_mem s0) p j)"
        using inv j True ne [OF j i] unfolding poke_simps p1 by (auto simp: pt_inv_def Let_def less_Suc_eq)
      show "entry (vm_mem ?s') c j = (if j < Suc i \<and> present (entry (vm_mem s0) p j) then cow_entry (entry (vm_mem s0) p j) else 0)"
        using inv j True ne [OF i j] unfolding poke_simps p1 by (auto simp: pt_inv_def Let_def less_Suc_eq)
    next
      have "same_off {p, c} (vm_mem s) (vm_mem ?s')"
        using i unfolding poke_simps p1 by (auto simp: same_off_def cells_def PAGE_SIZE_def)
      then show "same_off {p, c} (vm_mem s0) (vm_mem ?s')"
        using inv same_off_trans unfolding pt_inv_def by blast
    qed
    ultimately show ?thesis by blast
  qed
qed

lemma clone_pt_loop:
  assumes "table_frame p" "table_frame c" "p \<noteq> c"
  shows "i \<le> 512 \<Longrightarrow> pt_inv p c s0 i s \<Longrightarrow> \<exists>s'. for_each (clone_pte p c) [i..<512] s = Some s' \<and> pt_inv p c s0 512 s'"
proof (induction "512 - i" arbitrary: i s)
  case (Suc n)
  then have i: "i < 512" by simp
  obtain s1 where s1: "clone_pte p c i s = Some s1" "pt_inv p c s0 (Suc i) s1"
    using clone_pte_step [OF assms Suc.prems(2) i] by blast
  have "n = 512 - Suc i" using Suc.hyps(2) by simp
  from Suc.hyps(1) [OF this _ s1(2)] i s1(1) show ?case by (simp add: upt_conv_Cons)
qed auto

lemma clone_pt_spec: "clone_spec E 0 clone_pt"
  unfolding clone_spec_def
proof (intro allI impI)
  fix p c s F assume C: "clonable E 0 p c s F"
  then have fr: "table_frame p" "table_frame c" "p \<noteq> c" "\<forall>i < 512. entry (vm_mem s) c i = 0" "vm_ok E s F"
    by (auto simp: clonable_def)
  have "pt_inv p c s 0 s" using fr(4) by (simp add: pt_inv_def Let_def same_off_def)
  from clone_pt_loop [OF fr(1-3) _ this] obtain s' where s': "clone_pt p c s = Some s'" "pt_inv p c s 512 s'"
    by (auto simp: clone_pt_def TABLE_ENTRIES_def)
  have "leaf 0 (vm_mem s') p va = map_option cow_entry (leaf 0 (vm_mem s) p va)"
    "leaf 0 (vm_mem s') c va = map_option cow_entry (leaf 0 (vm_mem s) p va)" for va
    using s'(2) lidx_less [of 0 va] by (auto simp: leaf_def pt_inv_def Let_def)
  then have "clones E 0 p c s F s' F"
    using s'(2) fr by (auto simp: clones_def pt_inv_def vm_ok_def insert_commute)
  then show "case clone_pt p c s of None \<Rightarrow> dry E (table_count 0 (vm_mem s) p - 1) (vm_pmm s)
    | Some s' \<Rightarrow> (\<exists>F'. clones E 0 p c s F s' F') \<and> draws E (table_count 0 (vm_mem s) p - 1) (vm_pmm s) (vm_pmm s')"
    using s' by (auto simp: pt_inv_def)
qed

lemma clone_pml4_spec: "clone_spec E 3 (clone_pml4 E)"
proof -
  note pd = clone_level [OF clone_pt_spec [of E], folded clone_pd_def]
  note pdpt = clone_level [OF pd, folded clone_pdpt_def]
  show ?thesis unfolding three_levels using clone_level [OF pdpt, folded clone_pml4_def] .
qed

lemma cow_entry_frame: "pte_addr_of (cow_entry e) = pte_addr_of e"
proof -
  have m: "NOT PTE_WRITABLE AND PTE_ADDR_MASK = PTE_ADDR_MASK" "PTE_COW AND PTE_ADDR_MASK = 0"
    by (simp_all add: PTE_WRITABLE_def PTE_ADDR_MASK_def PTE_COW_def)
  then show ?thesis
    by (simp add: pte_addr_of_def cow_entry_def bit.conj_disj_distrib2 and.assoc)
qed

lemma cow_entry_read_only: "cow_entry e AND PTE_WRITABLE = 0"
  by (simp add: cow_entry_def bit.conj_disj_distrib2 and.assoc PTE_WRITABLE_def PTE_COW_def)

lemma clone_start:
  assumes as: "address_space E s parent F" and run: "alloc_table E s = Some (child, s1)"
  shows "clonable E 3 parent child s1 (F - {child})" "same_on (tables 3 (vm_mem s) parent) (vm_mem s) (vm_mem s1)"
proof -
  have A: "ptree 3 (vm_mem s) parent" "vm_ok E s F" "tables 3 (vm_mem s) parent \<inter> F = {}" using as by (auto simp: address_space_def)
  note a = alloc_table_ok [OF run A(2)]
  show on: "same_on (tables 3 (vm_mem s) parent) (vm_mem s) (vm_mem s1)"
    by (rule same_off_on [OF a(7)]) (use A(3) a(1,2) tables_frames [OF A(1)] in auto)
  show "clonable E 3 parent child s1 (F - {child})"
    using A a tree_cong(1,2) [OF on] unfolding clonable_def by auto
qed

lemma clone_dry:
  assumes as: "address_space E s parent F" and run: "clone_pml4_cow E parent s = None"
  shows "dry E (table_count 3 (vm_mem s) parent) (vm_pmm s)"
proof -
  have n: "table_count 3 (vm_mem s) parent = 1 + (table_count 3 (vm_mem s) parent - 1)"
    using table_count_pos [of 3 "vm_mem s" parent] by simp
  show ?thesis
  proof (cases "alloc_table E s")
    case None
    then show ?thesis using alloc_table_draws(2) dry_add(1) n by metis
  next
    case (Some r)
    then obtain child s1 where s1: "alloc_table E s = Some (child, s1)" "clone_pml4 E parent child s1 = None"
      using run by (cases r) (auto simp: clone_pml4_cow_def split: bind_splits)
    note cs = clone_start [OF as s1(1)]
    from clone_pml4_spec [unfolded clone_spec_def, rule_format, OF cs(1)] s1(2)
    have "dry E (table_count 3 (vm_mem s) parent - 1) (vm_pmm s1)" using table_count_cong [OF cs(2)] by simp
    then show ?thesis using dry_add(2) [OF alloc_table_draws(1) [OF s1(1)]] n by metis
  qed
qed

lemma clone_ok:
  assumes as: "address_space E s parent F" and run: "clone_pml4_cow E parent s = Some (child, s')"
  shows "\<exists>F'. F' \<subseteq> F \<and> child \<in> F - F' \<and> address_space E s' parent F' \<and> address_space E s' child F' \<and>
    tables 3 (vm_mem s') parent = tables 3 (vm_mem s) parent \<and> tables 3 (vm_mem s') child = F - F' \<and>
    (\<forall>va. aspace s' parent va = map_option cow_entry (aspace s parent va)) \<and>
    (\<forall>va. aspace s' child va = map_option cow_entry (aspace s parent va)) \<and>
    same_off (tables 3 (vm_mem s) parent \<union> (F - F')) (vm_mem s) (vm_mem s') \<and>
    draws E (table_count 3 (vm_mem s) parent) (vm_pmm s) (vm_pmm s') \<and> vm_cr3 s' = vm_cr3 s"
proof -
  obtain s1 where s1: "alloc_table E s = Some (child, s1)" "clone_pml4 E parent child s1 = Some s'"
    using run by (auto simp: clone_pml4_cow_def split: bind_splits)
  have A: "ptree 3 (vm_mem s) parent" "vm_ok E s F" "tables 3 (vm_mem s) parent \<inter> F = {}" using as by (auto simp: address_space_def)
  note a = alloc_table_ok [OF s1(1) A(2)]
  note cs = clone_start [OF as s1(1)]
  note cong = tree_cong [OF cs(2)] table_count_cong [OF cs(2)]
  from clone_pml4_spec [unfolded clone_spec_def, rule_format, OF cs(1)] obtain F' where
    F': "clones E 3 parent child s1 (F - {child}) s' F'"
    and dr: "draws E (table_count 3 (vm_mem s) parent - 1) (vm_pmm s1) (vm_pmm s')"
    using s1(2) cong(4) by auto
  note k = clonesD [OF F']
  have Fr: "insert child (F - {child} - F') = F - F'" using a(1) k(1) by auto
  have "1 + (table_count 3 (vm_mem s) parent - 1) = table_count 3 (vm_mem s) parent" using table_count_pos [of 3 "vm_mem s" parent] by simp
  then have "draws E (table_count 3 (vm_mem s) parent) (vm_pmm s) (vm_pmm s')"
    using draws_add [OF alloc_table_draws(1) [OF s1(1)] dr] by simp
  moreover have "leaf 3 (vm_mem s1) parent va = leaf 3 (vm_mem s) parent va" for va by (rule leaf_cong [OF A(1) cs(2)])
  moreover have "same_off (tables 3 (vm_mem s) parent \<union> (F - F')) (vm_mem s) (vm_mem s')"
    using a(1) Fr k(9) [unfolded cong(1)] by (intro same_off_trans [OF same_off_mono [OF a(7)]]) auto
  moreover have "tables 3 (vm_mem s') parent \<inter> F' = {}" "tables 3 (vm_mem s') child \<inter> F' = {}"
    using k(1,4,6) cong(1) A(3) Fr by auto
  ultimately show ?thesis
    using k a cong(1) Fr by (intro exI [of _ F']) (auto simp: address_space_def aspace_def)
qed

subsection \<open>A parent with one page\<close>

lemma single_table:
  assumes "table_frame t" "present (entry m t 0)" "\<forall>i < 512. i \<noteq> 0 \<longrightarrow> entry m t i = 0"
  shows "tables (Suc l) m t = insert t (tables l m (below m t 0))"
    "table_count (Suc l) m t = Suc (table_count l m (below m t 0))"
    "t \<notin> tables l m (below m t 0) \<Longrightarrow> ptree l m (below m t 0) \<Longrightarrow> ptree (Suc l) m t"
proof -
  have p: "present (entry m t i) \<longleftrightarrow> i = 0" if "i < 512" for i using assms that by (cases "i = 0") auto
  then have "others l m t 0 = {}" by (auto simp: others_def)
  then show "tables (Suc l) m t = insert t (tables l m (below m t 0))" using tables_others [of 0 l m t] assms(2) by simp
  have "[0..<512] = 0 # [1..<512]" by (simp add: upt_rec)
  moreover have "(\<Sum>i \<leftarrow> [1..<512]. if present (entry m t i) then table_count l m (below m t i) else 0) = (\<Sum>i \<leftarrow> [1..<512]. 0)"
    using p by (intro arg_cong [of _ _ sum_list] map_cong) auto
  ultimately show "table_count (Suc l) m t = Suc (table_count l m (below m t 0))" using assms(2) by simp
  show "ptree (Suc l) m t" if "t \<notin> tables l m (below m t 0)" "ptree l m (below m t 0)"
    unfolding ptree.simps using assms(1) that p by auto
qed

definition fork_mem :: pmem where
  "fork_mem = (\<lambda>_. 0)(0x1000 := 0x2007, 0x2000 := 0x3007, 0x3000 := 0x4007, 0x4000 := 0x7007)"

definition fork_vm :: vm_state where
  "fork_vm = \<lparr>vm_mem = fork_mem, vm_pmm = pmm_boot, vm_cr3 = 0x1000, vm_kernel_cr3 = 0\<rparr>"

lemma fork_vm_tree:
  "ptree 3 fork_mem 0x1000" "tables 3 fork_mem 0x1000 = {0x1000, 0x2000, 0x3000, 0x4000}" "table_count 3 fork_mem 0x1000 = 4"
  "leaf 3 fork_mem 0x1000 0 = Some 0x7007"
proof -
  have fr: "table_frame 0x1000" "table_frame 0x2000" "table_frame 0x3000" "table_frame 0x4000"
    by (simp_all add: table_frame_def PAGE_SIZE_def)
  have e: "entry fork_mem 0x1000 0 = 0x2007" "entry fork_mem 0x2000 0 = 0x3007" "entry fork_mem 0x3000 0 = 0x4007"
    "entry fork_mem 0x4000 0 = 0x7007" by (simp_all add: fork_mem_def)
  have pr: "present 0x2007" "present 0x3007" "present 0x4007" "present 0x7007" by (simp_all add: present_def PTE_PRESENT_def)
  have b: "pte_addr_of 0x2007 = 0x2000" "pte_addr_of 0x3007 = 0x3000" "pte_addr_of 0x4007 = 0x4000"
    by (simp_all add: pte_addr_of_def PTE_ADDR_MASK_def)
  have z: "\<forall>i < 512. i \<noteq> 0 \<longrightarrow> entry fork_mem t i = 0" if "t \<in> {0x1000, 0x2000, 0x3000}" for t
    using that by (auto simp: fork_mem_def)
  note s3 = single_table [OF fr(3), of fork_mem, unfolded e b, OF pr(3) z]
  note s2 = single_table [OF fr(2), of fork_mem, unfolded e b, OF pr(2) z]
  note s1 = single_table [OF fr(1), of fork_mem, unfolded e b, OF pr(1) z]
  show "tables 3 fork_mem 0x1000 = {0x1000, 0x2000, 0x3000, 0x4000}" "table_count 3 fork_mem 0x1000 = 4"
    unfolding three_levels by (simp_all add: s1 s2 s3 del: table_count.simps(2))
  show "ptree 3 fork_mem 0x1000"
    unfolding three_levels by (intro s1(3) s2(3) s3(3)) (simp_all add: s1 s2 s3 fr)
  have "lidx k 0 = 0" for k by (simp add: lidx_def)
  then show "leaf 3 fork_mem 0x1000 0 = Some 0x7007"
    unfolding three_levels leaf_def gwalk.simps by (simp add: e [simplified] pr b)
qed

lemma fork_vm_space: "address_space demo_platform fork_vm 0x1000 demo_frames"
proof -
  have "vm_ok demo_platform fork_vm demo_frames"
    using demo_vm_space by (simp add: address_space_def vm_ok_def demo_vm_def fork_vm_def)
  moreover have "{0x1000, 0x2000, 0x3000, 0x4000} \<inter> demo_frames = {}" using demo_frames_range by fastforce
  ultimately show ?thesis using fork_vm_tree(1,2) by (simp add: address_space_def fork_vm_def)
qed

lemma fork_vm_draws: "\<not> dry demo_platform 4 pmm_boot"
proof -
  have b: "pmm_boot = pmm_boot\<lparr>bump := 0\<rparr>" by (simp add: pmm_boot_def)
  have p: "n < 4 \<Longrightarrow> n < POOL_PAGES" for n by (simp add: POOL_PAGES_def)
  have "\<not> dry demo_platform (4 - n) (pmm_boot\<lparr>bump := n\<rparr>)" if "n \<le> 4" for n
    using that
  proof (induction rule: inc_induct)
    case (step n)
    then have "4 - n = Suc (4 - Suc n)" by simp
    then show ?case using step by (simp add: dry_Suc demo_alloc_boot [OF p])
  qed simp
  from this [of 0] b show ?thesis by simp
qed

subsection \<open>Properties\<close>

text \<open>
  C36. The clone of an address space refines its specification. When \<open>clone_pml4_cow\<close> returns, parent
  and child are well-formed trees with no table in common, both map exactly the pages the parent
  mapped, to the same frames, with every writable entry turned read-only and marked copy on write
  in both, and every other address space is unchanged. The allocator has given one page for each
  table of the parent and its state has no other change. The clone panics only when the allocator
  cannot give as many pages as the parent has tables.
\<close>

theorem clone_pml4_cow_refines:
  assumes "address_space E s parent F"
  shows "case clone_pml4_cow E parent s of
      None \<Rightarrow> fst (alloc_seq (alloc_page E) (table_count 3 (vm_mem s) parent) (vm_pmm s)) = None
    | Some (child, s') \<Rightarrow>
        (\<exists>F' \<subseteq> F. child \<in> F - F' \<and> address_space E s' parent F' \<and> address_space E s' child F') \<and>
        tables 3 (vm_mem s') parent \<inter> tables 3 (vm_mem s') child = {} \<and>
        (\<forall>va. aspace s' parent va = map_option cow_entry (aspace s parent va) \<and>
              aspace s' child va = map_option cow_entry (aspace s parent va)) \<and>
        (\<forall>c va. table_frame c \<and> visited 3 (vm_mem s) c va \<inter> (tables 3 (vm_mem s) parent \<union> F) = {} \<longrightarrow>
           aspace s' c va = aspace s c va) \<and>
        (\<exists>ps. alloc_seq (alloc_page E) (table_count 3 (vm_mem s) parent) (vm_pmm s) = (Some ps, vm_pmm s'))"
proof (cases "clone_pml4_cow E parent s")
  case None
  then show ?thesis using clone_dry [OF assms None] by (simp add: dry_def)
next
  case (Some r)
  obtain child s' where r: "clone_pml4_cow E parent s = Some (child, s')" using Some by (cases r) auto
  obtain F' where k: "F' \<subseteq> F" "child \<in> F - F'" "address_space E s' parent F'" "address_space E s' child F'"
    "tables 3 (vm_mem s') parent = tables 3 (vm_mem s) parent" "tables 3 (vm_mem s') child = F - F'"
    "\<forall>va. aspace s' parent va = map_option cow_entry (aspace s parent va)"
    "\<forall>va. aspace s' child va = map_option cow_entry (aspace s parent va)"
    "same_off (tables 3 (vm_mem s) parent \<union> (F - F')) (vm_mem s) (vm_mem s')"
    "draws E (table_count 3 (vm_mem s) parent) (vm_pmm s) (vm_pmm s')"
    using clone_ok [OF assms r] by blast
  have d: "tables 3 (vm_mem s) parent \<inter> F = {}" using assms by (simp add: address_space_def)
  have fr: "\<forall>x \<in> tables 3 (vm_mem s) parent \<union> (F - F'). table_frame x"
    using assms tables_frames by (auto simp: address_space_def vm_ok_def)
  have "aspace s' c va = aspace s c va"
    if "table_frame c" "visited 3 (vm_mem s) c va \<inter> (tables 3 (vm_mem s) parent \<union> F) = {}" for c va
    using that by (intro other_space_ok [OF k(9) _ _ fr]) blast+
  moreover have "tables 3 (vm_mem s') parent \<inter> tables 3 (vm_mem s') child = {}" using k(5,6) d by blast
  moreover have "\<exists>F' \<subseteq> F. child \<in> F - F' \<and> address_space E s' parent F' \<and> address_space E s' child F'" using k(1-4) by blast
  ultimately show ?thesis using r k(7,8,10) by (simp add: draws_def)
qed

theorem clone_pml4_cow_refines_witness:
  "\<exists>child s. clone_pml4_cow demo_platform 0x1000 fork_vm = Some (child, s) \<and> child \<noteq> 0x1000 \<and>
     aspace s 0x1000 0 = Some 0x7205 \<and> aspace s child 0 = Some 0x7205"
proof -
  have m: "vm_mem fork_vm = fork_mem" "vm_pmm fork_vm = pmm_boot" by (simp_all add: fork_vm_def)
  have "fst (alloc_seq (alloc_page demo_platform) (table_count 3 (vm_mem fork_vm) 0x1000) (vm_pmm fork_vm)) \<noteq> None"
    using fork_vm_draws unfolding m fork_vm_tree(3) dry_def .
  moreover have "aspace fork_vm 0x1000 0 = Some 0x7007" using fork_vm_tree(4) by (simp add: aspace_def m)
  moreover have "cow_entry 0x7007 = 0x7205" by (simp add: cow_entry_def PTE_WRITABLE_def PTE_COW_def)
  moreover have "0x1000 \<notin> demo_frames" using demo_frames_range [of "0x1000"] by auto
  ultimately show ?thesis
    using clone_pml4_cow_refines [OF fork_vm_space] by (fastforce split: option.splits)
qed

end
