(* ===== verification/Vma.thy ===== *)
theory Vma
  imports Prelude
begin

unbundle bit_operations_syntax

section \<open>Virtual memory areas\<close>

text \<open>
  The list of areas of a process (\<^verbatim>\<open>src/mm/mmap/mod.rs\<close>, \<^verbatim>\<open>src/mm/mmap/vma.rs\<close>) and the loop of
  \<^verbatim>\<open>src/mm/mmap/mapping.rs\<close> that cuts a range out of it. Addresses are natural numbers below
  \<open>2 ^ 64\<close>; file offsets are 64-bit words. \<open>partition_point\<close> is the length of the prefix that
  satisfies the predicate, which is what the binary search returns on the sorted list the
  invariant below guarantees.
\<close>

datatype VmaKind = Anonymous | FileBacked nat u64 | PhysMap u64 | Stack | Heap

record Vma =
  v_start :: nat
  v_end :: nat
  v_prot :: u32
  v_flags :: u32
  v_kind :: VmaKind
  v_file_offset :: u64
  v_locked :: bool

definition is_heap :: "Vma \<Rightarrow> bool" where "is_heap v \<longleftrightarrow> v_kind v = Heap"
definition is_stack :: "Vma \<Rightarrow> bool" where "is_stack v \<longleftrightarrow> v_kind v = Stack"

fun is_physmap :: "VmaKind \<Rightarrow> bool" where
  "is_physmap (PhysMap _) = True"
| "is_physmap _ = False"

definition vma_contains :: "Vma \<Rightarrow> nat \<Rightarrow> bool" where
  "vma_contains v addr \<longleftrightarrow> v_start v \<le> addr \<and> addr < v_end v"

definition PROT_READ :: u32 where "PROT_READ = 1"
definition PROT_WRITE :: u32 where "PROT_WRITE = 2"
definition PROT_EXEC :: u32 where "PROT_EXEC = 4"
definition MAP_SHARED :: u32 where "MAP_SHARED = 0x01"
definition MAP_PRIVATE :: u32 where "MAP_PRIVATE = 0x02"
definition MAP_FIXED :: u32 where "MAP_FIXED = 0x10"
definition MAP_ANON :: u32 where "MAP_ANON = 0x20"
definition MAP_GROWSDOWN :: u32 where "MAP_GROWSDOWN = 0x0100"
definition MAP_FIXED_NOREPLACE :: u32 where "MAP_FIXED_NOREPLACE = 0x100000"
definition MMAP_PAGE :: nat where "MMAP_PAGE = 4096"

definition page_align_up :: "nat \<Rightarrow> nat" where
  "page_align_up n = wsub (wadd n MMAP_PAGE) 1 AND usize_not (MMAP_PAGE - 1)"

subsection \<open>The list\<close>

definition partition_point :: "('a \<Rightarrow> bool) \<Rightarrow> 'a list \<Rightarrow> nat" where
  "partition_point p xs = length (takeWhile p xs)"

definition vmas_insert :: "Vma \<Rightarrow> Vma list \<Rightarrow> Vma list" where
  "vmas_insert v vs =
     (let pos = partition_point (\<lambda>x. v_start x < v_start v) vs in take pos vs @ v # drop pos vs)"

definition vmas_remove :: "nat \<Rightarrow> nat \<Rightarrow> Vma list \<Rightarrow> Vma list" where
  "vmas_remove addr len vs =
     (let e = saturating_add addr len in filter (\<lambda>v. v_end v \<le> addr \<or> e \<le> v_start v) vs)"

definition vma_at :: "nat \<Rightarrow> Vma list \<Rightarrow> Vma option" where
  "vma_at addr vs = List.find (\<lambda>v. v_start v \<le> addr \<and> addr < v_end v) vs"

definition wsum :: "nat list \<Rightarrow> nat" where
  "wsum xs = foldl wadd 0 xs"

definition vmas_kb :: "(Vma \<Rightarrow> bool) \<Rightarrow> Vma list \<Rightarrow> nat" where
  "vmas_kb p vs = wsum (map (\<lambda>v. wsub (v_end v) (v_start v) div 1024) (filter p vs))"

definition heap_top :: "Vma list \<Rightarrow> nat" where
  "heap_top vs = foldr max (map v_end (filter is_heap vs)) 0"

definition vmas_bytes :: "Vma list \<Rightarrow> nat" where
  "vmas_bytes vs = wsum (map (\<lambda>v. wsub (v_end v) (v_start v)) vs)"

subsection \<open>Cutting a range out\<close>

definition advance :: "nat \<Rightarrow> Vma \<Rightarrow> Vma" where
  "advance e v =
     v\<lparr>v_start := e,
       v_kind := (case v_kind v of FileBacked fd off \<Rightarrow> FileBacked fd (off + of_nat (e - v_start v)) | k \<Rightarrow> k),
       v_file_offset := v_file_offset v + of_nat (e - v_start v)\<rparr>"

function vmas_cut_from :: "nat \<Rightarrow> nat \<Rightarrow> nat \<Rightarrow> Vma list \<Rightarrow> Vma list" where
  "vmas_cut_from addr e i vs =
     (if i < length vs then
        (let v = vs ! i; vstart = v_start v; vend = v_end v in
         if vend \<le> addr \<or> vstart \<ge> e then vmas_cut_from addr e (i + 1) vs
         else if vstart \<ge> addr \<and> vend \<le> e then vmas_cut_from addr e i (take i vs @ drop (i + 1) vs)
         else if vstart < addr \<and> vend > e then
           vmas_cut_from addr e (i + 2) (take i vs @ [v\<lparr>v_end := addr\<rparr>, advance e v] @ drop (i + 1) vs)
         else if vstart < addr then vmas_cut_from addr e (i + 1) (vs[i := v\<lparr>v_end := addr\<rparr>])
         else vmas_cut_from addr e (i + 1) (vs[i := advance e v]))
      else vs)"
  by pat_completeness auto
termination
  by (relation "measure (\<lambda>(addr, e, i, vs). length vs - i)") (auto simp: min_def)

declare vmas_cut_from.simps [simp del]

definition vmas_cut :: "nat \<Rightarrow> nat \<Rightarrow> Vma list \<Rightarrow> Vma list" where
  "vmas_cut addr e vs = vmas_cut_from addr e 0 vs"

subsection \<open>The loop cuts each area on its own\<close>

definition cut1 :: "nat \<Rightarrow> nat \<Rightarrow> Vma \<Rightarrow> Vma list" where
  "cut1 addr e v =
     (if v_end v \<le> addr \<or> e \<le> v_start v then [v]
      else (if v_start v < addr then [v\<lparr>v_end := addr\<rparr>] else []) @ (if e < v_end v then [advance e v] else []))"

lemma vmas_cut_from_eq: "i \<le> length vs \<Longrightarrow> vmas_cut_from addr e i vs = take i vs @ concat (map (cut1 addr e) (drop i vs))"
proof (induction addr e i vs rule: vmas_cut_from.induct)
  case (1 addr e i vs)
  show ?case
  proof (cases "i < length vs")
    case False
    then show ?thesis using "1.prems" by (subst vmas_cut_from.simps) simp
  next
    case True
    let ?v = "vs ! i"
    have d: "drop i vs = ?v # drop (Suc i) vs" using True by (simp add: Cons_nth_drop_Suc)
    have t: "take (Suc i) vs = take i vs @ [?v]" using True by (simp add: take_Suc_conv_app_nth)
    have u: "take (Suc i) (vs[i := x]) = take i vs @ [x]" "drop (Suc i) (vs[i := x]) = drop (Suc i) vs" for x
      using True by (simp_all add: take_Suc_conv_app_nth)
    note IH = "1.IH" [OF True refl refl refl]
    note step = vmas_cut_from.simps [of addr e i vs]
    consider (out) "v_end ?v \<le> addr \<or> e \<le> v_start ?v"
      | (gone) "\<not> (v_end ?v \<le> addr \<or> e \<le> v_start ?v)" "addr \<le> v_start ?v \<and> v_end ?v \<le> e"
      | (split) "\<not> (v_end ?v \<le> addr \<or> e \<le> v_start ?v)" "v_start ?v < addr \<and> e < v_end ?v"
      | (head) "\<not> (v_end ?v \<le> addr \<or> e \<le> v_start ?v)" "v_start ?v < addr" "\<not> e < v_end ?v"
      | (tail) "\<not> (v_end ?v \<le> addr \<or> e \<le> v_start ?v)" "\<not> v_start ?v < addr" "e < v_end ?v"
      by linarith
    then show ?thesis
    proof cases
      case out
      then show ?thesis using IH(1) True by (simp add: step Let_def d t cut1_def)
    next
      case gone
      then show ?thesis using IH(2) True by (simp add: step Let_def d cut1_def min_def)
    next
      case split
      then show ?thesis using IH(3) True by (simp add: step Let_def d cut1_def min_def)
    next
      case head
      then show ?thesis using IH(4) True by (simp add: step Let_def d u cut1_def)
    next
      case tail
      then show ?thesis using IH(5) True by (simp add: step Let_def d u cut1_def)
    qed
  qed
qed

lemma vmas_cut_eq: "vmas_cut addr e vs = concat (map (cut1 addr e) vs)"
  by (simp add: vmas_cut_def vmas_cut_from_eq)

subsection \<open>Sorted, disjoint areas\<close>

definition vmas_ok :: "Vma list \<Rightarrow> bool" where
  "vmas_ok vs \<longleftrightarrow> sorted_wrt (\<lambda>v w. v_end v \<le> v_start w) vs \<and> (\<forall>v \<in> set vs. v_start v < v_end v)"

lemma vma_at_Some: "vma_at a vs = Some v \<Longrightarrow> v \<in> set vs \<and> v_start v \<le> a \<and> a < v_end v"
  by (auto simp: vma_at_def find_Some_iff)

lemma vma_at_None: "vma_at a vs = None \<longleftrightarrow> (\<forall>v \<in> set vs. \<not> (v_start v \<le> a \<and> a < v_end v))"
  by (auto simp: vma_at_def find_None_iff)

lemma vma_unique:
  assumes "vmas_ok vs" "v \<in> set vs" "w \<in> set vs" "v_start v \<le> a" "a < v_end v" "v_start w \<le> a" "a < v_end w"
  shows "v = w"
  using assms unfolding vmas_ok_def by (induction vs) fastforce+

lemma vma_at_mem:
  assumes "vmas_ok vs" "v \<in> set vs" "v_start v \<le> a" "a < v_end v"
  shows "vma_at a vs = Some v"
proof (cases "vma_at a vs")
  case None
  then show ?thesis using assms(2-4) by (auto simp: vma_at_None)
next
  case (Some w)
  then show ?thesis using vma_unique [OF assms(1)] assms vma_at_Some [OF Some] by metis
qed

lemma cut1_bounds:
  assumes "x \<in> set (cut1 addr e v)" "v_start v < v_end v" "addr < e"
  shows "v_start v \<le> v_start x" "v_end x \<le> v_end v" "v_start x < v_end x" "v_end x \<le> addr \<or> e \<le> v_start x"
  using assms by (auto simp: cut1_def advance_def split: if_splits)

lemma vmas_cut_ok:
  assumes "vmas_ok vs" "addr < e"
  shows "vmas_ok (vmas_cut addr e vs)"
  using assms(1) unfolding vmas_cut_eq
proof (induction vs)
  case Nil
  then show ?case by (simp add: vmas_ok_def)
next
  case (Cons v vs)
  have v: "v_start v < v_end v" "vmas_ok vs" "\<forall>w \<in> set vs. v_end v \<le> v_start w \<and> v_start w < v_end w"
    using Cons.prems by (auto simp: vmas_ok_def)
  have one: "vmas_ok (cut1 addr e v)"
    using assms(2) v(1) by (auto simp: vmas_ok_def cut1_def advance_def)
  have "v_end x \<le> v_start y" if "x \<in> set (cut1 addr e v)" "w \<in> set vs" "y \<in> set (cut1 addr e w)" for x y w
    using cut1_bounds [OF that(1) v(1) assms(2)] cut1_bounds [OF that(3) _ assms(2)] v(3) that(2) by force
  then show ?case using one Cons.IH [OF v(2)] unfolding vmas_ok_def by (auto simp: sorted_wrt_append)
qed

text \<open>What an area says about an address in it: protection, flags, lock and file position.\<close>

definition backing :: "Vma \<Rightarrow> nat \<Rightarrow> u32 \<times> u32 \<times> bool \<times> u64 \<times> (nat \<times> u64) option" where
  "backing v a = (v_prot v, v_flags v, v_locked v, v_file_offset v + of_nat (a - v_start v),
     (case v_kind v of FileBacked fd off \<Rightarrow> Some (fd, off + of_nat (a - v_start v)) | _ \<Rightarrow> None))"

lemma advance_backing:
  assumes "v_start v \<le> e" "e \<le> a"
  shows "backing (advance e v) a = backing v a"
proof -
  have "a - v_start v = (e - v_start v) + (a - e)" using assms by simp
  then have "of_nat (a - v_start v) = (of_nat (e - v_start v) + of_nat (a - e) :: u64)" by (metis of_nat_add)
  then show ?thesis by (simp add: backing_def advance_def add.assoc split: VmaKind.split)
qed

lemma cut1_at:
  assumes "v_start v \<le> a" "a < v_end v" "\<not> (addr \<le> a \<and> a < e)"
  shows "\<exists>x \<in> set (cut1 addr e v). v_start x \<le> a \<and> a < v_end x \<and> backing x a = backing v a"
proof -
  consider "v_end v \<le> addr \<or> e \<le> v_start v" | "\<not> (v_end v \<le> addr \<or> e \<le> v_start v)" "a < addr"
    | "\<not> (v_end v \<le> addr \<or> e \<le> v_start v)" "e \<le> a"
    using assms by linarith
  then show ?thesis
  proof cases
    case 2
    then show ?thesis using assms by (intro bexI [of _ "v\<lparr>v_end := addr\<rparr>"]) (auto simp: cut1_def backing_def split: VmaKind.split)
  next
    case 3
    then show ?thesis using assms advance_backing [of v e a]
      by (intro bexI [of _ "advance e v"]) (auto simp: cut1_def, auto simp: advance_def)
  qed (use assms in \<open>auto simp: cut1_def\<close>)
qed

lemma vmas_insert_split:
  "vmas_insert v vs = takeWhile (\<lambda>x. v_start x < v_start v) vs @ v # dropWhile (\<lambda>x. v_start x < v_start v) vs"
  by (simp add: vmas_insert_def partition_point_def Let_def takeWhile_eq_take [symmetric] dropWhile_eq_drop [symmetric])

lemma vmas_insert_set: "set (vmas_insert v vs) = insert v (set vs)"
proof -
  have "set vs = set (takeWhile (\<lambda>x. v_start x < v_start v) vs) \<union> set (dropWhile (\<lambda>x. v_start x < v_start v) vs)"
    by (metis set_append takeWhile_dropWhile_id)
  then show ?thesis by (simp add: vmas_insert_split)
qed

lemma vmas_insert_ok:
  assumes "vmas_ok vs" "v_start v < v_end v" "\<forall>w \<in> set vs. v_end w \<le> v_start v \<or> v_end v \<le> v_start w"
  shows "vmas_ok (vmas_insert v vs)"
  using assms(1,3) unfolding vmas_insert_split
proof (induction vs)
  case Nil
  then show ?case using assms(2) by (simp add: vmas_ok_def)
next
  case (Cons w vs)
  have w: "vmas_ok vs" "v_start w < v_end w" "\<forall>x \<in> set vs. v_end w \<le> v_start x" using Cons.prems by (auto simp: vmas_ok_def)
  show ?case
  proof (cases "v_start w < v_start v")
    case True
    have s: "set (takeWhile (\<lambda>x. v_start x < v_start v) vs @ v # dropWhile (\<lambda>x. v_start x < v_start v) vs) = insert v (set vs)"
      using vmas_insert_set [of v vs] by (simp add: vmas_insert_split)
    have "v_end w \<le> v_start v" using Cons.prems(2) True assms(2) by auto
    then have "\<forall>x \<in> insert v (set vs). v_end w \<le> v_start x" using w(3) by simp
    then show ?thesis using Cons.IH [OF w(1)] Cons.prems(2) True w(2) s unfolding vmas_ok_def by auto
  next
    case False
    have "v_end v \<le> v_start w" using Cons.prems(2) False w(2) by auto
    then have "\<forall>x \<in> set (w # vs). v_end v \<le> v_start x" using w(2,3) by fastforce
    then show ?thesis using Cons.prems(1) False assms(2) by (auto simp: vmas_ok_def)
  qed
qed

subsection \<open>Properties\<close>

text \<open>
  C37. Cutting a range out of the areas of a process takes away exactly that range. The areas stay
  sorted and disjoint; an address in the range is in no area; an address outside the range is in
  an area exactly when it was before, with the same protection, flags, lock and file position,
  so an area that is split or loses its head keeps its file offsets.
\<close>

theorem vmas_cut_exact:
  assumes "vmas_ok vs" "addr < e"
  shows "vmas_ok (vmas_cut addr e vs) \<and>
    (\<forall>a. if addr \<le> a \<and> a < e then vma_at a (vmas_cut addr e vs) = None
         else map_option (\<lambda>v. backing v a) (vma_at a (vmas_cut addr e vs)) = map_option (\<lambda>v. backing v a) (vma_at a vs))"
proof -
  let ?c = "vmas_cut addr e vs"
  have ok: "vmas_ok ?c" by (rule vmas_cut_ok [OF assms])
  have wf: "v_start v < v_end v" if "v \<in> set vs" for v using assms(1) that by (simp add: vmas_ok_def)
  have "vma_at a ?c = None" if "addr \<le> a" "a < e" for a
    using that cut1_bounds(4) [OF _ wf assms(2)] by (fastforce simp: vma_at_None vmas_cut_eq)
  moreover have "map_option (\<lambda>v. backing v a) (vma_at a ?c) = map_option (\<lambda>v. backing v a) (vma_at a vs)"
    if out: "\<not> (addr \<le> a \<and> a < e)" for a
  proof (cases "vma_at a vs")
    case None
    then have "vma_at a ?c = None"
      using cut1_bounds(1,2) [OF _ wf assms(2)] by (fastforce simp: vma_at_None vmas_cut_eq)
    then show ?thesis using None by simp
  next
    case (Some v)
    note v = vma_at_Some [OF Some]
    obtain x where x: "x \<in> set (cut1 addr e v)" "v_start x \<le> a" "a < v_end x" "backing x a = backing v a"
      using cut1_at [OF _ _ out] v by blast
    then have "vma_at a ?c = Some x" using v by (intro vma_at_mem [OF ok]) (auto simp: vmas_cut_eq)
    then show ?thesis using Some x(4) by simp
  qed
  ultimately show ?thesis using ok by auto
qed

definition demo_area :: Vma where
  "demo_area = \<lparr>v_start = 0x1000, v_end = 0x5000, v_prot = 1, v_flags = 2, v_kind = FileBacked 3 0x8000,
     v_file_offset = 0x8000, v_locked = False\<rparr>"

theorem vmas_cut_exact_witness:
  "vma_at 0x2800 (vmas_cut 0x2000 0x3000 [demo_area]) = None \<and>
   map_option (\<lambda>v. backing v 0x3800) (vma_at 0x3800 (vmas_cut 0x2000 0x3000 [demo_area])) =
     Some (1, 2, False, 0xA800, Some (3, 0xA800))"
proof -
  have "vmas_ok [demo_area]" by (simp add: vmas_ok_def demo_area_def)
  moreover have "map_option (\<lambda>v. backing v 0x3800) (vma_at 0x3800 [demo_area]) = Some (1, 2, False, 0xA800, Some (3, 0xA800))"
    by (simp add: vma_at_def demo_area_def backing_def)
  ultimately show ?thesis
    using vmas_cut_exact [of "[demo_area]" "0x2000" "0x3000"] by (auto dest: spec [of _ "0x2800"] spec [of _ "0x3800"])
qed

end
