(* ===== verification/Mmap.thy ===== *)
theory Mmap
  imports Cow Vma Rlimit
begin

unbundle bit_operations_syntax

section \<open>Memory mapping system calls\<close>

text \<open>
  \<^verbatim>\<open>src/mm/mmap/\<close>: \<open>sys_mmap\<close>, \<open>sys_munmap\<close>, \<open>sys_mprotect\<close>, \<open>sys_brk\<close> and their helpers. A process
  is the part of its control block that these calls use; the page tables are those of the theory
  \<open>Paging\<close>. The shootdown of translation buffers is left out. \<open>None\<close> of a panicky result is a
  panic of the page allocator or of a page-table walk. The lock of the control block is held during
  the closures of \<open>with_proc\<close>; taking it a second time never returns (\<open>Hangs\<close>). What the
  framebuffer driver says about a descriptor (physical base and size) is an argument.
\<close>

record mm_proc =
  mp_vmas :: "Vma list"
  mp_next_va :: nat
  mp_user_satp :: nat
  mp_brk :: nat
  mp_brk_base :: nat
  mp_rlimits :: RlimitSet

record mm_world =
  mw_vm :: vm_state
  mw_procs :: "pid \<Rightarrow> mm_proc option"
  mw_pid :: pid

definition as_isize :: "nat \<Rightarrow> int" where
  "as_isize n = (if n < 2 ^ 63 then int n else int n - 2 ^ 64)"

definition with_mm_write :: "pid \<Rightarrow> (mm_proc \<Rightarrow> mm_proc) \<Rightarrow> mm_world \<Rightarrow> mm_world" where
  "with_mm_write p f w = w\<lparr>mw_procs := (mw_procs w)(p := map_option f (mw_procs w p))\<rparr>"

definition proc_get :: "pid \<Rightarrow> (mm_proc \<Rightarrow> 'a) \<Rightarrow> 'a \<Rightarrow> mm_world \<Rightarrow> 'a" where
  "proc_get p f d w = (case mw_procs w p of None \<Rightarrow> d | Some q \<Rightarrow> f q)"

definition user_cr3 :: "mm_world \<Rightarrow> nat" where
  "user_cr3 w = proc_get (mw_pid w) mp_user_satp 0 w"

subsection \<open>Areas of a process\<close>

definition insert_vma :: "pid \<Rightarrow> Vma \<Rightarrow> mm_world \<Rightarrow> mm_world" where
  "insert_vma p v = with_mm_write p (\<lambda>q. q\<lparr>mp_vmas := vmas_insert v (mp_vmas q)\<rparr>)"

definition remove_vma :: "pid \<Rightarrow> nat \<Rightarrow> nat \<Rightarrow> mm_world \<Rightarrow> mm_world" where
  "remove_vma p addr len = with_mm_write p (\<lambda>q. q\<lparr>mp_vmas := vmas_remove addr len (mp_vmas q)\<rparr>)"

definition find_vma :: "pid \<Rightarrow> nat \<Rightarrow> mm_world \<Rightarrow> Vma option" where
  "find_vma p addr w = proc_get p (\<lambda>q. vma_at addr (mp_vmas q)) None w"

definition clone_vmas :: "pid \<Rightarrow> pid \<Rightarrow> mm_world \<Rightarrow> mm_world" where
  "clone_vmas src dst w = (let vs = proc_get src mp_vmas [] w in with_mm_write dst (\<lambda>q. q\<lparr>mp_vmas := vs\<rparr>) w)"

definition clear_vmas_internal :: "pid \<Rightarrow> mm_world \<Rightarrow> mm_world" where
  "clear_vmas_internal p = with_mm_write p (\<lambda>q. q\<lparr>mp_vmas := []\<rparr>)"

definition vma_total_kb :: "pid \<Rightarrow> mm_world \<Rightarrow> nat" where
  "vma_total_kb p = proc_get p (\<lambda>q. vmas_kb (\<lambda>_. True) (mp_vmas q)) 0"

definition heap_kb :: "pid \<Rightarrow> mm_world \<Rightarrow> nat" where
  "heap_kb p = proc_get p (\<lambda>q. vmas_kb is_heap (mp_vmas q)) 0"

definition stack_kb :: "pid \<Rightarrow> mm_world \<Rightarrow> nat" where
  "stack_kb p = proc_get p (\<lambda>q. vmas_kb is_stack (mp_vmas q)) 0"

definition current_brk :: "pid \<Rightarrow> mm_world \<Rightarrow> nat" where
  "current_brk p = proc_get p (\<lambda>q. heap_top (mp_vmas q)) 0"

subsection \<open>The limit on the address space\<close>

datatype 'a outcome = Returns 'a | Hangs

definition with_proc_held :: "pid set \<Rightarrow> pid \<Rightarrow> (mm_proc \<Rightarrow> 'a outcome) \<Rightarrow> mm_world \<Rightarrow> 'a option outcome" where
  "with_proc_held held p f w =
     (case mw_procs w p of
        None \<Rightarrow> Returns None
      | Some q \<Rightarrow> if p \<in> held then Hangs else (case f q of Hangs \<Rightarrow> Hangs | Returns x \<Rightarrow> Returns (Some x)))"

definition current_as_bytes :: "pid set \<Rightarrow> pid \<Rightarrow> mm_world \<Rightarrow> nat outcome" where
  "current_as_bytes held p w =
     (case with_proc_held held p (\<lambda>q. Returns (vmas_bytes (mp_vmas q))) w of
        Hangs \<Rightarrow> Hangs | Returns None \<Rightarrow> Returns 0 | Returns (Some b) \<Rightarrow> Returns b)"

definition check_rlimit_as :: "pid \<Rightarrow> nat \<Rightarrow> mm_world \<Rightarrow> int outcome" where
  "check_rlimit_as p extra w =
     (case with_proc_held {} p (\<lambda>q. case current_as_bytes {p} p w of
          Hangs \<Rightarrow> Hangs | Returns b \<Rightarrow> Returns (exceeds_as (mp_rlimits q) (of_nat b) (of_nat extra))) w of
        Hangs \<Rightarrow> Hangs
      | Returns over \<Rightarrow> Returns (if over = Some True then - 12 else 0))"

subsection \<open>Pages\<close>

definition page_range :: "nat \<Rightarrow> nat \<Rightarrow> nat list" where
  "page_range a e = map (\<lambda>i. a + i * MMAP_PAGE) [0..<(e - a + (MMAP_PAGE - 1)) div MMAP_PAGE]"

definition prot_to_flags :: "u32 \<Rightarrow> u32" where
  "prot_to_flags prot =
     PF_PRESENT OR PF_USER OR (if prot AND PROT_WRITE \<noteq> 0 then PF_WRITE else 0)
       OR (if prot AND PROT_EXEC = 0 then PF_NX else 0)"

fun unmap_range :: "nat \<Rightarrow> (nat \<Rightarrow> bool) \<Rightarrow> nat list \<Rightarrow> vm_state \<Rightarrow> nat list \<times> vm_state" where
  "unmap_range cr3 is_phys [] s = ([], s)"
| "unmap_range cr3 is_phys (va # vas) s =
     (case virt_to_phys (vm_mem s) cr3 va of
        None \<Rightarrow> unmap_range cr3 is_phys vas s
      | Some pa \<Rightarrow>
          let (r, s1) = hal_unmap_page cr3 va s;
              (fs, s2) = unmap_range cr3 is_phys vas s1
          in (if is_phys va then fs else pa # fs, s2))"

fun free_all :: "platform \<Rightarrow> nat list \<Rightarrow> vm_state \<Rightarrow> vm_state panicky" where
  "free_all E [] s = Some s"
| "free_all E (pa # fs) s = do { p' \<leftarrow> free_page E pa (vm_pmm s); free_all E fs (s\<lparr>vm_pmm := p'\<rparr>) }"

definition in_physmap :: "Vma list \<Rightarrow> nat \<Rightarrow> bool" where
  "in_physmap vs va \<longleftrightarrow> (\<exists>v \<in> set vs. is_physmap (v_kind v) \<and> v_start v \<le> va \<and> va < v_end v)"

fun map_fresh :: "platform \<Rightarrow> nat \<Rightarrow> u32 \<Rightarrow> nat list \<Rightarrow> vm_state \<Rightarrow> (nat \<times> bool \<times> vm_state) panicky" where
  "map_fresh E cr3 fl [] s = Some (0, True, s)"
| "map_fresh E cr3 fl (va # vas) s =
     (case alloc_page E (vm_pmm s) of
        (None, p') \<Rightarrow> Some (0, False, s\<lparr>vm_pmm := p'\<rparr>)
      | (Some pa, p') \<Rightarrow> do {
          (b, s1) \<leftarrow> hal_map_page E cr3 va pa fl (s\<lparr>vm_pmm := p'\<rparr>);
          (n, ok, s2) \<leftarrow> map_fresh E cr3 fl vas s1;
          Some (Suc n, ok, s2) })"

subsection \<open>Unmapping\<close>

definition sys_munmap :: "platform \<Rightarrow> nat \<Rightarrow> nat \<Rightarrow> mm_world \<Rightarrow> (int \<times> mm_world) panicky" where
  "sys_munmap E addr len0 w =
     (if addr AND (MMAP_PAGE - 1) \<noteq> 0 \<or> len0 = 0 then Some (- 22, w)
      else let len = page_align_up len0; p = mw_pid w; cr3 = user_cr3 w in
        if cr3 = 0 then Some (- 14, w)
        else let vs = proc_get p mp_vmas [] w;
                 (to_free, s1) = unmap_range cr3 (in_physmap vs) (page_range addr (wadd addr len)) (mw_vm w)
             in do { s2 \<leftarrow> free_all E to_free s1; Some (0, remove_vma p addr len (w\<lparr>mw_vm := s2\<rparr>)) })"

subsection \<open>Protection\<close>

fun remap_range :: "platform \<Rightarrow> nat \<Rightarrow> u32 \<Rightarrow> nat list \<Rightarrow> vm_state \<Rightarrow> vm_state panicky" where
  "remap_range E cr3 fl [] s = Some s"
| "remap_range E cr3 fl (va # vas) s =
     (case virt_to_phys (vm_mem s) cr3 va of
        None \<Rightarrow> remap_range E cr3 fl vas s
      | Some pa \<Rightarrow> do { (b, s1) \<leftarrow> hal_map_page E cr3 va pa fl s; remap_range E cr3 fl vas s1 })"

definition sys_mprotect :: "platform \<Rightarrow> nat \<Rightarrow> nat \<Rightarrow> u32 \<Rightarrow> mm_world \<Rightarrow> (int \<times> mm_world) panicky" where
  "sys_mprotect E addr len0 prot w =
     (if addr AND (MMAP_PAGE - 1) \<noteq> 0 then Some (- 22, w)
      else if len0 = 0 then Some (0, w)
      else let len = page_align_up len0; p = mw_pid w; cr3 = user_cr3 w in
        if cr3 = 0 then Some (- 14, w)
        else let w1 = with_mm_write p (\<lambda>q. q\<lparr>mp_vmas :=
                   map (\<lambda>v. if v_end v \<le> addr \<or> v_start v \<ge> wadd addr len then v else v\<lparr>v_prot := prot\<rparr>) (mp_vmas q)\<rparr>) w
             in do {
               s \<leftarrow> remap_range E cr3 (prot_to_flags prot) (page_range addr (wadd addr len)) (mw_vm w1);
               Some (0, w1\<lparr>mw_vm := s\<rparr>) })"

subsection \<open>The program break\<close>

fun set_heap_end :: "nat \<Rightarrow> nat \<Rightarrow> Vma list \<Rightarrow> Vma list option" where
  "set_heap_end base e [] = None"
| "set_heap_end base e (v # vs) =
     (if is_heap v \<and> v_start v = base then Some (v\<lparr>v_end := e\<rparr> # vs)
      else map_option ((#) v) (set_heap_end base e vs))"

definition heap_vma :: "nat \<Rightarrow> nat \<Rightarrow> Vma" where
  "heap_vma base e = \<lparr>v_start = base, v_end = e, v_prot = PROT_READ OR PROT_WRITE, v_flags = MAP_ANON, v_kind = Heap,
     v_file_offset = 0, v_locked = False\<rparr>"

definition coalesce_or_insert_heap_vma :: "pid \<Rightarrow> nat \<Rightarrow> nat \<Rightarrow> mm_world \<Rightarrow> mm_world" where
  "coalesce_or_insert_heap_vma p base e w =
     (case proc_get p (\<lambda>q. set_heap_end base e (mp_vmas q)) None w of
        Some vs \<Rightarrow> with_mm_write p (\<lambda>q. q\<lparr>mp_vmas := vs\<rparr>) w
      | None \<Rightarrow> insert_vma p (heap_vma base e) w)"

definition trim_heap_vma :: "pid \<Rightarrow> nat \<Rightarrow> nat \<Rightarrow> mm_world \<Rightarrow> mm_world" where
  "trim_heap_vma p base e =
     with_mm_write p (\<lambda>q. case set_heap_end base e (mp_vmas q) of Some vs \<Rightarrow> q\<lparr>mp_vmas := vs\<rparr> | None \<Rightarrow> q)"

definition set_brk :: "pid \<Rightarrow> nat \<Rightarrow> mm_world \<Rightarrow> mm_world" where
  "set_brk p b = with_mm_write p (\<lambda>q. q\<lparr>mp_brk := b\<rparr>)"

definition brk_grow :: "platform \<Rightarrow> nat \<Rightarrow> nat \<Rightarrow> nat \<Rightarrow> mm_world \<Rightarrow> (int \<times> mm_world) panicky" where
  "brk_grow E base cur new w =
     (let p = mw_pid w; cr3 = user_cr3 w in
      if proc_get p (\<lambda>q. exceeds_stack (mp_rlimits q) (of_nat (new - cur))) False w then Some (as_isize cur, w)
      else do {
        (n, ok, s) \<leftarrow> map_fresh E cr3 (PF_PRESENT OR PF_WRITE OR PF_USER OR PF_NX) (page_range cur new) (mw_vm w);
        let w1 = w\<lparr>mw_vm := s\<rparr>;
        if ok then Some (as_isize new, set_brk p new (coalesce_or_insert_heap_vma p base new w1))
        else let va = cur + n * MMAP_PAGE
             in Some (as_isize va, coalesce_or_insert_heap_vma p base va (set_brk p va w1)) })"

definition brk_shrink :: "platform \<Rightarrow> nat \<Rightarrow> nat \<Rightarrow> nat \<Rightarrow> mm_world \<Rightarrow> (int \<times> mm_world) panicky" where
  "brk_shrink E base cur new w =
     (let p = mw_pid w; (to_free, s1) = unmap_range (user_cr3 w) (\<lambda>_. False) (page_range new cur) (mw_vm w)
      in do { s2 \<leftarrow> free_all E to_free s1;
              Some (as_isize new, set_brk p new (trim_heap_vma p base new (w\<lparr>mw_vm := s2\<rparr>))) })"

definition sys_brk :: "platform \<Rightarrow> nat \<Rightarrow> mm_world \<Rightarrow> (int \<times> mm_world) panicky" where
  "sys_brk E addr w =
     (let p = mw_pid w; base = proc_get p mp_brk_base 0 w; cur = proc_get p mp_brk 0 w; new = page_align_up addr in
      if base = 0 \<or> addr = 0 \<or> addr < base then Some (as_isize cur, w)
      else if user_cr3 w = 0 then Some (as_isize cur, w)
      else if new > cur then brk_grow E base cur new w
      else if new < cur then brk_shrink E base cur new w
      else Some (as_isize new, set_brk p new w))"

definition set_brk_base_compute :: "nat \<Rightarrow> nat" where
  "set_brk_base_compute end_of_bss = page_align_up end_of_bss"

definition set_brk_base :: "pid \<Rightarrow> nat \<Rightarrow> mm_world \<Rightarrow> mm_world" where
  "set_brk_base p end_of_bss =
     (let base = set_brk_base_compute end_of_bss in with_mm_write p (\<lambda>q. q\<lparr>mp_brk_base := base, mp_brk := base\<rparr>))"

subsection \<open>Mapping\<close>

definition remove_vma_inner :: "platform \<Rightarrow> pid \<Rightarrow> nat \<Rightarrow> nat \<Rightarrow> mm_world \<Rightarrow> mm_world panicky" where
  "remove_vma_inner E p addr e w =
     (case mw_procs w p of
        None \<Rightarrow> Some w
      | Some q \<Rightarrow>
          let (to_free, s1) = unmap_range (mp_user_satp q) (in_physmap (mp_vmas q)) (page_range addr e) (mw_vm w)
          in do { s2 \<leftarrow> free_all E to_free s1;
                  Some (with_mm_write p (\<lambda>q. q\<lparr>mp_vmas := vmas_cut addr e (mp_vmas q)\<rparr>) (w\<lparr>mw_vm := s2\<rparr>)) })"

text \<open>The choice of the address: the given one, with what is there removed, or the next free one.\<close>

definition mmap_place :: "platform \<Rightarrow> nat \<Rightarrow> nat \<Rightarrow> bool \<Rightarrow> bool \<Rightarrow> mm_world \<Rightarrow> (nat \<times> nat \<times> mm_world) panicky" where
  "mmap_place E addr len fixed replace w =
     (case mw_procs w (mw_pid w) of
        None \<Rightarrow> Some (0, 0, w)
      | Some q \<Rightarrow>
          if fixed then do {
            w1 \<leftarrow> (if replace then remove_vma_inner E (mw_pid w) addr (saturating_add addr len) w else Some w);
            Some (addr, mp_user_satp q, w1) }
          else Some (mp_next_va q, mp_user_satp q,
                 with_mm_write (mw_pid w) (\<lambda>q. q\<lparr>mp_next_va := page_align_up (wadd (wadd (mp_next_va q) len) MMAP_PAGE)\<rparr>) w))"

fun map_phys :: "platform \<Rightarrow> nat \<Rightarrow> u32 \<Rightarrow> nat \<Rightarrow> nat list \<Rightarrow> vm_state \<Rightarrow> vm_state panicky" where
  "map_phys E cr3 fl pa [] s = Some s"
| "map_phys E cr3 fl pa (va # vas) s =
     do { (b, s1) \<leftarrow> hal_map_page E cr3 va pa fl s; map_phys E cr3 fl (wadd pa MMAP_PAGE) vas s1 }"

definition mmap_phys :: "platform \<Rightarrow> nat \<Rightarrow> nat \<Rightarrow> u32 \<Rightarrow> u32 \<Rightarrow> nat \<Rightarrow> mm_world \<Rightarrow> (int \<times> mm_world) panicky" where
  "mmap_phys E addr len prot flags offset w =
     (let fixed = flags AND MAP_FIXED \<noteq> 0 in
      if fixed \<and> addr = 0 then Some (- 22, w)
      else do {
        (va, cr3, w1) \<leftarrow> mmap_place E addr len fixed True w;
        if va = 0 \<or> cr3 = 0 then Some (- 22, w1)
        else let pr = prot AND NOT PROT_EXEC in do {
          s \<leftarrow> map_phys E cr3 (prot_to_flags pr) offset (page_range va (wadd va len)) (mw_vm w1);
          Some (as_isize va, insert_vma (mw_pid w)
            \<lparr>v_start = va, v_end = wadd va len, v_prot = pr, v_flags = flags, v_kind = PhysMap (of_nat offset),
             v_file_offset = of_nat offset, v_locked = False\<rparr> (w1\<lparr>mw_vm := s\<rparr>)) } })"

fun rollback :: "platform \<Rightarrow> nat \<Rightarrow> nat list \<Rightarrow> vm_state \<Rightarrow> vm_state panicky" where
  "rollback E cr3 [] s = Some s"
| "rollback E cr3 (va # vas) s =
     (case virt_to_phys (vm_mem s) cr3 va of
        None \<Rightarrow> rollback E cr3 vas s
      | Some pa \<Rightarrow>
          let (r, s1) = hal_unmap_page cr3 va s
          in do { p' \<leftarrow> free_page E pa (vm_pmm s1); rollback E cr3 vas (s1\<lparr>vm_pmm := p'\<rparr>) })"

definition mmap_anon :: "platform \<Rightarrow> nat \<Rightarrow> nat \<Rightarrow> nat \<Rightarrow> u32 \<Rightarrow> u32 \<Rightarrow> mm_world \<Rightarrow> (int \<times> mm_world) panicky" where
  "mmap_anon E va len cr3 prot flags w =
     (let p = mw_pid w;
          w1 = insert_vma p
            \<lparr>v_start = va, v_end = wadd va len, v_prot = prot, v_flags = flags,
             v_kind = (if flags AND MAP_GROWSDOWN \<noteq> 0 then Stack else Anonymous), v_file_offset = 0, v_locked = False\<rparr> w
      in do {
        (n, ok, s) \<leftarrow> map_fresh E cr3 (prot_to_flags prot) (page_range va (wadd va len)) (mw_vm w1);
        if ok then Some (as_isize va, w1\<lparr>mw_vm := s\<rparr>)
        else do {
          s1 \<leftarrow> rollback E cr3 (page_range va (wadd va (n * MMAP_PAGE))) s;
          Some (- 12, remove_vma p va len (w1\<lparr>mw_vm := s1\<rparr>)) } })"

text \<open>\<open>sys_mmap\<close> after the limits have been checked.\<close>

definition mmap_checked ::
  "platform \<Rightarrow> (nat \<Rightarrow> (nat \<times> nat) option) \<Rightarrow> nat \<Rightarrow> nat \<Rightarrow> u32 \<Rightarrow> u32 \<Rightarrow> nat \<Rightarrow> nat \<Rightarrow> mm_world \<Rightarrow> (int \<times> mm_world) panicky" where
  "mmap_checked E fb addr len prot flags fd offset w =
     (let p = mw_pid w; fixed = flags AND MAP_FIXED \<noteq> 0; noreplace = flags AND MAP_FIXED_NOREPLACE \<noteq> 0 in
      if (fixed \<or> noreplace) \<and> (addr = 0 \<or> addr AND (MMAP_PAGE - 1) \<noteq> 0) then Some (- 22, w)
      else if noreplace \<and> proc_get p (\<lambda>q. \<exists>v \<in> set (mp_vmas q). v_start v < wadd addr len \<and> v_end v > addr) False w then Some (- 17, w)
      else case (if flags AND MAP_ANON = 0 then fb fd else None) of
        Some (fb_phys, fb_size) \<Rightarrow>
          let safe_len = min len (fb_size - offset)
          in if safe_len = 0 then Some (- 22, w) else mmap_phys E addr safe_len prot flags (wadd fb_phys offset) w
      | None \<Rightarrow> do {
          (va, cr3, w1) \<leftarrow> mmap_place E addr len (fixed \<or> noreplace) (\<not> noreplace) w;
          if va = 0 then Some (- 22, w1)
          else if cr3 = 0 then Some (- 12, w1)
          else if flags AND MAP_ANON \<noteq> 0 \<or> fd = usize_max then mmap_anon E va len cr3 prot flags w1
          else Some (as_isize va, insert_vma p
            \<lparr>v_start = va, v_end = wadd va len, v_prot = prot, v_flags = flags, v_kind = FileBacked fd (of_nat offset),
             v_file_offset = of_nat offset, v_locked = False\<rparr> w1) })"

definition sys_mmap ::
  "platform \<Rightarrow> (nat \<Rightarrow> (nat \<times> nat) option) \<Rightarrow> nat \<Rightarrow> nat \<Rightarrow> u32 \<Rightarrow> u32 \<Rightarrow> nat \<Rightarrow> nat \<Rightarrow> mm_world \<Rightarrow>
   (int \<times> mm_world) panicky outcome" where
  "sys_mmap E fb addr len0 prot flags fd offset w =
     (if len0 = 0 then Returns (Some (- 22, w))
      else let len = page_align_up len0; p = mw_pid w in
        if flags AND MAP_GROWSDOWN \<noteq> 0 \<and> proc_get p (\<lambda>q. exceeds_stack (mp_rlimits q) (of_nat len)) False w
        then Returns (Some (- 12, w))
        else case check_rlimit_as p len w of
          Hangs \<Rightarrow> Hangs
        | Returns c \<Rightarrow> if c < 0 then Returns (Some (c, w)) else Returns (mmap_checked E fb addr len prot flags fd offset w))"

end
