(* ===== verification/Mmap_Correct.thy ===== *)
theory Mmap_Correct
  imports Mmap
begin

unbundle bit_operations_syntax

section \<open>What the memory mapping calls do\<close>

text \<open>
  Ranges of pages and the loops over them, in terms of the address space, and the properties of the
  system calls.
\<close>

subsection \<open>Ranges of pages\<close>

lemma page_align_up_eq:
  assumes "n \<le> 2 ^ 64 - 4096"
  shows "page_align_up n = (n + 4095) div 4096 * 4096"
proof -
  have "wsub (wadd n MMAP_PAGE) 1 = n + 4095"
  proof (cases "n = 2 ^ 64 - 4096")
    case True
    then show ?thesis by (simp add: wadd_def wsub_def MMAP_PAGE_def)
  next
    case False
    then have "n + 4096 < 2 ^ 64" using assms by simp
    then show ?thesis using wadd_eq [of n 4096] wsub_eq [of 1 "n + 4096"] by (simp add: MMAP_PAGE_def)
  qed
  moreover have "(n + 4095) AND usize_not (2 ^ 12 - 1) = (n + 4095) div 2 ^ 12 * 2 ^ 12"
    using assms by (intro and_usize_not_mask) simp_all
  ultimately show ?thesis by (simp add: page_align_up_def MMAP_PAGE_def)
qed

lemma page_align_up_bounds:
  assumes "0 < n" "n \<le> 2 ^ 64 - 4096"
  shows "4096 dvd page_align_up n" "n \<le> page_align_up n" "0 < page_align_up n"
proof -
  have "n \<le> (n + 4095) div 4096 * 4096"
    using div_mult_mod_eq [of "n + 4095" 4096] mod_less_divisor [of 4096 "n + 4095"] by linarith
  then show "4096 dvd page_align_up n" "n \<le> page_align_up n" "0 < page_align_up n"
    using assms by (simp_all add: page_align_up_eq)
qed

lemma vpn_low: "va < 2 ^ 48 \<Longrightarrow> vpn va = va div 4096"
  by (simp add: vpn_def)

lemma page_range_vpns:
  assumes "4096 dvd a" "4096 dvd e" "e \<le> 2 ^ 48"
  shows "vpn ` set (page_range a e) = {a div 4096..<e div 4096}" "distinct (map vpn (page_range a e))"
    "length (page_range a e) = e div 4096 - a div 4096"
proof -
  obtain i j where a: "a = i * 4096" and e: "e = j * 4096" using assms(1,2) by (metis dvd_def mult.commute)
  have n: "(e - a + (MMAP_PAGE - 1)) div MMAP_PAGE = j - i"
    by (cases "i \<le> j") (simp_all add: a e MMAP_PAGE_def diff_mult_distrib [symmetric])
  have v: "vpn (a + k * MMAP_PAGE) = i + k" if "k < j - i" for k
  proof -
    have "(i + k) * 4096 < 2 ^ 48" using that assms(3) e by simp
    then show ?thesis using vpn_low [of "(i + k) * 4096"] by (simp add: a MMAP_PAGE_def add_mult_distrib)
  qed
  have m: "map vpn (page_range a e) = map (\<lambda>k. i + k) [0..<j - i]"
    unfolding page_range_def n using v by simp
  then show "distinct (map vpn (page_range a e))" by (simp add: distinct_map)
  have "set (map vpn (page_range a e)) = (\<lambda>k. i + k) ` {0..<j - i}" unfolding m by simp
  also have "\<dots> = {i..<j}"
  proof (rule set_eqI)
    fix x show "x \<in> (\<lambda>k. i + k) ` {0..<j - i} \<longleftrightarrow> x \<in> {i..<j}"
      by (auto intro!: image_eqI [of _ _ "x - i"])
  qed
  finally show "vpn ` set (page_range a e) = {a div 4096..<e div 4096}" by (simp add: a e)
  show "length (page_range a e) = e div 4096 - a div 4096" unfolding page_range_def n by (simp add: a e)
qed

lemma in_page_range:
  assumes "4096 dvd a" "4096 dvd e" "e \<le> 2 ^ 48" "va < 2 ^ 48"
  shows "vpn va \<in> vpn ` set (page_range a e) \<longleftrightarrow> a \<le> va \<and> va < e"
proof -
  obtain i j where a: "a = i * 4096" and e: "e = j * 4096" using assms(1,2) by (metis dvd_def mult.commute)
  have "i \<le> va div 4096 \<longleftrightarrow> a \<le> va" "va div 4096 < j \<longleftrightarrow> va < e"
    unfolding a e by (simp_all add: less_eq_div_iff_mult_less_eq div_less_iff_less_mult)
  then show ?thesis using page_range_vpns(1) [OF assms(1-3)] vpn_low [OF assms(4)] by (simp add: a e)
qed

subsection \<open>Loops over pages\<close>

lemma aspace_vpn: "vpn va = vpn va' \<Longrightarrow> aspace s cr3 va = aspace s cr3 va'"
  unfolding aspace_def leaf_def three_levels gwalk.simps vpn_eq_iff by simp

lemma unmap_range_ok:
  assumes "address_space E s cr3 F" "unmap_range cr3 ph vas s = (fs, s')"
  shows "address_space E s' cr3 F \<and> vm_pmm s' = vm_pmm s \<and> tables 3 (vm_mem s') cr3 = tables 3 (vm_mem s) cr3 \<and>
    (\<forall>va. aspace s' cr3 va = (if vpn va \<in> vpn ` set vas then None else aspace s cr3 va)) \<and>
    same_off (tables 3 (vm_mem s) cr3) (vm_mem s) (vm_mem s')"
  using assms
proof (induction vas arbitrary: s fs)
  case Nil
  then show ?case by (simp add: same_off_def)
next
  case (Cons v vas)
  note fr = address_space_frame [OF Cons.prems(1)]
  show ?case
  proof (cases "virt_to_phys (vm_mem s) cr3 v")
    case None
    then have "aspace s cr3 v = None" using virt_to_phys_aspace [OF fr] by simp
    then have n: "aspace s cr3 va = None" if "vpn va = vpn v" for va using aspace_vpn [OF that] by simp
    have "unmap_range cr3 ph vas s = (fs, s')" using Cons.prems(2) None by simp
    from Cons.IH [OF Cons.prems(1) this] n show ?thesis by auto
  next
    case (Some pa)
    obtain r s1 where s1: "hal_unmap_page cr3 v s = (r, s1)" by fastforce
    obtain fs' where r: "unmap_range cr3 ph vas s1 = (fs', s')"
      using Cons.prems(2) Some s1 by (auto simp: Let_def split: prod.splits)
    note u = hal_unmap_page_ok [OF Cons.prems(1) s1]
    note ih = Cons.IH [OF u(2) r]
    have "same_off (tables 3 (vm_mem s) cr3) (vm_mem s) (vm_mem s')" using same_off_trans u(4,5) ih by metis
    then show ?thesis using ih u(3,4,7) by auto
  qed
qed

lemma free_all_mem: "free_all E fs s = Some s' \<Longrightarrow> vm_mem s' = vm_mem s \<and> vm_cr3 s' = vm_cr3 s"
  by (induction fs arbitrary: s) (auto split: bind_splits)

lemma remap_range_ok:
  assumes "address_space E s cr3 F" "remap_range E cr3 fl vas s = Some s'"
  shows "\<exists>F' \<subseteq> F. address_space E s' cr3 F' \<and>
    (\<forall>va. aspace s' cr3 va = (if vpn va \<in> vpn ` set vas
       then map_option (\<lambda>e. pte_value (pte_addr_of e) (hal_pte_flags fl)) (aspace s cr3 va) else aspace s cr3 va)) \<and>
    same_off (tables 3 (vm_mem s) cr3 \<union> (F - F')) (vm_mem s) (vm_mem s')"
  using assms
proof (induction vas arbitrary: s F)
  case Nil
  then show ?case by (auto simp: same_off_def)
next
  case (Cons v vas)
  note fr = address_space_frame [OF Cons.prems(1)]
  show ?case
  proof (cases "virt_to_phys (vm_mem s) cr3 v")
    case None
    then have "aspace s cr3 v = None" using virt_to_phys_aspace [OF fr] by simp
    then have n: "aspace s cr3 va = None" if "vpn va = vpn v" for va using aspace_vpn [OF that] by simp
    have "remap_range E cr3 fl vas s = Some s'" using Cons.prems(2) None by simp
    from Cons.IH [OF Cons.prems(1) this] obtain F' where F': "F' \<subseteq> F" "address_space E s' cr3 F'"
      "\<forall>va. aspace s' cr3 va = (if vpn va \<in> vpn ` set vas
         then map_option (\<lambda>e. pte_value (pte_addr_of e) (hal_pte_flags fl)) (aspace s cr3 va) else aspace s cr3 va)"
      "same_off (tables 3 (vm_mem s) cr3 \<union> (F - F')) (vm_mem s) (vm_mem s')" by blast
    then show ?thesis using n by (intro exI [of _ F']) auto
  next
    case (Some pa)
    obtain b s1 where s1: "hal_map_page E cr3 v pa fl s = Some (b, s1)" "remap_range E cr3 fl vas s1 = Some s'"
      using Cons.prems(2) Some by (auto split: bind_splits)
    then have m: "map_page E cr3 v pa (hal_pte_flags fl) s = Some s1" by (auto simp: hal_map_page_def split: bind_splits)
    from map_page_ok [OF Cons.prems(1) m] obtain F1 where F1: "F1 \<subseteq> F" "address_space E s1 cr3 F1"
      "tables 3 (vm_mem s1) cr3 = tables 3 (vm_mem s) cr3 \<union> (F - F1)"
      "\<forall>va. aspace s1 cr3 va = (if vpn va = vpn v then Some (pte_value pa (hal_pte_flags fl)) else aspace s cr3 va)"
      "same_off (tables 3 (vm_mem s) cr3 \<union> (F - F1)) (vm_mem s) (vm_mem s1)" by blast
    from Cons.IH [OF F1(2) s1(2)] obtain F' where F': "F' \<subseteq> F1" "address_space E s' cr3 F'"
      "\<forall>va. aspace s' cr3 va = (if vpn va \<in> vpn ` set vas
         then map_option (\<lambda>e. pte_value (pte_addr_of e) (hal_pte_flags fl)) (aspace s1 cr3 va) else aspace s1 cr3 va)"
      "same_off (tables 3 (vm_mem s1) cr3 \<union> (F1 - F')) (vm_mem s1) (vm_mem s')" by blast
    obtain e where e: "aspace s cr3 v = Some e" "pa = pte_addr_of e" using Some virt_to_phys_aspace [OF fr, of s v] by auto
    have ev: "aspace s cr3 va = Some e" if "vpn va = vpn v" for va using aspace_vpn [OF that] e(1) by simp
    have "pte_addr_of (pte_value pa (hal_pte_flags fl)) = pa" using e(2) pte_value_simps(2) by simp
    then have "aspace s' cr3 va = (if vpn va \<in> vpn ` set (v # vas)
         then map_option (\<lambda>e. pte_value (pte_addr_of e) (hal_pte_flags fl)) (aspace s cr3 va) else aspace s cr3 va)" for va
      using F'(3) F1(4) ev [of va] e(2) by auto
    moreover have "same_off (tables 3 (vm_mem s) cr3 \<union> (F - F')) (vm_mem s) (vm_mem s')"
      using F1(1,3) F'(1) by (intro same_off_trans [OF same_off_mono [OF F1(5)] same_off_mono [OF F'(4)]]) auto
    ultimately show ?thesis using F'(1,2) F1(1) by blast
  qed
qed

lemma visited_tables: "visited l m t va \<subseteq> tables l m t"
proof (induction l arbitrary: t)
  case (Suc l)
  have "visited l m (below m t (lidx (Suc l) va)) va \<subseteq> tables (Suc l) m t" if "present (entry m t (lidx (Suc l) va))"
    using Suc.IH below_subset [OF lidx_less [of "Suc l" va], of m t l] that by blast
  then show ?case by simp
qed simp

lemma prot_write_flags:
  assumes "prot AND PROT_WRITE \<noteq> 0"
  shows "pte_value pa (hal_pte_flags (prot_to_flags prot)) AND PTE_WRITABLE \<noteq> 0"
proof -
  have "pf_contains (prot_to_flags prot) PF_WRITE"
    unfolding pf_contains_def using assms by (simp add: prot_to_flags_def PF_WRITE_def PF_PRESENT_def PF_USER_def PF_NX_def)
  then have h: "hal_pte_flags (prot_to_flags prot) AND PTE_WRITABLE = PTE_WRITABLE"
    by (simp add: hal_pte_flags_def PTE_PRESENT_def PTE_WRITABLE_def PTE_USER_def PTE_NX_def PTE_COW_def)
  have m: "PTE_ADDR_MASK AND PTE_WRITABLE = 0" "NOT PTE_ADDR_MASK AND PTE_WRITABLE = PTE_WRITABLE" "PTE_PRESENT AND PTE_WRITABLE = 0"
    by (simp_all add: PTE_ADDR_MASK_def PTE_WRITABLE_def PTE_PRESENT_def)
  have "pte_value pa fl AND PTE_WRITABLE = fl AND PTE_WRITABLE" for fl
    unfolding pte_value_def bit.conj_disj_distrib2 and.assoc m by simp
  then show ?thesis using h by (simp add: PTE_WRITABLE_def)
qed

text \<open>Fresh pages go to distinct frames, and the loop stops early only when there is none left.\<close>

definition mapped_fresh :: "vm_state \<Rightarrow> nat \<Rightarrow> u64 \<Rightarrow> nat set \<Rightarrow> nat list \<Rightarrow> vm_state \<Rightarrow> bool" where
  "mapped_fresh s cr3 fl G vas s' \<longleftrightarrow> (\<exists>g. inj_on g (vpn ` set vas) \<and> g ` vpn ` set vas \<subseteq> G \<and>
     (\<forall>va. aspace s' cr3 va = (if vpn va \<in> vpn ` set vas then Some (pte_value (g (vpn va)) fl) else aspace s cr3 va)))"

lemma mapped_fresh_Nil [simp]: "mapped_fresh s cr3 fl G [] s' \<longleftrightarrow> aspace s' cr3 = aspace s cr3"
  by (auto simp: mapped_fresh_def fun_eq_iff)

lemma mapped_fresh_mono: "mapped_fresh s cr3 fl G vas s' \<Longrightarrow> G \<subseteq> H \<Longrightarrow> mapped_fresh s cr3 fl H vas s'"
  unfolding mapped_fresh_def by (metis subset_trans)

lemma mapped_fresh_Cons:
  assumes "mapped_fresh s1 cr3 fl G vas s'" "pa \<notin> G" "vpn v \<notin> vpn ` set vas"
    and "\<forall>va. aspace s1 cr3 va = (if vpn va = vpn v then Some (pte_value pa fl) else aspace s cr3 va)"
  shows "mapped_fresh s cr3 fl (insert pa G) (v # vas) s'"
proof -
  obtain g where g: "inj_on g (vpn ` set vas)" "g ` vpn ` set vas \<subseteq> G"
    "\<forall>va. aspace s' cr3 va = (if vpn va \<in> vpn ` set vas then Some (pte_value (g (vpn va)) fl) else aspace s1 cr3 va)"
    using assms(1) by (auto simp: mapped_fresh_def)
  let ?g = "g(vpn v := pa)"
  have same: "?g x = g x" if "x \<in> vpn ` set vas" for x using that assms(3) by (metis fun_upd_other)
  have img: "?g ` vpn ` set vas = g ` vpn ` set vas" using same by (intro image_cong) auto
  have "inj_on ?g (vpn ` set vas)" using g(1) same by (simp cong: inj_on_cong)
  moreover have "?g (vpn v) \<notin> ?g ` vpn ` set vas" using assms(2) g(2) img by auto
  ultimately have "inj_on ?g (vpn ` set (v # vas))" using assms(3) by auto
  moreover have "?g ` vpn ` set (v # vas) \<subseteq> insert pa G" using g(2) img by auto
  moreover have "aspace s' cr3 va = (if vpn va \<in> vpn ` set (v # vas) then Some (pte_value (?g (vpn va)) fl) else aspace s cr3 va)" for va
    using g(3) assms(3,4) by auto
  ultimately show ?thesis unfolding mapped_fresh_def by blast
qed

lemma map_fresh_ok:
  assumes "address_space E s cr3 F" "map_fresh E cr3 fl vas s = Some (n, ok, s')" "distinct (map vpn vas)"
  shows "n \<le> length vas \<and> (ok \<longleftrightarrow> n = length vas) \<and>
    (\<exists>F' \<subseteq> F. address_space E s' cr3 F' \<and> mapped_fresh s cr3 (hal_pte_flags fl) (F - F') (take n vas) s')"
  using assms
proof (induction vas arbitrary: s F n)
  case Nil
  then show ?case by auto
next
  case (Cons v vas)
  show ?case
  proof (cases "alloc_page E (vm_pmm s)")
    case (Pair r p')
    have A: "vm_ok E s F" "ptree 3 (vm_mem s) cr3" "tables 3 (vm_mem s) cr3 \<inter> F = {}"
      using Cons.prems(1) by (auto simp: address_space_def)
    show ?thesis
    proof (cases r)
      case None
      then have "n = 0" "\<not> ok" "s' = s\<lparr>vm_pmm := p'\<rparr>" using Cons.prems(2) Pair by auto
      moreover have "address_space E (s\<lparr>vm_pmm := p'\<rparr>) cr3 F"
        using A pg.alloc_none [of E "vm_pmm s" F p'] Pair None by (auto simp: address_space_def vm_ok_def)
      ultimately show ?thesis by (auto simp: aspace_def fun_eq_iff)
    next
      case (Some pa)
      define s0 where "s0 = s\<lparr>vm_pmm := p'\<rparr>"
      obtain b s1 m where r: "hal_map_page E cr3 v pa fl s0 = Some (b, s1)" "map_fresh E cr3 fl vas s1 = Some (m, ok, s')" "n = Suc m"
        using Cons.prems(2) Pair Some by (auto simp: s0_def split: bind_splits)
      have pf: "pa \<in> F" "pmm_frames E p' (F - {pa})"
        using pg.alloc_some [of E "vm_pmm s" F pa p'] A(1) Pair Some by (auto simp: vm_ok_def)
      then have a0: "address_space E s0 cr3 (F - {pa})"
        using A by (auto simp: s0_def address_space_def vm_ok_def)
      have "map_page E cr3 v pa (hal_pte_flags fl) s0 = Some s1" using r(1) by (auto simp: hal_map_page_def split: bind_splits)
      from map_page_ok [OF a0 this] obtain F1 where F1: "F1 \<subseteq> F - {pa}" "address_space E s1 cr3 F1"
        "\<forall>va. aspace s1 cr3 va = (if vpn va = vpn v then Some (pte_value pa (hal_pte_flags fl)) else aspace s0 cr3 va)" by blast
      have "distinct (map vpn vas)" "vpn v \<notin> vpn ` set vas" using Cons.prems(3) by auto
      from Cons.IH [OF F1(2) r(2) this(1)] obtain F' where ih: "m \<le> length vas" "ok \<longleftrightarrow> m = length vas" "F' \<subseteq> F1"
        "address_space E s' cr3 F'" "mapped_fresh s1 cr3 (hal_pte_flags fl) (F1 - F') (take m vas) s'" by blast
      have "mapped_fresh s cr3 (hal_pte_flags fl) (insert pa (F1 - F')) (v # take m vas) s'"
      proof (rule mapped_fresh_Cons [OF ih(5)])
        show "pa \<notin> F1 - F'" using F1(1) by auto
        show "vpn v \<notin> vpn ` set (take m vas)" using \<open>vpn v \<notin> vpn ` set vas\<close> set_take_subset [of m vas] by blast
        show "\<forall>va. aspace s1 cr3 va = (if vpn va = vpn v then Some (pte_value pa (hal_pte_flags fl)) else aspace s cr3 va)"
          using F1(3) by (simp add: s0_def aspace_def)
      qed
      moreover have "insert pa (F1 - F') \<subseteq> F - F'" using pf(1) F1(1) ih(3) by auto
      ultimately have "mapped_fresh s cr3 (hal_pte_flags fl) (F - F') (take n (v # vas)) s'"
        unfolding r(3) take_Suc_Cons by (rule mapped_fresh_mono)
      then show ?thesis using ih r(3) F1(1) by auto
    qed
  qed
qed

text \<open>The frames an unmapped range gives back: what its pages translated to before.\<close>

definition range_frames :: "nat \<Rightarrow> (nat \<Rightarrow> bool) \<Rightarrow> nat list \<Rightarrow> vm_state \<Rightarrow> nat list" where
  "range_frames cr3 ph vas s = List.map_filter (\<lambda>va. if ph va then None else virt_to_phys (vm_mem s) cr3 va) vas"

lemma range_frames_cong:
  "(\<And>va. va \<in> set vas \<Longrightarrow> virt_to_phys (vm_mem s') cr3 va = virt_to_phys (vm_mem s) cr3 va) \<Longrightarrow>
   range_frames cr3 ph vas s' = range_frames cr3 ph vas s"
  unfolding range_frames_def by (induction vas) (auto simp: List.map_filter_simps split: option.splits)

lemma unmap_range_frames:
  assumes "address_space E s cr3 F" "unmap_range cr3 ph vas s = (fs, s')" "distinct (map vpn vas)"
  shows "fs = range_frames cr3 ph vas s"
  using assms
proof (induction vas arbitrary: s fs)
  case Nil
  then show ?case by (simp add: range_frames_def List.map_filter_simps)
next
  case (Cons v vas)
  note fr = address_space_frame [OF Cons.prems(1)]
  have d: "distinct (map vpn vas)" "vpn v \<notin> vpn ` set vas" using Cons.prems(3) by auto
  show ?case
  proof (cases "virt_to_phys (vm_mem s) cr3 v")
    case None
    then have "unmap_range cr3 ph vas s = (fs, s')" using Cons.prems(2) by simp
    from Cons.IH [OF Cons.prems(1) this d(1)] None show ?thesis by (simp add: range_frames_def List.map_filter_simps)
  next
    case (Some pa)
    obtain r s1 where s1: "hal_unmap_page cr3 v s = (r, s1)" by fastforce
    obtain fs' where r: "unmap_range cr3 ph vas s1 = (fs', s')" "fs = (if ph v then fs' else pa # fs')"
      using Cons.prems(2) Some s1 by (auto simp: Let_def split: prod.splits)
    note u = hal_unmap_page_ok [OF Cons.prems(1) s1]
    have "virt_to_phys (vm_mem s1) cr3 va = virt_to_phys (vm_mem s) cr3 va" if "va \<in> set vas" for va
    proof -
      have "vpn va \<noteq> vpn v" using d(2) that by (metis image_eqI)
      then show ?thesis using u(3) [of va] by (simp add: virt_to_phys_aspace [OF fr])
    qed
    then have "range_frames cr3 ph vas s1 = range_frames cr3 ph vas s" by (rule range_frames_cong)
    then show ?thesis using Cons.IH [OF u(2) r(1) d(1)] r(2) Some by (simp add: range_frames_def List.map_filter_simps)
  qed
qed

lemma free_all_pmm: "vm_pmm s = vm_pmm s' \<Longrightarrow> free_all E fs s = None \<longleftrightarrow> free_all E fs s' = None"
proof (induction fs arbitrary: s s')
  case (Cons pa fs)
  show ?case
  proof (cases "free_page E pa (vm_pmm s)")
    case (Some p')
    then show ?thesis using Cons.IH [of "s\<lparr>vm_pmm := p'\<rparr>" "s'\<lparr>vm_pmm := p'\<rparr>"] Cons.prems by simp
  qed (use Cons.prems in simp)
qed simp

lemma aligned_and: "4096 dvd addr \<Longrightarrow> addr AND (MMAP_PAGE - 1) = 0"
  using take_bit_eq_mask [of 12 addr] by (simp add: MMAP_PAGE_def take_bit_eq_mod mask_eq_exp_minus_1 dvd_eq_mod_eq_0)

lemma with_mm_write_simps [simp]:
  "mw_vm (with_mm_write p f w) = mw_vm w" "mw_pid (with_mm_write p f w) = mw_pid w"
  "mw_procs (with_mm_write p f w) p = map_option f (mw_procs w p)"
  by (simp_all add: with_mm_write_def)

lemma range_end:
  assumes "4096 dvd addr" "0 < len0" "addr + len0 \<le> 2 ^ 47"
  shows "4096 dvd addr + page_align_up len0" "addr + page_align_up len0 \<le> 2 ^ 48"
    "wadd addr (page_align_up len0) = addr + page_align_up len0"
    "saturating_add addr (page_align_up len0) = addr + page_align_up len0" "len0 \<le> page_align_up len0"
proof -
  have "page_align_up len0 \<le> len0 + 4095" using assms(3) by (simp add: page_align_up_eq)
  then have le: "addr + page_align_up len0 \<le> 2 ^ 47 + 4095" using assms(3) by simp
  then show "addr + page_align_up len0 \<le> 2 ^ 48" "wadd addr (page_align_up len0) = addr + page_align_up len0"
    "saturating_add addr (page_align_up len0) = addr + page_align_up len0"
    by (simp_all add: wadd_def saturating_add_def usize_max_def)
  have "len0 \<le> 2 ^ 64 - 4096" using assms(3) by simp
  from page_align_up_bounds [OF assms(2) this] show "4096 dvd addr + page_align_up len0" "len0 \<le> page_align_up len0"
    using assms(1) by simp_all
qed

lemma munmap_run:
  assumes as: "address_space E (mw_vm w) cr3 F" and cr3: "user_cr3 w = cr3" "cr3 \<noteq> 0"
    and a: "4096 dvd addr" "0 < len0" "addr + len0 \<le> 2 ^ 47"
  shows "case sys_munmap E addr len0 w of
      None \<Rightarrow> free_all E (range_frames cr3 (in_physmap (proc_get (mw_pid w) mp_vmas [] w)) (page_range addr (addr + page_align_up len0)) (mw_vm w)) (mw_vm w) = None
    | Some (r, w') \<Rightarrow> r = 0 \<and> ptree 3 (vm_mem (mw_vm w')) cr3 \<and>
        (\<forall>va < 2 ^ 48. aspace (mw_vm w') cr3 va =
           (if addr \<le> va \<and> va < addr + page_align_up len0 then None else aspace (mw_vm w) cr3 va)) \<and>
        (\<forall>b. find_vma (mw_pid w) b w' = vma_at b (vmas_remove addr (page_align_up len0) (proc_get (mw_pid w) mp_vmas [] w)))"
proof -
  let ?e = "addr + page_align_up len0" and ?vs = "proc_get (mw_pid w) mp_vmas [] w"
  note re = range_end [OF a]
  obtain fs s1 where u: "unmap_range cr3 (in_physmap ?vs) (page_range addr ?e) (mw_vm w) = (fs, s1)" by fastforce
  have run: "sys_munmap E addr len0 w = do { s2 \<leftarrow> free_all E fs s1; Some (0, remove_vma (mw_pid w) addr (page_align_up len0) (w\<lparr>mw_vm := s2\<rparr>)) }"
    using u cr3 a(2) aligned_and [OF a(1)] by (simp add: sys_munmap_def re(3) Let_def)
  note k = unmap_range_ok [OF as u] and f = unmap_range_frames [OF as u page_range_vpns(2) [OF a(1) re(1,2)]]
  show ?thesis
  proof (cases "free_all E fs s1")
    case None
    then show ?thesis using run f k free_all_pmm [of s1 "mw_vm w" E fs] by simp
  next
    case (Some s2)
    have m: "vm_mem s2 = vm_mem s1" using free_all_mem [OF Some] by simp
    have "ptree 3 (vm_mem s1) cr3" using k by (simp add: address_space_def)
    moreover have "aspace s2 cr3 va = (if addr \<le> va \<and> va < ?e then None else aspace (mw_vm w) cr3 va)" if "va < 2 ^ 48" for va
      using k in_page_range [OF a(1) re(1,2) that] by (simp add: aspace_def m)
    moreover have "find_vma (mw_pid w) b (remove_vma (mw_pid w) addr (page_align_up len0) (w\<lparr>mw_vm := s2\<rparr>)) =
        vma_at b (vmas_remove addr (page_align_up len0) ?vs)" for b
      by (cases "mw_procs w (mw_pid w)") (auto simp: find_vma_def remove_vma_def proc_get_def vma_at_def vmas_remove_def)
    ultimately show ?thesis using run Some m by (simp add: remove_vma_def)
  qed
qed

lemma vmas_remove_mem: "v \<in> set (vmas_remove addr len vs) \<longleftrightarrow> v \<in> set vs \<and> (v_end v \<le> addr \<or> saturating_add addr len \<le> v_start v)"
  by (auto simp: vmas_remove_def Let_def)

subsection \<open>A process with two pages, one of them present\<close>

definition demo_proc :: mm_proc where
  "demo_proc = \<lparr>mp_vmas = [\<lparr>v_start = 0, v_end = 0x2000, v_prot = 3, v_flags = MAP_ANON, v_kind = Anonymous, v_file_offset = 0, v_locked = False\<rparr>],
     mp_next_va = 0x8000000, mp_user_satp = 0x1000, mp_brk = 0x2000000, mp_brk_base = 0x2000000, mp_rlimits = rlimit_default\<rparr>"

definition demo_mm :: mm_world where
  "demo_mm = \<lparr>mw_vm = fork_vm, mw_procs = [2 \<mapsto> demo_proc], mw_pid = 2\<rparr>"

lemma demo_mm_simps [simp]:
  "mw_vm demo_mm = fork_vm" "mw_pid demo_mm = 2" "mw_procs demo_mm 2 = Some demo_proc" "user_cr3 demo_mm = 0x1000"
  by (simp_all add: demo_mm_def user_cr3_def proc_get_def demo_proc_def)

lemma demo_pages: "page_align_up 0x1000 = 0x1000" "page_range 0x1000 0x2000 = [0x1000]" "page_range 0 0x1000 = [0]"
  by (simp add: page_align_up_eq) (simp_all add: page_range_def MMAP_PAGE_def)

lemma fork_vm_pages: "aspace fork_vm 0x1000 0 = Some 0x7007" "aspace fork_vm 0x1000 0x1000 = None"
proof -
  show "aspace fork_vm 0x1000 0 = Some 0x7007" using fork_vm_tree(4) by (simp add: aspace_def fork_vm_def)
  have i: "lidx 0 0x1000 = 1" "lidx (Suc 0) 0x1000 = 0" "lidx (Suc (Suc 0)) 0x1000 = 0" "lidx (Suc (Suc (Suc 0))) 0x1000 = 0"
    by (simp_all add: lidx_def)
  show "aspace fork_vm 0x1000 0x1000 = None"
    unfolding aspace_def leaf_def three_levels gwalk.simps i
    by (simp add: fork_vm_def fork_mem_def pte_addr_of_def PTE_ADDR_MASK_def)
qed

lemma demo_munmap: "\<exists>r w'. sys_munmap demo_platform 0x1000 0x1000 demo_mm = Some (r, w')"
proof (rule ccontr)
  have fr: "table_frame 0x1000" by (simp add: table_frame_def PAGE_SIZE_def)
  assume "\<not> ?thesis"
  then have "sys_munmap demo_platform 0x1000 0x1000 demo_mm = None" by (cases "sys_munmap demo_platform 0x1000 0x1000 demo_mm") auto
  with munmap_run [of demo_platform demo_mm "0x1000" demo_frames "0x1000" "0x1000"] fork_vm_space
  have "free_all demo_platform (range_frames 0x1000 (in_physmap (proc_get 2 mp_vmas [] demo_mm)) [0x1000] fork_vm) fork_vm = None"
    by (simp add: demo_pages)
  moreover have "range_frames 0x1000 ph [0x1000] fork_vm = []" for ph
    using virt_to_phys_aspace [OF fr, of fork_vm "0x1000"] fork_vm_pages(2)
    by (cases "ph 0x1000") (simp_all add: range_frames_def List.map_filter_simps)
  ultimately show False by simp
qed

lemma demo_draws:
  "k + n \<le> POOL_PAGES \<Longrightarrow> draws demo_platform n (pmm_boot\<lparr>bump := k\<rparr>) p' \<longleftrightarrow> p' = pmm_boot\<lparr>bump := k + n\<rparr>"
proof (induction n arbitrary: k)
  case 0
  then show ?case by simp
next
  case (Suc n)
  then have "k < POOL_PAGES" by simp
  then show ?case using Suc.IH [of "Suc k"] Suc.prems by (simp add: draws_Suc demo_alloc_boot)
qed

lemma demo_not_dry: "k + n \<le> POOL_PAGES \<Longrightarrow> \<not> dry demo_platform n (pmm_boot\<lparr>bump := k\<rparr>)"
  using demo_draws [of k n "pmm_boot\<lparr>bump := k + n\<rparr>"] by (auto simp: draws_def dry_def)

text \<open>The process after a fork, running in the cloned address space.\<close>

lemma demo_fork:
  "\<exists>child s. clone_pml4_cow demo_platform 0x1000 fork_vm = Some (child, s) \<and> child \<noteq> 0 \<and> table_frame child \<and>
     (\<exists>F. address_space demo_platform s child F) \<and> aspace s child 0 = Some 0x7205 \<and> vm_pmm s = pmm_boot\<lparr>bump := 4\<rparr>"
proof -
  have m: "vm_mem fork_vm = fork_mem" "vm_pmm fork_vm = pmm_boot\<lparr>bump := 0\<rparr>" by (simp_all add: fork_vm_def pmm_boot_def)
  have pp: "0 + 4 \<le> POOL_PAGES" by (simp add: POOL_PAGES_def)
  have "clone_pml4_cow demo_platform 0x1000 fork_vm \<noteq> None"
    using clone_dry [OF fork_vm_space] demo_not_dry [OF pp] unfolding m fork_vm_tree(3) by blast
  then obtain child s where c: "clone_pml4_cow demo_platform 0x1000 fork_vm = Some (child, s)" by auto
  obtain F' where k: "child \<in> demo_frames" "address_space demo_platform s child F'"
    "aspace s child 0 = map_option cow_entry (aspace fork_vm 0x1000 0)" "draws demo_platform 4 (pmm_boot\<lparr>bump := 0\<rparr>) (vm_pmm s)"
    using clone_ok [OF fork_vm_space c] unfolding m fork_vm_tree(3) by blast
  have "cow_entry 0x7007 = 0x7205" by (simp add: cow_entry_def PTE_WRITABLE_def PTE_COW_def)
  then show ?thesis
    using c k demo_draws [OF pp] demo_frames_range [OF k(1)] fork_vm_pages(1) by (intro exI [of _ child] exI [of _ s]) auto
qed

subsection \<open>Properties\<close>



text \<open>
  C39. \<open>sys_munmap\<close> of a part of an area forgets the whole area. An address of the area outside the
  unmapped range keeps its page in the page tables, but no area contains it any more: the page
  cannot be found when the address space is taken down, and a later fault on the area is an access
  violation.
\<close>

theorem munmap_forgets_rest:
  assumes "address_space E (mw_vm w) cr3 F" "user_cr3 w = cr3" "cr3 \<noteq> 0" "4096 dvd addr" "0 < len0" "addr + len0 \<le> 2 ^ 47"
    and "mw_procs w (mw_pid w) = Some q" "vmas_ok (mp_vmas q)" "v \<in> set (mp_vmas q)" "addr < v_end v" "v_start v < addr + len0"
    and "v_start v \<le> a" "a < v_end v" "a < 2 ^ 48" "\<not> (addr \<le> a \<and> a < addr + page_align_up len0)"
    and "sys_munmap E addr len0 w = Some (r, w')"
  shows "find_vma (mw_pid w) a w = Some v \<and> find_vma (mw_pid w) a w' = None \<and>
    aspace (mw_vm w') cr3 a = aspace (mw_vm w) cr3 a"
proof -
  note re = range_end [OF assms(4-6)]
  have gone: "v \<notin> set (vmas_remove addr (page_align_up len0) (mp_vmas q))"
    using assms(10,11) re(4,5) by (simp add: vmas_remove_mem)
  have "vma_at a (vmas_remove addr (page_align_up len0) (mp_vmas q)) = None"
    unfolding vma_at_None
  proof (intro ballI notI)
    fix x assume x: "x \<in> set (vmas_remove addr (page_align_up len0) (mp_vmas q))" "v_start x \<le> a \<and> a < v_end x"
    then have "x = v" using vma_unique [OF assms(8) _ assms(9), of x a] assms(12,13) by (simp add: vmas_remove_mem)
    then show False using gone x(1) by simp
  qed
  moreover have "find_vma (mw_pid w) a w = Some v"
    using vma_at_mem [OF assms(8,9,12,13)] assms(7) by (simp add: find_vma_def proc_get_def)
  ultimately show ?thesis
    using munmap_run [OF assms(1-6)] assms(7,14-16) by (auto simp: proc_get_def)
qed

theorem munmap_forgets_rest_witness:
  "\<exists>v w'. sys_munmap demo_platform 0x1000 0x1000 demo_mm = Some (0, w') \<and> find_vma 2 0 demo_mm = Some v \<and>
     find_vma 2 0 w' = None \<and> aspace (mw_vm w') 0x1000 0 = Some 0x7007"
proof -
  obtain r w' where r: "sys_munmap demo_platform 0x1000 0x1000 demo_mm = Some (r, w')" using demo_munmap by blast
  define v where "v = hd (mp_vmas demo_proc)"
  have v: "v \<in> set (mp_vmas demo_proc)" "vmas_ok (mp_vmas demo_proc)" "v_start v = 0" "v_end v = 0x2000"
    by (simp_all add: v_def demo_proc_def vmas_ok_def)
  have "r = 0" using munmap_run [of demo_platform demo_mm "0x1000" demo_frames "0x1000" "0x1000"] fork_vm_space r by simp
  moreover have "find_vma 2 0 demo_mm = Some v \<and> find_vma 2 0 w' = None \<and> aspace (mw_vm w') 0x1000 0 = aspace fork_vm 0x1000 0"
    using munmap_forgets_rest [of demo_platform demo_mm "0x1000" demo_frames "0x1000" "0x1000" demo_proc v 0 r w'] v r fork_vm_space
    by (simp add: demo_pages)
  ultimately show ?thesis using r fork_vm_pages(1) by auto
qed

text \<open>
  \<open>sys_mmap\<close> never returns for a live process once its length is positive and the stack limit of a
  growing mapping is met: the check of the address-space limit takes the lock of the control block
  again while it holds it.
\<close>

theorem mmap_hangs:
  assumes "mw_procs w (mw_pid w) = Some q" "len0 \<noteq> 0" "flags AND MAP_GROWSDOWN = 0"
  shows "sys_mmap E fb addr len0 prot flags fd offset w = Hangs"
  using assms by (simp add: sys_mmap_def check_rlimit_as_def current_as_bytes_def with_proc_held_def Let_def)

theorem mmap_hangs_witness:
  "sys_mmap demo_platform (\<lambda>_. None) 0 0x1000 3 MAP_ANON 0 0 demo_mm = Hangs"
  by (rule mmap_hangs [of demo_mm demo_proc]) (simp_all add: MAP_ANON_def MAP_GROWSDOWN_def)

text \<open>
  C40. Changing the protection undoes copy on write. After an address space has been cloned, a call of
  \<open>sys_mprotect\<close> with write permission in the child makes its page writable while it still is the
  frame the parent maps at that address: the child writes to the memory of the parent.
\<close>

theorem mprotect_undoes_cow:
  assumes as: "address_space E s parent F" and cl: "clone_pml4_cow E parent s = Some (child, mw_vm w)"
    and w: "user_cr3 w = child" "child \<noteq> 0"
    and a: "4096 dvd addr" "0 < len0" "addr + len0 \<le> 2 ^ 47" "addr \<le> va" "va < addr + len0"
    and prot: "prot AND PROT_WRITE \<noteq> 0" and e: "aspace s parent va = Some e"
    and run: "sys_mprotect E addr len0 prot w = Some (r, w')"
  shows "\<exists>e'. aspace (mw_vm w') child va = Some e' \<and> e' AND PTE_WRITABLE \<noteq> 0 \<and> pte_addr_of e' = pte_addr_of e \<and>
    virt_to_phys (vm_mem (mw_vm w')) parent va = Some (pte_addr_of e)"
proof -
  note re = range_end [OF a(1-3)]
  let ?s = "mw_vm w" and ?s' = "mw_vm w'" and ?fl = "hal_pte_flags (prot_to_flags prot)"
  obtain F1 where F1: "F1 \<subseteq> F" "address_space E ?s child F1" "address_space E ?s parent F1"
    "tables 3 (vm_mem ?s) parent = tables 3 (vm_mem s) parent" "tables 3 (vm_mem ?s) child = F - F1"
    "\<forall>va. aspace ?s parent va = map_option cow_entry (aspace s parent va)"
    "\<forall>va. aspace ?s child va = map_option cow_entry (aspace s parent va)"
    using clone_ok [OF as cl] by blast
  have m: "remap_range E child (prot_to_flags prot) (page_range addr (addr + page_align_up len0)) ?s = Some ?s'"
    using run w a(2) aligned_and [OF a(1)] by (auto simp: sys_mprotect_def re(3) Let_def split: bind_splits)
  obtain F2 where F2: "F2 \<subseteq> F1"
    "\<forall>x. aspace ?s' child x = (if vpn x \<in> vpn ` set (page_range addr (addr + page_align_up len0))
       then map_option (\<lambda>e. pte_value (pte_addr_of e) ?fl) (aspace ?s child x) else aspace ?s child x)"
    "same_off (tables 3 (vm_mem ?s) child \<union> (F1 - F2)) (vm_mem ?s) (vm_mem ?s')"
    using remap_range_ok [OF F1(2) m] by blast
  have "va < 2 ^ 48" using a(3,5) by simp
  then have "vpn va \<in> vpn ` set (page_range addr (addr + page_align_up len0))"
    using in_page_range [OF a(1) re(1,2)] a(4,5) re(5) by simp
  then have c: "aspace ?s' child va = Some (pte_value (pte_addr_of e) ?fl)"
    using F2(2) F1(7) e cow_entry_frame by simp
  have d: "tables 3 (vm_mem s) parent \<inter> F = {}" using as by (simp add: address_space_def)
  have "visited 3 (vm_mem ?s) parent va \<inter> (tables 3 (vm_mem ?s) child \<union> (F1 - F2)) = {}"
    using visited_tables [of 3 "vm_mem ?s" parent va] F1(1,4,5) d by blast
  moreover have "\<forall>x \<in> tables 3 (vm_mem ?s) child \<union> (F1 - F2). table_frame x"
    using F1(1,5) as by (auto simp: address_space_def vm_ok_def)
  ultimately have "aspace ?s' parent va = aspace ?s parent va"
    by (rule other_space_ok [OF F2(3) address_space_frame [OF as]])
  then have "virt_to_phys (vm_mem ?s') parent va = Some (pte_addr_of e)"
    using F1(6) e virt_to_phys_aspace [OF address_space_frame [OF as]] cow_entry_frame by simp
  moreover have "pte_value (pte_addr_of e) ?fl AND PTE_WRITABLE \<noteq> 0" using prot by (rule prot_write_flags)
  ultimately show ?thesis using c pte_value_simps(2) by simp
qed

theorem mprotect_undoes_cow_witness:
  "\<exists>child w w' e. clone_pml4_cow demo_platform 0x1000 fork_vm = Some (child, mw_vm w) \<and>
     sys_mprotect demo_platform 0 0x1000 PROT_WRITE w = Some (0, w') \<and> aspace (mw_vm w') child 0 = Some e \<and>
     e AND PTE_WRITABLE \<noteq> 0 \<and> pte_addr_of e = 0x7000 \<and> virt_to_phys (vm_mem (mw_vm w')) 0x1000 0 = Some 0x7000"
proof -
  obtain child s F where c: "clone_pml4_cow demo_platform 0x1000 fork_vm = Some (child, s)" "child \<noteq> 0" "table_frame child"
    "address_space demo_platform s child F" "aspace s child 0 = Some 0x7205" "vm_pmm s = pmm_boot\<lparr>bump := 4\<rparr>"
    using demo_fork by blast
  define w where "w = \<lparr>mw_vm = s, mw_procs = [2 \<mapsto> demo_proc\<lparr>mp_user_satp := child\<rparr>], mw_pid = 2\<rparr>"
  have w: "mw_vm w = s" "user_cr3 w = child" "mw_pid w = 2" by (simp_all add: w_def user_cr3_def proc_get_def)
  have f: "pte_addr_of 0x7205 = 0x7000" "pte_addr_of 0x7007 = 0x7000" by (simp_all add: pte_addr_of_def PTE_ADDR_MASK_def)
  have "\<not> dry demo_platform 3 (vm_pmm s)" using demo_not_dry [of 4 3] c(6) by (simp add: POOL_PAGES_def)
  then have "gmut demo_platform 3 child 0 s \<noteq> None" using gmut_None unfolding dry_def by metis
  then have "map_page demo_platform child 0 0x7000 (hal_pte_flags (prot_to_flags PROT_WRITE)) s \<noteq> None"
    using walk_mut_gmut [OF c(3)] by (auto simp: map_page_def split: bind_splits)
  then obtain s' where "hal_map_page demo_platform child 0 0x7000 (prot_to_flags PROT_WRITE) s = Some (True, s')"
    by (auto simp: hal_map_page_def)
  moreover have "virt_to_phys (vm_mem s) child 0 = Some 0x7000" using virt_to_phys_aspace [OF c(3)] c(5) f(1) by simp
  ultimately have "\<exists>w'. sys_mprotect demo_platform 0 0x1000 PROT_WRITE w = Some (0, w')"
    using c(2) w by (simp add: sys_mprotect_def demo_pages wadd_def Let_def)
  then obtain w' where w': "sys_mprotect demo_platform 0 0x1000 PROT_WRITE w = Some (0, w')" by blast
  have "PROT_WRITE AND PROT_WRITE \<noteq> 0" by (simp add: PROT_WRITE_def)
  with mprotect_undoes_cow [OF fork_vm_space, of child w 0 "0x1000" 0 PROT_WRITE "0x7007" 0 w'] c w w' fork_vm_pages(1) f
  have "\<exists>e. aspace (mw_vm w') child 0 = Some e \<and> e AND PTE_WRITABLE \<noteq> 0 \<and> pte_addr_of e = 0x7000 \<and>
      virt_to_phys (vm_mem (mw_vm w')) 0x1000 0 = Some 0x7000" by simp
  then show ?thesis using c(1) w(1) w' by blast
qed

end
