(* ===== verification/Spec2Isabelle.thy ===== *)
theory Spec2Isabelle
  imports Prelude Pmm Pmm_Inv Pmm_Correct Pmm_Api Pmm_Region Pmm_Safety
    Caps Bpf Uaccess Proc_Table Seccomp Lsm Fifo Wait_Queue Pipe Rlimit Proc_Fd Io_Uring Endpoint Scheme_Wire Virtio_Net Scheme
    Jbd2 Flock Eventfd Slab Slab_Inv Slab_Safety Paging Paging_Inv Paging_Correct Cow Vma Mmap Mmap_Correct
begin

text \<open>
  A verification development for parts of the MoxideOS kernel. Paths are relative to the
  repository's \<^verbatim>\<open>src/\<close>; \<^verbatim>\<open>mm/pmm.rs\<close> and the like are below its \<^verbatim>\<open>src/\<close> directory.

  \<^bold>\<open>The parts and how they interact.\<close> The physical memory manager hands out page frames; io_uring
  instances keep their shared pages, the slab caches their objects and the page tables their tables in such
  frames. The mapping system calls keep the areas of a process and its page tables; a fork clones the
  tables. Processes carry capabilities, resource
  limits, seccomp filters and descriptor tables. A system call passes the seccomp filter
  and the security hooks, and reads its arguments through the user-memory copies.
  Descriptors lead to pipes, which block on wait queues, or to schemes. A scheme is a handler
  in the kernel or a proxy that talks to a user-space service through an endpoint, as the
  virtio-net service does. File locks and the journal replay belong to the filesystem side.

  \<^bold>\<open>Theories and sources.\<close>
  \<^item> \<open>Prelude\<close>: machine integers, casts, wrapping and saturating arithmetic, \<open>BTreeMap\<close> as a sorted
    association list with its contract (locale \<open>ord_map\<close>), linked chains.
  \<^item> \<open>Pmm\<close>: every function of \<^verbatim>\<open>mm/pmm.rs\<close>, and the regions of \<^verbatim>\<open>mm/boot_memory.rs\<close>. The statics of
    the file are the record \<open>pmm\<close>, link-time addresses the record \<open>platform\<close>. \<open>Pmm_Inv\<close> has the
    invariant of the buddy lists, \<open>Pmm_Correct\<close>, \<open>Pmm_Api\<close> and \<open>Pmm_Region\<close> the specifications of
    the operations over the set of free frames, \<open>Pmm_Safety\<close> the contract of a frame allocator
    (locales \<open>frame_source\<close>, \<open>frame_allocator\<close>) and the properties: frames are handed out once, a
    release undoes an allocation, a double release panics, contiguous runs and shared frames.
  \<^item> \<open>Caps\<close>: \<^verbatim>\<open>security/capset.rs\<close>; the permitted mask is a ceiling that never rises.
  \<^item> \<open>Bpf\<close>, \<open>Seccomp\<close>: \<^verbatim>\<open>security/seccomp.rs\<close>; the interpreter equals its unbounded reading, the
    verdict is the most restrictive one, filters never loosen.
  \<^item> \<open>Lsm\<close>: \<^verbatim>\<open>security/lsm.rs\<close> and \<^verbatim>\<open>security/dac.rs\<close>; the first denial decides, and file
    access follows the permission bits.
  \<^item> \<open>Uaccess\<close>, \<open>Rlimit\<close>, \<open>Proc_Table\<close>: \<^verbatim>\<open>kernel/uaccess.rs\<close>, \<^verbatim>\<open>proc/rlimit.rs\<close> and the fields of
    process control blocks that the other theories use.
  \<^item> \<open>Fifo\<close>: the contract of a bounded queue (locale \<open>fifo\<close>), interpreted on the pipe buffer and on
    both rings of io_uring.
  \<^item> \<open>Wait_Queue\<close>: \<^verbatim>\<open>sync/wait_queue.rs\<close>; no wakeup is lost in any interleaving.
  \<^item> \<open>Pipe\<close>, \<open>Proc_Fd\<close>: \<^verbatim>\<open>fs/pipe.rs\<close>, \<^verbatim>\<open>fs/process_fd.rs\<close> and \<^verbatim>\<open>fs/scheme_fd.rs\<close>; a pipe is a stream,
    a transfer of any length completes, descriptors across fork, exec and \<open>pipe2\<close>.
  \<^item> \<open>Io_Uring\<close>: \<^verbatim>\<open>io_uring/ring.rs\<close> and \<^verbatim>\<open>io_uring/syscall.rs\<close>; the rings are queues, their pages are
    owned, and no content of the shared pages makes the kernel leave the arrays.
  \<^item> \<open>Endpoint\<close>, \<open>Scheme_Wire\<close>, \<open>Virtio_Net\<close>, \<open>Scheme\<close>: \<^verbatim>\<open>ipc/mod.rs\<close>, \<^verbatim>\<open>fs/ipc_proxy_scheme.rs\<close>,
    \<^verbatim>\<open>crates/scheme-api\<close>, \<^verbatim>\<open>userspace/drivers/virtio_net/main.rs\<close>, \<^verbatim>\<open>fs/scheme_table.rs\<close> and
    \<^verbatim>\<open>syscall/scheme.rs\<close>; endpoints are streams, kernel and service agree on the wire format,
    routes lead to live endpoints of their owners.
  \<^item> \<open>Jbd2\<close>: \<^verbatim>\<open>fs/jbd2.rs\<close>; replay is atomic across a crash and confined to the named blocks.
  \<^item> \<open>Flock\<close>: \<^verbatim>\<open>fs/flock.rs\<close>, whose locks exclude each other, and the separate table of
    \<^verbatim>\<open>fs/vfs_extras.rs\<close> that the system call uses.
  \<^item> \<open>Eventfd\<close>: \<^verbatim>\<open>fs/eventfd.rs\<close> and the raw descriptors of \<^verbatim>\<open>fs/vfs/fd.rs\<close>; events are counted exactly,
    and closing a counter does not give back its raw descriptor.
  \<^item> \<open>Slab\<close>: \<^verbatim>\<open>mm/slab.rs\<close> over the physical memory manager. \<open>Slab_Inv\<close> has the invariant of a cache (lists of
    slabs, free lists, canaries), \<open>Slab_Safety\<close> the one of all caches and the properties: objects never
    overlap, a held object can be released exactly once, the walks over the lists end.
  \<^item> \<open>Paging\<close>: \<^verbatim>\<open>arch/x86_64/paging.rs\<close> and the paging part of \<^verbatim>\<open>arch/x86_64/hal.rs\<close> over physical memory.
    \<open>Paging_Inv\<close> has the invariant (the tables under a root form a tree) and the lemmas by induction on the
    level, \<open>Paging_Correct\<close> the refinement: what an address space maps is a function, and
    mapping, unmapping and creation update it; \<open>Cow\<close> the clone for fork, level by level.
  \<^item> \<open>Vma\<close>, \<open>Mmap\<close>, \<open>Mmap_Correct\<close>: \<^verbatim>\<open>mm/mmap/\<close>; the areas of a process stay sorted and disjoint when a
    range is cut out, \<open>munmap\<close> unmaps exactly its range, and where areas and page tables part.

  Some theorems state behaviour that differs from what comments or the interface promise,
  for instance \<open>same_descriptor_shares_exclusive\<close>, \<open>second_descriptor_discards_first\<close> and
  \<open>proxy_answers_previous_call\<close>.

  \<^bold>\<open>Conventions.\<close> Arithmetic is that of a release build: it wraps. A panic is \<open>None\<close> of a
  \<open>panicky\<close> result, a \<open>Result\<close> is a sum with the error on the left. The critical section of a
  lock, and a compare-and-swap loop, is one atomic step; statements about concurrency
  quantify over sequences of such steps. A call that blocks is cut at the scheduling point.
  Subsystems that are not modelled are arguments of the definitions that call them.

  \<^bold>\<open>Loops and bounds.\<close> Loops are structural recursions or carry a termination proof, except the walks
  over the lists of slabs, which are partial functions and are proved to end in every reachable state. Where a
  model counts down, the count is the bound of the source's own loop: the journal replay scans
  \<open>max_len\<close> blocks, the submission drain runs from head to tail and gives up at once when
  that is more than the ring holds, and the receive drain of the virtio-net service runs from
  the last used index to the one of the device, which stands still while it looks.

  \<^bold>\<open>Not modelled.\<close> Architecture code other than the page tables, drivers, interrupt dispatch, display,
  input, firmware and boot: their meaning is that of hardware, as is that of the translation buffers. Program
  loading, the scheduler and context switches: they work on the registers of the architecture. The
  set-up of user stacks and the teardown of an address space call functions that the paging
  interface does not have. Not translated yet: page faults, swap, the kernel heap, the filesystems and
  the VFS, timer, signal and notification descriptors, System V and POSIX IPC objects, the network stack, terminals,
  timers and the driver leases. Memory orderings weaker than sequential consistency are
  not represented.
\<close>

end
